(* ===== verification/Prelude.thy ===== *)
theory Prelude
  imports Main "HOL-Library.Word" "HOL-Library.Char_ord" "HOL-Library.Sublist"
begin

unbundle bit_operations_syntax

text \<open>
  Shared vocabulary of the development: Go strings and bytes, the error values the
  package returns, sequencing of fallible operations, and the functions of Go's
  \<^verbatim>\<open>strings\<close>, \<^verbatim>\<open>strconv\<close> and \<^verbatim>\<open>encoding/hex\<close> packages that the sources call,
  with the lemmas the component theories use about them.

  A Go \<^verbatim>\<open>string\<close> is an immutable sequence of bytes with no encoding guarantee.  It is
  modelled as a HOL \<open>string\<close>, whose \<open>char\<close>s are exactly the 256 byte values; a
  Go \<^verbatim>\<open>byte\<close> used in arithmetic is an \<open>8 word\<close>.  A Go \<^verbatim>\<open>int\<close> is an \<open>int\<close> in the
  64-bit range.
\<close>

named_theorems gostring_simps \<open>unfolding rules for the Go string library\<close>
named_theorems error_simps \<open>sequencing and inversion of fallible operations\<close>

section \<open>Bytes and strings\<close>

type_synonym gostring = string
type_synonym byte = "8 word"

abbreviation byte_of :: "char \<Rightarrow> byte" where
  "byte_of c \<equiv> of_char c"

abbreviation char_of_byte :: "byte \<Rightarrow> char" where
  "char_of_byte b \<equiv> char_of (unat b)"

abbreviation code_of :: "char \<Rightarrow> nat" where
  "code_of c \<equiv> of_char c"

lemma code_of_less_256 [simp]: "code_of c < 256"
  by (metis mod_less_divisor of_char_mod_256 zero_less_numeral)

lemma char_eq_code_of: "c = d \<longleftrightarrow> code_of c = code_of d"
  by simp

lemma char_le_code_of: "c \<le> d \<longleftrightarrow> code_of c \<le> code_of d"
  by (simp add: less_eq_char_def)

lemma char_less_code_of: "c < d \<longleftrightarrow> code_of c < code_of d"
  by (simp add: less_char_def)

text \<open>A statement about all bytes follows from the 256 codes.\<close>

lemma all_char_iff: "(\<forall>c. P c) \<longleftrightarrow> (\<forall>n < 256. P (char_of (n :: nat)))"
proof
  assume "\<forall>n < 256. P (char_of (n :: nat))"
  then have "P (char_of (code_of c))" for c
    using code_of_less_256 by blast
  then show "\<forall>c. P c" by simp
qed simp

text \<open>Searching a list in two parts.\<close>

lemma find_append:
  "find P (xs @ ys) = (case find P xs of None \<Rightarrow> find P ys | Some x \<Rightarrow> Some x)"
  by (induction xs) auto

section \<open>Errors\<close>

text \<open>
  One constructor per error value the package can return.  Sentinel errors
  (\<^verbatim>\<open>ErrNotFound\<close>, \<^verbatim>\<open>ErrAmbiguous\<close>, \<^verbatim>\<open>errNotSmallFile\<close>) are recognised through wrapping
  with \<^verbatim>\<open>errors.Is\<close>; the predicates below do the same.
\<close>

datatype oserror = NotExist | TooManySymlinks | DeadlineExceeded | OtherOSError nat

datatype (plugins only: code size) goerror =
    NotUdsAddress gostring
  | EmptyText
  | UnknownPriority gostring
  | MalformedFrom gostring
  | RandFailed oserror
  | NoHomeDir
  | ReadDirFailed gostring oserror
  | EmptySocketPath
  | DotDotSegment gostring
  | ResolveFailed gostring oserror
  | MkdirFailed gostring oserror
  | LstatFailed gostring oserror
  | DirIsSymlink gostring
  | NotADirectory gostring
  | CannotVerifyOwner gostring
  | WrongOwner gostring nat
  | LooseMode gostring nat
  | BindUnsupportedOnWindows gostring
  | OSErr oserror
  | NotSmallFile
  | NotReadableFile gostring
  | BadJSON gostring
  | NoPeerToken gostring
  | UnparseableStat int
  | ShortStat int nat
  | NoStartTime int
  | NoStartTokenOnPlatform
  | NotFoundPID int
  | NotFoundOtherSession int
  | NotFoundOtherProcess int
  | NotFoundEmptySessionID
  | NotFoundEmptyName
  | NotFoundFor gostring
  | NotFoundAllStale nat gostring
  | Ambiguous nat gostring
  | NoInboxSocket int
  | EmptyRename
  | FrameTooLong nat
  | ConnectFailed gostring oserror
  | WriteFailed gostring oserror
  | NotUnixSocket gostring
  | SendInterrupted gostring oserror
  | HalfCloseFailed gostring oserror
  | WaitCloseFailed gostring oserror
  | AlreadyLive gostring
  | BindFailed gostring oserror
  | ChmodFailed gostring oserror

type_synonym 'a result = "goerror + 'a"

fun is_ErrNotFound :: "goerror \<Rightarrow> bool" where
  "is_ErrNotFound (NotFoundPID _) = True"
| "is_ErrNotFound (NotFoundOtherSession _) = True"
| "is_ErrNotFound (NotFoundOtherProcess _) = True"
| "is_ErrNotFound NotFoundEmptySessionID = True"
| "is_ErrNotFound NotFoundEmptyName = True"
| "is_ErrNotFound (NotFoundFor _) = True"
| "is_ErrNotFound (NotFoundAllStale _ _) = True"
| "is_ErrNotFound _ = False"

fun is_ErrAmbiguous :: "goerror \<Rightarrow> bool" where
  "is_ErrAmbiguous (Ambiguous _ _) = True"
| "is_ErrAmbiguous _ = False"

text \<open>\<^verbatim>\<open>v, err := f(); if err != nil { return err }; ...\<close>\<close>

fun and_then :: "'e + 'a \<Rightarrow> ('a \<Rightarrow> 'e + 'b) \<Rightarrow> 'e + 'b" where
  "and_then (Inl e) f = Inl e"
| "and_then (Inr x) f = f x"

text \<open>A rejected condition: \<^verbatim>\<open>if !ok { return err }\<close>.\<close>

definition ensure :: "bool \<Rightarrow> 'e \<Rightarrow> 'e + unit" where
  "ensure ok e = (if ok then Inr () else Inl e)"

lemma and_then_Inr_iff [error_simps]:
  "and_then r f = Inr y \<longleftrightarrow> (\<exists>x. r = Inr x \<and> f x = Inr y)"
  by (cases r) auto

lemma and_then_Inl_iff [error_simps]:
  "and_then r f = Inl e \<longleftrightarrow> r = Inl e \<or> (\<exists>x. r = Inr x \<and> f x = Inl e)"
  by (cases r) auto

lemma ensure_Inr_iff [simp, error_simps]: "ensure ok e = Inr u \<longleftrightarrow> ok"
  by (simp add: ensure_def)

lemma ensure_Inl_iff [simp, error_simps]: "ensure ok e = Inl e' \<longleftrightarrow> \<not> ok \<and> e' = e"
  by (auto simp: ensure_def)

lemma ensure_True [simp]: "ensure True e = Inr ()"
  by (simp add: ensure_def)

lemma ensure_False [simp]: "ensure False e = Inl e"
  by (simp add: ensure_def)

lemma and_then_cong [fundef_cong]:
  assumes "r = r'" "\<And>x. r' = Inr x \<Longrightarrow> f x = f' x"
  shows "and_then r f = and_then r' f'"
  using assms by (cases r') auto

section \<open>The \<^verbatim>\<open>strings\<close> package\<close>

definition HasPrefix :: "gostring \<Rightarrow> gostring \<Rightarrow> bool" where
  "HasPrefix s p \<longleftrightarrow> length p \<le> length s \<and> take (length p) s = p"

definition HasSuffix :: "gostring \<Rightarrow> gostring \<Rightarrow> bool" where
  "HasSuffix s p \<longleftrightarrow> length p \<le> length s \<and> drop (length s - length p) s = p"

lemma HasPrefix_prefix: "HasPrefix s p \<longleftrightarrow> prefix p s"
  unfolding HasPrefix_def
  by (metis append_eq_conv_conj prefix_def prefix_length_le)

lemma HasPrefix_Nil [simp]: "HasPrefix s []"
  by (simp add: HasPrefix_def)

lemma HasPrefix_Nil_left [simp]: "HasPrefix [] p \<longleftrightarrow> p = []"
  by (auto simp: HasPrefix_def)

lemma HasPrefix_Cons [simp]: "HasPrefix (c # s) (d # p) \<longleftrightarrow> c = d \<and> HasPrefix s p"
  by (auto simp: HasPrefix_def)

lemma HasPrefix_append [simp]: "HasPrefix (p @ s) p"
  by (simp add: HasPrefix_def)

lemma HasPrefixE: "HasPrefix s p \<Longrightarrow> s = p @ drop (length p) s"
  unfolding HasPrefix_def by (metis append_take_drop_id)

lemma HasSuffix_suffix: "HasSuffix s p \<longleftrightarrow> suffix p s"
proof
  assume "HasSuffix s p"
  then have "drop (length s - length p) s = p" by (simp add: HasSuffix_def)
  then show "suffix p s" using suffix_drop[of "length s - length p" s] by simp
next
  assume "suffix p s"
  then obtain zs where "s = zs @ p" by (auto simp: suffix_def)
  then show "HasSuffix s p" by (simp add: HasSuffix_def)
qed

text \<open>\<^verbatim>\<open>strings.Contains\<close> for a substring, by scanning the start positions.\<close>

fun Contains :: "gostring \<Rightarrow> gostring \<Rightarrow> bool" where
  "Contains [] p \<longleftrightarrow> p = []"
| "Contains (c # s) p \<longleftrightarrow> HasPrefix (c # s) p \<or> Contains s p"

lemma Contains_sublist: "Contains s p \<longleftrightarrow> sublist p s"
  by (induction s) (auto simp: HasPrefix_prefix sublist_Cons_right)

text \<open>\<^verbatim>\<open>strings.Split\<close> with a one-byte separator: always at least one segment.\<close>

fun split_at :: "char \<Rightarrow> gostring \<Rightarrow> gostring list" where
  "split_at c [] = [[]]"
| "split_at c (d # s) =
     (if d = c then [] # split_at c s
      else (case split_at c s of [] \<Rightarrow> [[d]] | seg # segs \<Rightarrow> (d # seg) # segs))"

fun join_with :: "gostring \<Rightarrow> gostring list \<Rightarrow> gostring" where
  "join_with sep [] = []"
| "join_with sep [s] = s"
| "join_with sep (s # t # ts) = s @ sep @ join_with sep (t # ts)"

lemma split_at_not_Nil [simp]: "split_at c s \<noteq> []"
  by (cases s) (auto split: list.splits)

lemma join_split_at: "join_with [c] (split_at c s) = s"
proof (induction s)
  case (Cons d s)
  obtain seg segs where "split_at c s = seg # segs"
    by (cases "split_at c s") auto
  with Cons show ?case by (cases segs) auto
qed simp

lemma split_at_no_sep: "\<forall>seg \<in> set (split_at c s). c \<notin> set seg"
  by (induction s) (auto split: list.splits)

lemma split_at_append:
  assumes "c \<notin> set a"
  shows "split_at c (a @ c # b) = a # split_at c b"
  using assms by (induction a) auto

lemma split_at_single: "c \<notin> set a \<Longrightarrow> split_at c a = [a]"
  by (induction a) auto

lemma set_split_at: "seg \<in> set (split_at c s) \<Longrightarrow> set seg \<subseteq> set s"
proof (induction s arbitrary: seg)
  case (Cons d s)
  obtain seg0 segs where s0: "split_at c s = seg0 # segs"
    by (cases "split_at c s") auto
  from Cons.IH s0 have "set seg0 \<subseteq> set s" by simp
  with Cons.prems Cons.IH s0 show ?case by (cases "d = c") (auto, blast+)
qed simp

text \<open>\<^verbatim>\<open>strings.ReplaceAll\<close> for a non-empty pattern: left to right, no overlap.\<close>

fun replace_all :: "gostring \<Rightarrow> gostring \<Rightarrow> nat \<Rightarrow> gostring \<Rightarrow> gostring" where
  "replace_all old new skip [] = []"
| "replace_all old new (Suc n) (c # s) = replace_all old new n s"
| "replace_all old new 0 (c # s) =
     (if HasPrefix (c # s) old then new @ replace_all old new (length old - 1) s
      else c # replace_all old new 0 s)"

definition ReplaceAll :: "gostring \<Rightarrow> gostring \<Rightarrow> gostring \<Rightarrow> gostring" where
  "ReplaceAll s old new = replace_all old new 0 s"

lemma replace_all_skip: "replace_all old new n s = replace_all old new 0 (drop n s)"
  by (induction n arbitrary: s) (case_tac s; simp)+

lemma ReplaceAll_id: "\<not> Contains s old \<Longrightarrow> ReplaceAll s old new = s"
  unfolding ReplaceAll_def by (induction s) auto

text \<open>The index of the last occurrence of a byte (\<^verbatim>\<open>strings.LastIndex\<close>; \<open>None\<close> is -1).\<close>

fun LastIndexByte :: "gostring \<Rightarrow> char \<Rightarrow> nat option" where
  "LastIndexByte [] c = None"
| "LastIndexByte (d # s) c =
     (case LastIndexByte s c of Some i \<Rightarrow> Some (Suc i)
      | None \<Rightarrow> if d = c then Some 0 else None)"

lemma LastIndexByte_None: "LastIndexByte s c = None \<longleftrightarrow> c \<notin> set s"
  by (induction s) (auto split: option.splits)

lemma LastIndexByte_append:
  "c \<notin> set b \<Longrightarrow> LastIndexByte (a @ c # b) c = Some (length a)"
proof (induction a)
  case Nil
  then have "LastIndexByte b c = None" by (simp add: LastIndexByte_None)
  then show ?case by simp
qed simp

section \<open>The \<^verbatim>\<open>strconv\<close> package\<close>

definition digit_char :: "nat \<Rightarrow> char" where
  "digit_char d = char_of (48 + d)"

definition is_digit :: "char \<Rightarrow> bool" where
  "is_digit c \<longleftrightarrow> CHR ''0'' \<le> c \<and> c \<le> CHR ''9''"

definition digit_val :: "char \<Rightarrow> nat" where
  "digit_val c = code_of c - 48"

fun nat_str :: "nat \<Rightarrow> gostring" where
  "nat_str n = (if n < 10 then [digit_char n] else nat_str (n div 10) @ [digit_char (n mod 10)])"

declare nat_str.simps [simp del]

definition Itoa :: "int \<Rightarrow> gostring" where
  "Itoa n = (if n < 0 then CHR ''-'' # nat_str (nat (- n)) else nat_str (nat n))"

definition dec_val :: "gostring \<Rightarrow> nat" where
  "dec_val s = foldl (\<lambda>acc c. 10 * acc + digit_val c) 0 s"

definition max_int :: int where
  "max_int = 2 ^ 63 - 1"

text \<open>
  \<^verbatim>\<open>strconv.Atoi\<close> on a string of decimal digits, the only input the sources give it:
  the value, or a range error past 64 bits.
\<close>

definition Atoi_digits :: "gostring \<Rightarrow> int option" where
  "Atoi_digits s = (if int (dec_val s) \<le> max_int then Some (int (dec_val s)) else None)"

lemma is_digit_code: "is_digit c \<longleftrightarrow> 48 \<le> code_of c \<and> code_of c \<le> 57"
  by (simp add: is_digit_def char_le_code_of)

lemma digit_char_code: "d < 10 \<Longrightarrow> code_of (digit_char d) = 48 + d"
  by (simp add: digit_char_def)

lemma is_digit_digit_char [simp]: "d < 10 \<Longrightarrow> is_digit (digit_char d)"
  by (simp add: is_digit_code digit_char_code)

lemma digit_val_digit_char [simp]: "d < 10 \<Longrightarrow> digit_val (digit_char d) = d"
  by (simp add: digit_val_def digit_char_code)

lemma nat_str_digits: "\<forall>c \<in> set (nat_str n). is_digit c"
proof (induction n rule: nat_str.induct)
  case (1 n)
  then show ?case by (cases "n < 10") (auto simp: nat_str.simps[of n])
qed

lemma nat_str_not_Nil [simp]: "nat_str n \<noteq> []"
  by (subst nat_str.simps) simp

lemma dec_val_snoc [simp]: "dec_val (s @ [c]) = 10 * dec_val s + digit_val c"
  by (simp add: dec_val_def)

lemma dec_val_nat_str [simp]: "dec_val (nat_str n) = n"
proof (induction n rule: nat_str.induct)
  case (1 n)
  then show ?case
    by (cases "n < 10") (auto simp: nat_str.simps[of n] dec_val_def)
qed

lemma Itoa_inj_nonneg: "0 \<le> m \<Longrightarrow> 0 \<le> n \<Longrightarrow> Itoa m = Itoa n \<Longrightarrow> m = n"
  unfolding Itoa_def by (metis dec_val_nat_str leD nat_eq_iff2 nat_0_le)

lemma Atoi_Itoa: "0 \<le> n \<Longrightarrow> n \<le> max_int \<Longrightarrow> Atoi_digits (Itoa n) = Some n"
  by (simp add: Atoi_digits_def Itoa_def)

section \<open>The \<^verbatim>\<open>encoding/hex\<close> package\<close>

definition hex_lower :: "nat \<Rightarrow> char" where
  "hex_lower d = (if d < 10 then char_of (48 + d) else char_of (87 + d))"

definition hex_upper :: "nat \<Rightarrow> char" where
  "hex_upper d = (if d < 10 then char_of (48 + d) else char_of (55 + d))"

definition is_lower_hex :: "char \<Rightarrow> bool" where
  "is_lower_hex c \<longleftrightarrow> is_digit c \<or> (CHR ''a'' \<le> c \<and> c \<le> CHR ''f'')"

definition hex_byte :: "byte \<Rightarrow> gostring" where
  "hex_byte b = [hex_lower (unat b div 16), hex_lower (unat b mod 16)]"

definition EncodeToString :: "byte list \<Rightarrow> gostring" where
  "EncodeToString bs = concat (map hex_byte bs)"

lemma hex_lower_code: "d < 16 \<Longrightarrow> code_of (hex_lower d) = (if d < 10 then 48 + d else 87 + d)"
  by (simp add: hex_lower_def)

lemma hex_upper_code: "d < 16 \<Longrightarrow> code_of (hex_upper d) = (if d < 10 then 48 + d else 55 + d)"
  by (simp add: hex_upper_def)

lemma is_lower_hex_code:
  "is_lower_hex c \<longleftrightarrow> (48 \<le> code_of c \<and> code_of c \<le> 57) \<or> (97 \<le> code_of c \<and> code_of c \<le> 102)"
  by (simp add: is_lower_hex_def is_digit_code char_le_code_of)

lemma is_lower_hex_hex_lower [simp]: "d < 16 \<Longrightarrow> is_lower_hex (hex_lower d)"
  by (simp add: is_lower_hex_code hex_lower_code)

lemma unat_byte_less: "unat (b :: byte) < 256"
  using unsigned_less[of b, where 'a = nat] by simp

lemma length_EncodeToString [simp]: "length (EncodeToString bs) = 2 * length bs"
  by (induction bs) (auto simp: EncodeToString_def hex_byte_def)

lemma EncodeToString_lower_hex: "\<forall>c \<in> set (EncodeToString bs). is_lower_hex c"
proof -
  have "unat b div 16 < 16" for b :: byte
    using unat_byte_less[of b] by (simp add: less_mult_imp_div_less)
  then show ?thesis by (auto simp: EncodeToString_def hex_byte_def)
qed

section \<open>Interfaces shared by several components\<close>

text \<open>
  An encoder with a decoder that inverts it on the values in \<open>ok\<close>: the address
  escaping, the JSON string syntax and the line framing of a connection all promise this.
  The clients rely on two consequences only: encodings do not collide, and decoding finds
  no second meaning.
\<close>

locale codec =
  fixes enc :: "'a \<Rightarrow> 'b"
    and dec :: "'b \<Rightarrow> 'e + 'a"
    and ok :: "'a \<Rightarrow> bool"
  assumes dec_enc: "ok x \<Longrightarrow> dec (enc x) = Inr x"
begin

lemma enc_inj: "ok x \<Longrightarrow> ok y \<Longrightarrow> enc x = enc y \<longleftrightarrow> x = y"
  by (metis dec_enc sum.inject(2))

lemma dec_sound: "ok x \<Longrightarrow> dec (enc x) = Inr y \<Longrightarrow> y = x"
  by (simp add: dec_enc)

lemma dec_total: "ok x \<Longrightarrow> \<not> isl (dec (enc x))"
  by (simp add: dec_enc)

end

text \<open>A codec whose encodings all satisfy a syntactic check made by the other side.\<close>

locale checked_codec = codec enc dec ok
  for enc :: "'a \<Rightarrow> 'b" and dec :: "'b \<Rightarrow> 'e + 'a" and ok :: "'a \<Rightarrow> bool" +
  fixes wf :: "'b \<Rightarrow> bool"
  assumes wf_enc: "ok x \<Longrightarrow> wf (enc x)"
begin

lemma accepted_and_decoded: "ok x \<Longrightarrow> wf (enc x) \<and> dec (enc x) = Inr x"
  by (simp add: wf_enc dec_enc)

end

end
