(* ===== verification/Steps.thy ===== *)
theory Steps
  imports Prelude
begin

text \<open>
  Transition systems for the parts of the package that run concurrently: what is reachable
  from the initial states by steps, and the interface through which a component offers an
  invariant of its steps and the safety conditions that follow from it.
\<close>

inductive reachable :: "('s \<Rightarrow> bool) \<Rightarrow> ('s \<Rightarrow> 's \<Rightarrow> bool) \<Rightarrow> 's \<Rightarrow> bool"
  for init :: "'s \<Rightarrow> bool" and step :: "'s \<Rightarrow> 's \<Rightarrow> bool" where
  reachable_init: "init s \<Longrightarrow> reachable init step s"
| reachable_step: "reachable init step s \<Longrightarrow> step s s' \<Longrightarrow> reachable init step s'"

locale invariant_system =
  fixes init :: "'s \<Rightarrow> bool"
    and step :: "'s \<Rightarrow> 's \<Rightarrow> bool"
    and inv :: "'s \<Rightarrow> bool"
  assumes inv_init: "init s \<Longrightarrow> inv s"
    and inv_step: "inv s \<Longrightarrow> step s s' \<Longrightarrow> inv s'"
begin

lemma inv_reachable: "reachable init step s \<Longrightarrow> inv s"
  by (induction rule: reachable.induct) (auto intro: inv_init inv_step)

end

text \<open>A condition the invariant implies holds in every reachable state.\<close>

locale safe_system = invariant_system init step inv
  for init :: "'s \<Rightarrow> bool" and step :: "'s \<Rightarrow> 's \<Rightarrow> bool" and inv :: "'s \<Rightarrow> bool" +
  fixes good :: "'s \<Rightarrow> bool"
  assumes inv_good: "inv s \<Longrightarrow> good s"
begin

lemma good_reachable: "reachable init step s \<Longrightarrow> good s"
  by (rule inv_good) (rule inv_reachable)

end

text \<open>Several steps, for concrete runs.\<close>

fun run_steps :: "('s \<Rightarrow> 's \<Rightarrow> bool) \<Rightarrow> 's \<Rightarrow> 's list \<Rightarrow> bool" where
  "run_steps step s [] \<longleftrightarrow> True"
| "run_steps step s (s' # ss) \<longleftrightarrow> step s s' \<and> run_steps step s' ss"

lemma run_steps_reachable:
  "reachable init step s \<Longrightarrow> run_steps step s ss \<Longrightarrow> reachable init step (last (s # ss))"
proof (induction ss arbitrary: s)
  case (Cons s' ss)
  then have "reachable init step s'" "run_steps step s' ss" by (auto intro: reachable_step)
  from Cons.IH[OF this] show ?case by simp
qed simp

text \<open>
  A run without its idle steps: what is left of a list of states when a state that repeats
  the one before it is dropped.
\<close>

fun visible :: "'a \<Rightarrow> 'a list \<Rightarrow> 'a list" where
  "visible a [] = []"
| "visible a (b # bs) = (if a = b then visible b bs else b # visible b bs)"

lemma last_visible: "last (a # visible a bs) = last (a # bs)"
proof (induction bs arbitrary: a)
  case (Cons b bs)
  from Cons [of b] show ?case by auto
qed simp

text \<open>
  A system that implements another one: seen through \<open>abs\<close>, each of its steps from a state
  with the invariant is a step of the abstract system or no step at all.
\<close>

locale refinement_map = invariant_system init step inv
  for init :: "'s \<Rightarrow> bool" and step :: "'s \<Rightarrow> 's \<Rightarrow> bool" and inv :: "'s \<Rightarrow> bool" +
  fixes abs :: "'s \<Rightarrow> 'a" and spec_init :: "'a \<Rightarrow> bool" and spec_step :: "'a \<Rightarrow> 'a \<Rightarrow> bool"
  assumes abs_init: "init s \<Longrightarrow> spec_init (abs s)"
    and abs_step: "inv s \<Longrightarrow> step s s' \<Longrightarrow> abs s' = abs s \<or> spec_step (abs s) (abs s')"
begin

lemma abs_reachable: "reachable init step s \<Longrightarrow> reachable spec_init spec_step (abs s)"
proof (induction rule: reachable.induct)
  case (reachable_init s)
  then show ?case by (intro reachable.reachable_init abs_init)
next
  case (reachable_step s s')
  from reachable_step(1) have "inv s" by (rule inv_reachable)
  from abs_step [OF this reachable_step(2)] reachable_step(3) show ?case
    by (auto intro: reachable.reachable_step)
qed

lemma abs_run_inv:
  "inv s \<Longrightarrow> run_steps step s ss \<Longrightarrow> run_steps spec_step (abs s) (visible (abs s) (map abs ss))"
proof (induction ss arbitrary: s)
  case (Cons s' ss)
  then have "step s s'" "run_steps step s' ss" by simp_all
  with Cons.prems have "inv s'" by (blast intro: inv_step)
  with Cons \<open>run_steps step s' ss\<close> abs_step [OF Cons.prems(1) \<open>step s s'\<close>] show ?case by auto
qed simp

lemma abs_run:
  "reachable init step s \<Longrightarrow> run_steps step s ss \<Longrightarrow>
     run_steps spec_step (abs s) (visible (abs s) (map abs ss))"
  by (intro abs_run_inv inv_reachable)

end

end
