(* ===== verification/World.thy ===== *)
theory World
  imports Prelude
begin

text \<open>
  What the package observes of its surroundings while it reads: the build's operating
  system, the environment variables, the working directory, directory listings, files,
  processes and listening sockets.  These are the results of system calls, so they are
  data of the model, one record of functions that every reading operation takes as its
  first argument; nothing is assumed about them unless a lemma says so.  Two fields are
  properties of the toolchain instead: \<open>print_table\<close> is the table of printable runes beyond
  Latin-1 that \<^verbatim>\<open>strconv.IsPrint\<close> was generated from (it varies with the Unicode
  version), and \<open>float_overflow\<close> is what converting a float beyond the 64-bit range to an
  integer gives (the Go specification leaves it to the implementation).
\<close>

section \<open>The operating system as seen by the package\<close>

text \<open>The build tags that select \<^verbatim>\<open>platform_*.go\<close> and \<^verbatim>\<open>procstart_*.go\<close>.\<close>

datatype goos = Linux | Darwin | OtherUnix | Windows

definition is_unix :: "goos \<Rightarrow> bool" where
  "is_unix os \<longleftrightarrow> os \<noteq> Windows"

text \<open>
  An opened file: the result of \<^verbatim>\<open>fstat\<close> on the
  descriptor (regular file?, size), the bytes reading it yields, and the error, if any,
  that ends the read instead of the end of the file.  Size and bytes need not agree: the
  file may change between the calls.
\<close>

record open_file =
  fstat :: "oserror + (bool \<times> int)"
  contents :: gostring
  read_error :: "oserror option"

text \<open>
  What is at a path when it is opened for reading without following a symlink in its last
  component: an error, a symlink, or something that opens.
\<close>

datatype fs_entry = EntryError oserror | SymlinkEntry | Entry open_file

datatype kill_result = KillOK | KillEPERM | KillOther

record world =
  goos :: goos
  environ :: "gostring \<Rightarrow> gostring option"
  getwd :: "oserror + gostring"
  getuid :: nat
  getpid :: int
  readdir :: "gostring \<Rightarrow> oserror + gostring list"
  entry_at :: "gostring \<Rightarrow> fs_entry"
  open_follow :: "gostring \<Rightarrow> oserror + open_file"
  readfile :: "gostring \<Rightarrow> oserror + gostring"
  ps_lstart :: "int \<Rightarrow> oserror + gostring"
  kill0 :: "int \<Rightarrow> kill_result"
  open_process :: "32 word \<Rightarrow> bool"
  print_table :: "nat \<Rightarrow> bool"
  dial_ok :: "gostring \<Rightarrow> int \<Rightarrow> bool"
  float_overflow :: "int \<Rightarrow> int \<Rightarrow> int"

text \<open>\<^verbatim>\<open>os.Getenv\<close>: the empty string when the variable is unset.\<close>

definition Getenv :: "world \<Rightarrow> gostring \<Rightarrow> gostring" where
  "Getenv w k = (case environ w k of None \<Rightarrow> [] | Some v \<Rightarrow> v)"

text \<open>\<^verbatim>\<open>os.UserHomeDir\<close> on Unix: \<^verbatim>\<open>$HOME\<close>, an error when it is empty.\<close>

definition UserHomeDir :: "world \<Rightarrow> gostring result" where
  "UserHomeDir w = (if Getenv w ''HOME'' = [] then Inl NoHomeDir else Inr (Getenv w ''HOME''))"

text \<open>\<^verbatim>\<open>os.TempDir\<close> on Unix.\<close>

definition TempDir :: "world \<Rightarrow> gostring" where
  "TempDir w = (if Getenv w ''TMPDIR'' = [] then ''/tmp'' else Getenv w ''TMPDIR'')"

text \<open>Durations are counted in nanoseconds, as \<^verbatim>\<open>time.Duration\<close> is.\<close>

type_synonym duration = int

definition Millisecond :: duration where
  "Millisecond = 1000000"

definition Second :: duration where
  "Second = 1000000000"

end
