(* ===== verification/Serve.thy ===== *)
theory Serve
  imports Steps World
begin

text \<open>
  The concurrent life of an \<^verbatim>\<open>Inbox\<close> of \<^verbatim>\<open>inbox.go\<close>: the accept loop
  \<^verbatim>\<open>serve\<close> with its back-off, and any number of goroutines calling \<^verbatim>\<open>Close\<close>, as a
  step relation with one mutex, flag or kernel operation per step.  The lemmas show that the
  listener is closed and \<^verbatim>\<open>os.Remove\<close> called exactly once by whoever comes first, that the
  back-off stays within its bounds, and that the accept loop ends after a close.
\<close>

section \<open>State\<close>

datatype close_pc = CStart | CHolding | CMarked | CClosing | CRemoving | CReturned

datatype serve_pc =
    SAccept
  | SFailed
  | SHolding
  | SRead bool
  | SChecked bool
  | SSleeping
  | SStopped

datatype holder = Closer nat | Server

record inbox_state =
  i_mu :: "holder option"
  i_closed :: bool
  i_listening :: bool
  i_closes :: nat
  i_removes :: nat
  i_handled :: nat
  i_delay :: duration
  i_cpc :: "nat \<Rightarrow> close_pc"
  i_spc :: serve_pc

text \<open>The back-off of \<^verbatim>\<open>serve\<close>.\<close>

definition next_delay :: "duration \<Rightarrow> duration" where
  "next_delay d =
     (let d' = (if d = 0 then 5 * Millisecond else 2 * d)
      in if d' > Second then Second else d')"

section \<open>Steps\<close>

text \<open>The accept loop.  \<^verbatim>\<open>Accept\<close> may fail at any time, and only fails once the
  listener is closed.\<close>

inductive serve_step :: "inbox_state \<Rightarrow> inbox_state \<Rightarrow> bool" where
  serve_accept: "i_spc s = SAccept \<Longrightarrow> i_listening s \<Longrightarrow>
    serve_step s (s\<lparr>i_delay := 0, i_handled := Suc (i_handled s)\<rparr>)"
| serve_error: "i_spc s = SAccept \<Longrightarrow> serve_step s (s\<lparr>i_spc := SFailed\<rparr>)"
| serve_lock: "i_spc s = SFailed \<Longrightarrow> i_mu s = None \<Longrightarrow>
    serve_step s (s\<lparr>i_mu := Some Server, i_spc := SHolding\<rparr>)"
| serve_read: "i_spc s = SHolding \<Longrightarrow> serve_step s (s\<lparr>i_spc := SRead (i_closed s)\<rparr>)"
| serve_unlock: "i_spc s = SRead c \<Longrightarrow> serve_step s (s\<lparr>i_mu := None, i_spc := SChecked c\<rparr>)"
| serve_return: "i_spc s = SChecked True \<Longrightarrow> serve_step s (s\<lparr>i_spc := SStopped\<rparr>)"
| serve_backoff: "i_spc s = SChecked False \<Longrightarrow>
    serve_step s (s\<lparr>i_delay := next_delay (i_delay s), i_spc := SSleeping\<rparr>)"
| serve_wake: "i_spc s = SSleeping \<Longrightarrow> serve_step s (s\<lparr>i_spc := SAccept\<rparr>)"

text \<open>One call of \<^verbatim>\<open>Close\<close> by goroutine \<open>t\<close>.\<close>

inductive close_step :: "nat \<Rightarrow> inbox_state \<Rightarrow> inbox_state \<Rightarrow> bool" for t :: nat where
  close_lock: "i_cpc s t = CStart \<Longrightarrow> i_mu s = None \<Longrightarrow>
    close_step t s (s\<lparr>i_mu := Some (Closer t), i_cpc := (i_cpc s)(t := CHolding)\<rparr>)"
| close_again: "i_cpc s t = CHolding \<Longrightarrow> i_closed s \<Longrightarrow>
    close_step t s (s\<lparr>i_mu := None, i_cpc := (i_cpc s)(t := CReturned)\<rparr>)"
| close_mark: "i_cpc s t = CHolding \<Longrightarrow> \<not> i_closed s \<Longrightarrow>
    close_step t s (s\<lparr>i_closed := True, i_cpc := (i_cpc s)(t := CMarked)\<rparr>)"
| close_unlock: "i_cpc s t = CMarked \<Longrightarrow>
    close_step t s (s\<lparr>i_mu := None, i_cpc := (i_cpc s)(t := CClosing)\<rparr>)"
| close_listener: "i_cpc s t = CClosing \<Longrightarrow>
    close_step t s (s\<lparr>i_listening := False, i_closes := Suc (i_closes s), i_cpc := (i_cpc s)(t := CRemoving)\<rparr>)"
| close_remove: "i_cpc s t = CRemoving \<Longrightarrow>
    close_step t s (s\<lparr>i_removes := Suc (i_removes s), i_cpc := (i_cpc s)(t := CReturned)\<rparr>)"

definition inbox_step :: "inbox_state \<Rightarrow> inbox_state \<Rightarrow> bool" where
  "inbox_step s s' \<longleftrightarrow> serve_step s s' \<or> (\<exists>t. close_step t s s')"

text \<open>What \<^verbatim>\<open>Listen\<close> hands out.\<close>

definition inbox_init :: "inbox_state \<Rightarrow> bool" where
  "inbox_init s \<longleftrightarrow> i_mu s = None \<and> \<not> i_closed s \<and> i_listening s \<and> i_closes s = 0 \<and> i_removes s = 0 \<and>
     i_delay s = 0 \<and> (\<forall>t. i_cpc s t = CStart) \<and> i_spc s = SAccept"

section \<open>The invariant\<close>

text \<open>
  Three independent parts.  Mutual exclusion: the mutex is held by exactly who is
  inside a critical section.
\<close>

fun holds :: "inbox_state \<Rightarrow> holder \<Rightarrow> bool" where
  "holds s (Closer t) \<longleftrightarrow> i_cpc s t = CHolding \<or> i_cpc s t = CMarked"
| "holds s Server \<longleftrightarrow> (case i_spc s of SHolding \<Rightarrow> True | SRead c \<Rightarrow> True | _ \<Rightarrow> False)"

definition mutex_inv :: "inbox_state \<Rightarrow> bool" where
  "mutex_inv s \<longleftrightarrow> (\<forall>h. holds s h \<longleftrightarrow> i_mu s = Some h)"

text \<open>
  Closing: nobody has, one goroutine is at it, or it is done; the counters of the kernel
  calls tell which.
\<close>

definition closing :: "inbox_state \<Rightarrow> nat \<Rightarrow> bool" where
  "closing s t \<longleftrightarrow> i_cpc s t = CMarked \<or> i_cpc s t = CClosing \<or> i_cpc s t = CRemoving"

definition open_inbox :: "inbox_state \<Rightarrow> bool" where
  "open_inbox s \<longleftrightarrow> \<not> i_closed s \<and> i_listening s \<and> i_closes s = 0 \<and> i_removes s = 0 \<and> (\<forall>t. \<not> closing s t)"

definition being_closed :: "inbox_state \<Rightarrow> nat \<Rightarrow> bool" where
  "being_closed s t \<longleftrightarrow> i_closed s \<and> closing s t \<and> (\<forall>u. u \<noteq> t \<longrightarrow> \<not> closing s u) \<and> i_removes s = 0 \<and>
     i_closes s = (if i_cpc s t = CRemoving then 1 else 0) \<and> (i_listening s \<longleftrightarrow> i_cpc s t \<noteq> CRemoving)"

definition closed_inbox :: "inbox_state \<Rightarrow> bool" where
  "closed_inbox s \<longleftrightarrow> i_closed s \<and> \<not> i_listening s \<and> i_closes s = 1 \<and> i_removes s = 1 \<and> (\<forall>t. \<not> closing s t)"

definition close_inv :: "inbox_state \<Rightarrow> bool" where
  "close_inv s \<longleftrightarrow> open_inbox s \<or> (\<exists>t. being_closed s t) \<or> closed_inbox s"

text \<open>The accept loop: its delay is in range, and it only ends on an inbox marked closed.\<close>

definition delay_ok :: "duration \<Rightarrow> bool" where
  "delay_ok d \<longleftrightarrow> d = 0 \<or> (5 * Millisecond \<le> d \<and> d \<le> Second)"

definition serve_inv :: "inbox_state \<Rightarrow> bool" where
  "serve_inv s \<longleftrightarrow> delay_ok (i_delay s) \<and> (i_spc s = SSleeping \<longrightarrow> i_delay s \<noteq> 0) \<and>
     (i_spc s = SRead True \<or> i_spc s = SChecked True \<or> i_spc s = SStopped \<longrightarrow> i_closed s)"

definition inbox_inv :: "inbox_state \<Rightarrow> bool" where
  "inbox_inv s \<longleftrightarrow> mutex_inv s \<and> close_inv s \<and> serve_inv s"

section \<open>Each step keeps the invariant\<close>

lemma mutex_keep:
  assumes "mutex_inv s" "i_mu s' = i_mu s" "\<And>h. holds s' h = holds s h"
  shows "mutex_inv s'"
  using assms by (simp add: mutex_inv_def)

lemma mutex_acquire:
  assumes "mutex_inv s" "i_mu s = None" "i_mu s' = Some h0" "\<And>h. holds s' h \<longleftrightarrow> holds s h \<or> h = h0"
  shows "mutex_inv s'"
  using assms by (auto simp: mutex_inv_def)

lemma mutex_release:
  assumes "mutex_inv s" "holds s h0" "i_mu s' = None" "\<And>h. holds s' h \<longleftrightarrow> holds s h \<and> h \<noteq> h0"
  shows "mutex_inv s'"
  using assms by (auto simp: mutex_inv_def)

lemma holds_iff:
  "holds s h \<longleftrightarrow> (\<exists>t. h = Closer t \<and> (i_cpc s t = CHolding \<or> i_cpc s t = CMarked)) \<or>
     (h = Server \<and> (i_spc s = SHolding \<or> (\<exists>c. i_spc s = SRead c)))"
  by (cases h) (auto split: serve_pc.splits)

lemma mutex_serve:
  assumes "serve_step s s'" "mutex_inv s"
  shows "mutex_inv s'"
  using assms(1)
proof (cases rule: serve_step.cases)
  case serve_lock
  with assms(2) show ?thesis by (intro mutex_acquire[of s s' Server]) (auto simp: holds_iff)
next
  case (serve_unlock c)
  with assms(2) show ?thesis by (intro mutex_release[of s Server s']) (auto simp: holds_iff)
qed ((rule mutex_keep[OF assms(2)]; force simp: holds_iff)+)

lemma mutex_close:
  assumes "close_step t s s'" "mutex_inv s"
  shows "mutex_inv s'"
  using assms(1)
proof (cases rule: close_step.cases)
  case close_lock
  with assms(2) show ?thesis
    by (intro mutex_acquire[of s s' "Closer t"]) (auto simp: holds_iff split: if_splits)
next
  case close_again
  with assms(2) show ?thesis
    by (intro mutex_release[of s "Closer t" s']) (auto simp: holds_iff split: if_splits)
next
  case close_unlock
  with assms(2) show ?thesis
    by (intro mutex_release[of s "Closer t" s']) (auto simp: holds_iff split: if_splits)
qed ((rule mutex_keep[OF assms(2)]; force simp: holds_iff split: if_splits)+)

lemma next_delay_ok: "delay_ok d \<Longrightarrow> delay_ok (next_delay d) \<and> next_delay d \<noteq> 0"
  by (auto simp: delay_ok_def next_delay_def Millisecond_def Second_def)

lemma delay_ok_0: "delay_ok 0"
  by (simp add: delay_ok_def)

lemma serve_inv_serve: "serve_step s s' \<Longrightarrow> serve_inv s \<Longrightarrow> serve_inv s'"
  by (induction rule: serve_step.induct) (simp_all add: serve_inv_def next_delay_ok delay_ok_0)

lemma serve_inv_close: "close_step t s s' \<Longrightarrow> serve_inv s \<Longrightarrow> serve_inv s'"
  by (induction rule: close_step.induct) (simp_all add: serve_inv_def)

text \<open>The accept loop touches nothing the closing part looks at.\<close>

lemma serve_frame:
  "serve_step s s' \<Longrightarrow> i_closed s' = i_closed s \<and> i_listening s' = i_listening s \<and> i_closes s' = i_closes s \<and>
     i_removes s' = i_removes s \<and> i_cpc s' = i_cpc s"
  by (induction rule: serve_step.induct) simp_all

lemma close_inv_cong:
  assumes "i_closed s' = i_closed s" "i_listening s' = i_listening s" "i_closes s' = i_closes s"
    "i_removes s' = i_removes s" "\<And>t. closing s' t = closing s t" "\<And>t. closing s t \<Longrightarrow> i_cpc s' t = i_cpc s t"
    and "close_inv s"
  shows "close_inv s'"
proof -
  have "open_inbox s \<Longrightarrow> open_inbox s'" by (simp add: open_inbox_def assms(1-5))
  moreover have "closed_inbox s \<Longrightarrow> closed_inbox s'" by (simp add: closed_inbox_def assms(1-5))
  moreover have "being_closed s' t" if b: "being_closed s t" for t
  proof -
    have "i_cpc s' t = i_cpc s t" using b by (intro assms(6)) (simp add: being_closed_def)
    with b show ?thesis by (simp add: being_closed_def assms(1-5))
  qed
  ultimately show ?thesis using assms(7) unfolding close_inv_def by blast
qed

lemma close_inv_serve:
  assumes "serve_step s s'" "close_inv s"
  shows "close_inv s'"
  using serve_frame[OF assms(1)] by (intro close_inv_cong[OF _ _ _ _ _ _ assms(2)]) (simp_all add: closing_def)

lemma closing_being_closed: "close_inv s \<Longrightarrow> closing s t \<Longrightarrow> being_closed s t"
  unfolding close_inv_def open_inbox_def closed_inbox_def being_closed_def by metis

lemma close_inv_close:
  assumes "close_step t s s'" "close_inv s"
  shows "close_inv s'"
  using assms(1)
proof (cases rule: close_step.cases)
  case close_mark
  have "open_inbox s"
    using assms(2) close_mark(3) unfolding close_inv_def being_closed_def closed_inbox_def by blast
  then have o: "i_listening s" "i_closes s = 0" "i_removes s = 0" "\<And>u. \<not> closing s u"
    by (simp_all add: open_inbox_def)
  have u: "\<not> closing s' u" if "u \<noteq> t" for u
    using that o(4)[of u] by (simp add: close_mark(1) closing_def)
  have f: "i_closed s'" "i_listening s'" "i_closes s' = 0" "i_removes s' = 0" "i_cpc s' t = CMarked"
    using o(1-3) by (simp_all add: close_mark(1))
  then have "closing s' t" by (simp add: closing_def)
  with f u have "being_closed s' t" by (simp add: being_closed_def)
  then show ?thesis by (auto simp: close_inv_def)
next
  case close_unlock
  then have "being_closed s t" using closing_being_closed[OF assms(2)] by (simp add: closing_def)
  then have "being_closed s' t" using close_unlock by (simp add: being_closed_def closing_def)
  then show ?thesis by (auto simp: close_inv_def)
next
  case close_listener
  then have "being_closed s t" using closing_being_closed[OF assms(2)] by (simp add: closing_def)
  then have "being_closed s' t" using close_listener by (simp add: being_closed_def closing_def)
  then show ?thesis by (auto simp: close_inv_def)
next
  case close_remove
  then have "being_closed s t" using closing_being_closed[OF assms(2)] by (simp add: closing_def)
  then have "closed_inbox s'" using close_remove by (simp add: being_closed_def closed_inbox_def closing_def)
  then show ?thesis by (auto simp: close_inv_def)
qed ((rule close_inv_cong[OF _ _ _ _ _ _ assms(2)]; force simp: closing_def)+)

lemma inbox_inv_step: "inbox_inv s \<Longrightarrow> inbox_step s s' \<Longrightarrow> inbox_inv s'"
  by (auto simp: inbox_inv_def inbox_step_def intro: mutex_serve mutex_close serve_inv_serve serve_inv_close
      close_inv_serve close_inv_close)

lemma inbox_inv_init: "inbox_init s \<Longrightarrow> inbox_inv s"
  by (simp add: inbox_init_def inbox_inv_def mutex_inv_def holds_iff close_inv_def open_inbox_def closing_def
      serve_inv_def delay_ok_def)

text \<open>What follows from the invariant for the kernel calls and the loop.\<close>

definition inbox_good :: "inbox_state \<Rightarrow> bool" where
  "inbox_good s \<longleftrightarrow> i_closes s \<le> 1 \<and> i_removes s \<le> i_closes s \<and> (i_listening s \<longleftrightarrow> i_closes s = 0) \<and>
     (i_closes s = 1 \<longrightarrow> i_closed s) \<and>
     (i_spc s = SSleeping \<longrightarrow> 5 * Millisecond \<le> i_delay s \<and> i_delay s \<le> Second) \<and>
     (i_spc s = SStopped \<longrightarrow> i_closed s)"

lemma close_inv_counts:
  assumes "close_inv s"
  shows "i_closes s \<le> 1 \<and> i_removes s \<le> i_closes s \<and> (i_listening s \<longleftrightarrow> i_closes s = 0) \<and>
    (i_closes s = 1 \<longrightarrow> i_closed s)"
proof -
  consider "open_inbox s" | t where "being_closed s t" | "closed_inbox s"
    using assms by (auto simp: close_inv_def)
  then show ?thesis
    by cases (simp_all add: open_inbox_def being_closed_def closed_inbox_def)
qed

lemma inbox_inv_good: "inbox_inv s \<Longrightarrow> inbox_good s"
  using close_inv_counts[of s] by (auto simp: inbox_inv_def inbox_good_def serve_inv_def delay_ok_def)

interpretation inbox: safe_system inbox_init inbox_step inbox_inv inbox_good
  by unfold_locales (rule inbox_inv_init inbox_inv_step inbox_inv_good; assumption)+

section \<open>What an inbox promises\<close>

text \<open>
  The contract, without mutex, back-off or program counters: connections are handled while
  the listener is open and the loop runs; an inbox is marked closed once; the listener goes
  away once and the loop returns once, both only on a marked inbox.
\<close>

record inbox_spec =
  sp_marked :: bool
  sp_listening :: bool
  sp_handled :: nat
  sp_ended :: bool

inductive spec_step :: "inbox_spec \<Rightarrow> inbox_spec \<Rightarrow> bool" where
  spec_handle: "sp_listening s \<Longrightarrow> \<not> sp_ended s \<Longrightarrow> spec_step s (s\<lparr>sp_handled := Suc (sp_handled s)\<rparr>)"
| spec_mark: "\<not> sp_marked s \<Longrightarrow> spec_step s (s\<lparr>sp_marked := True\<rparr>)"
| spec_unlisten: "sp_marked s \<Longrightarrow> sp_listening s \<Longrightarrow> spec_step s (s\<lparr>sp_listening := False\<rparr>)"
| spec_end: "sp_marked s \<Longrightarrow> \<not> sp_ended s \<Longrightarrow> spec_step s (s\<lparr>sp_ended := True\<rparr>)"

definition spec_init :: "inbox_spec \<Rightarrow> bool" where
  "spec_init s \<longleftrightarrow> \<not> sp_marked s \<and> sp_listening s \<and> \<not> sp_ended s"

definition inbox_abs :: "inbox_state \<Rightarrow> inbox_spec" where
  "inbox_abs s = \<lparr>sp_marked = i_closed s, sp_listening = i_listening s, sp_handled = i_handled s,
     sp_ended = (i_spc s = SStopped)\<rparr>"

inductive_simps spec_step_simps: "spec_step s s'"

lemma inbox_abs_serve:
  assumes "inbox_inv s" "serve_step s s'"
  shows "inbox_abs s' = inbox_abs s \<or> spec_step (inbox_abs s) (inbox_abs s')"
  using assms(2)
proof (cases rule: serve_step.cases)
  case serve_accept
  then show ?thesis by (simp add: inbox_abs_def spec_step_simps)
next
  case serve_return
  with assms(1) show ?thesis by (simp add: inbox_abs_def spec_step_simps inbox_inv_def serve_inv_def)
qed (simp_all add: inbox_abs_def)

lemma inbox_abs_close:
  assumes "inbox_inv s" "close_step t s s'"
  shows "inbox_abs s' = inbox_abs s \<or> spec_step (inbox_abs s) (inbox_abs s')"
  using assms(2)
proof (cases rule: close_step.cases)
  case close_mark
  then show ?thesis by (simp add: inbox_abs_def spec_step_simps)
next
  case close_listener
  then have "being_closed s t"
    using assms(1) closing_being_closed by (simp add: inbox_inv_def closing_def)
  with close_listener show ?thesis by (simp add: inbox_abs_def spec_step_simps being_closed_def)
qed (simp_all add: inbox_abs_def)

interpretation contract: refinement_map inbox_init inbox_step inbox_inv inbox_abs spec_init spec_step
proof
  show "spec_init (inbox_abs s)" if "inbox_init s" for s
    using that by (simp add: inbox_init_def spec_init_def inbox_abs_def)
  show "inbox_abs s' = inbox_abs s \<or> spec_step (inbox_abs s) (inbox_abs s')"
    if "inbox_inv s" "inbox_step s s'" for s s'
    using that inbox_abs_serve inbox_abs_close unfolding inbox_step_def by blast
qed

section \<open>The accept loop after a close\<close>

text \<open>
  Once the listener is closed, each of the loop's steps brings it nearer to its return; a
  read of the flag that came before the mark costs one more round.
\<close>

fun remaining :: "serve_pc \<Rightarrow> nat" where
  "remaining (SRead False) = 9"
| "remaining (SChecked False) = 8"
| "remaining SSleeping = 7"
| "remaining SAccept = 6"
| "remaining SFailed = 5"
| "remaining SHolding = 4"
| "remaining (SRead True) = 3"
| "remaining (SChecked True) = 2"
| "remaining SStopped = 0"

lemma serve_remaining:
  "serve_step s s' \<Longrightarrow> i_closed s \<Longrightarrow> \<not> i_listening s \<Longrightarrow> remaining (i_spc s') < remaining (i_spc s)"
proof (induction rule: serve_step.induct)
  case (serve_unlock s c)
  then show ?case by (cases c) simp_all
qed simp_all

lemma close_keeps_spc: "close_step t s s' \<Longrightarrow> i_spc s' = i_spc s"
  by (induction rule: close_step.induct) simp_all

text \<open>Nobody is stuck: the loop can step unless it waits for a mutex whose holder can.\<close>

lemma holder_steps: "holds s (Closer t) \<Longrightarrow> \<exists>s'. close_step t s s'"
  by (cases "i_closed s") (auto intro: close_step.intros)

lemma server_holds: "i_spc s = SFailed \<Longrightarrow> \<not> holds s Server"
  by simp

lemma serve_progress:
  assumes "i_spc s \<noteq> SStopped" "i_mu s = None \<or> i_spc s \<noteq> SFailed"
  shows "\<exists>s'. serve_step s s'"
proof (cases "i_spc s")
  case (SChecked c)
  then show ?thesis by (cases c) (auto intro: serve_step.intros)
qed (use assms in \<open>auto intro: serve_step.intros\<close>)

lemma inbox_progress:
  assumes "mutex_inv s" "i_spc s \<noteq> SStopped"
  shows "(\<exists>s'. serve_step s s') \<or> (\<exists>t s'. i_mu s = Some (Closer t) \<and> close_step t s s')"
proof (cases "i_mu s = None \<or> i_spc s \<noteq> SFailed")
  case True
  with serve_progress[OF assms(2)] show ?thesis by blast
next
  case False
  then obtain h where h: "i_mu s = Some h" "i_spc s = SFailed" by auto
  with assms(1) have "holds s h" by (simp add: mutex_inv_def)
  with h server_holds obtain t where "h = Closer t" by (cases h) auto
  with \<open>holds s h\<close> holder_steps h(1) show ?thesis by blast
qed

section \<open>The back-off\<close>

lemma next_delay_min: "0 < d \<Longrightarrow> next_delay d = min (2 * d) Second"
  by (simp add: next_delay_def Let_def min_def)

lemma next_delay_iter: "(next_delay ^^ Suc k) 0 = min (5 * 2 ^ k * Millisecond) Second"
proof (induction k)
  case 0
  then show ?case by (simp add: next_delay_def Millisecond_def Second_def)
next
  case (Suc k)
  define d where "d = 5 * 2 ^ k * Millisecond"
  have d: "0 < d" "0 < Second" by (simp_all add: d_def Millisecond_def Second_def)
  have "(next_delay ^^ Suc (Suc k)) 0 = next_delay ((next_delay ^^ Suc k) 0)"
    by (simp only: funpow.simps comp_apply)
  also have "\<dots> = next_delay (min d Second)" by (simp only: Suc d_def)
  also have "\<dots> = min (2 * min d Second) Second" using d by (intro next_delay_min) simp
  also have "\<dots> = min (2 * d) Second" using d by (simp add: min_def)
  finally show ?case by (simp add: d_def)
qed

section \<open>Properties\<close>

text \<open>
  Property C7: however many goroutines call \<^verbatim>\<open>Close\<close>, in any interleaving with the accept
  loop, the listener is closed at most once and \<^verbatim>\<open>os.Remove\<close> called at most once, after it; nothing is accepted on a closed listener, and the accept loop only returns on an inbox
  that is being closed.
\<close>

theorem close_happens_once:
  assumes "reachable inbox_init inbox_step s"
  shows "i_closes s \<le> 1 \<and> i_removes s \<le> i_closes s \<and> (i_listening s \<longleftrightarrow> i_closes s = 0) \<and>
    (i_closes s = 1 \<longrightarrow> i_closed s) \<and> (i_spc s = SStopped \<longrightarrow> i_closed s)"
  using inbox.good_reachable[OF assms] by (simp add: inbox_good_def)

text \<open>
  Property C8: the goroutines of an inbox implement its contract: any run of the accept loop
  and any number of \<^verbatim>\<open>Close\<close> calls, from any reachable state, shows nothing but steps of the
  contract, and what it shows in the end is where the contract ends.
\<close>

theorem inbox_refines_contract:
  assumes "reachable inbox_init inbox_step s" "run_steps inbox_step s ss"
  shows "reachable spec_init spec_step (inbox_abs s) \<and>
    run_steps spec_step (inbox_abs s) (visible (inbox_abs s) (map inbox_abs ss)) \<and>
    last (inbox_abs s # visible (inbox_abs s) (map inbox_abs ss)) = inbox_abs (last (s # ss))"
proof -
  have "last (inbox_abs s # map inbox_abs ss) = inbox_abs (last (s # ss))"
    by (cases ss rule: rev_cases) simp_all
  then show ?thesis
    using contract.abs_reachable [OF assms(1)] contract.abs_run [OF assms] by (simp only: last_visible)
qed

text \<open>
  Property C24: the accept loop ends after a close: in every reachable state with the
  listener closed, each of its steps lowers a bound on the steps it has left, the closing
  goroutines do not touch it, and until it has returned it can step or waits for a goroutine
  that can.
\<close>

theorem accept_loop_ends:
  assumes "reachable inbox_init inbox_step s" "\<not> i_listening s"
  shows "(\<forall>s'. serve_step s s' \<longrightarrow> remaining (i_spc s') < remaining (i_spc s)) \<and>
    (\<forall>t s'. close_step t s s' \<longrightarrow> i_spc s' = i_spc s) \<and>
    (i_spc s \<noteq> SStopped \<longrightarrow>
       (\<exists>s'. serve_step s s') \<or> (\<exists>t s'. i_mu s = Some (Closer t) \<and> close_step t s s'))"
proof -
  have i: "inbox_inv s" using assms(1) by (rule inbox.inv_reachable)
  with inbox_inv_good[OF i] assms(2) have "i_closed s" by (auto simp: inbox_good_def)
  with assms(2) i show ?thesis
    using serve_remaining[of s] close_keeps_spc[of _ s] inbox_progress[of s] by (auto simp: inbox_inv_def)
qed

text \<open>
  The back-off after the k-th failure in a row is 5 ms doubled each time, capped
  at a second, so it never overflows and a lasting failure is retried about once a second;
  in every reachable state a sleeping loop sleeps between 5 ms and a second.
\<close>

theorem backoff_schedule:
  "(next_delay ^^ Suc k) 0 = min (5 * 2 ^ k * Millisecond) Second \<and>
   (\<forall>s \<in> {s. reachable inbox_init inbox_step s \<and> i_spc s = SSleeping}.
      5 * Millisecond \<le> i_delay s \<and> i_delay s \<le> Second)"
  using next_delay_iter[of k] inbox.good_reachable by (auto simp: inbox_good_def)

end
