(* ===== verification/Addr.thy ===== *)
theory Addr
  imports World
begin

text \<open>
  \<^verbatim>\<open>addr.go\<close>: rendering a socket path as a \<^verbatim>\<open>uds:\<close> address, reading one back, and
  the address of the session the process runs under.  Also the receiver-side check
  \<^verbatim>\<open>validAddress\<close> of \<^verbatim>\<open>message.go\<close>, which is the same syntax read from the other
  end.  The lemmas show that the escaping is a faithful, injective encoding of every byte
  string and that what \<^verbatim>\<open>Address\<close> writes always passes \<^verbatim>\<open>validAddress\<close>.
\<close>

section \<open>Escaping\<close>

definition addrSafe :: "char \<Rightarrow> bool" where
  "addrSafe b \<longleftrightarrow>
     (CHR ''A'' \<le> b \<and> b \<le> CHR ''Z'') \<or> (CHR ''a'' \<le> b \<and> b \<le> CHR ''z'') \<or>
     (CHR ''0'' \<le> b \<and> b \<le> CHR ''9'') \<or>
     b = CHR '':'' \<or> b = CHR ''_'' \<or> b = CHR ''/'' \<or> b = CHR ''.'' \<or> b = CHR 0x5C \<or> b = CHR ''-''"

text \<open>\<^verbatim>\<open>fmt.Fprintf(&b, "%%%02X", c)\<close>.\<close>

definition percent_hex :: "char \<Rightarrow> gostring" where
  "percent_hex c = [CHR ''%'', hex_upper (code_of c div 16), hex_upper (code_of c mod 16)]"

fun escape_bytes :: "gostring \<Rightarrow> gostring" where
  "escape_bytes [] = []"
| "escape_bytes (c # s) = (if addrSafe c then [c] else percent_hex c) @ escape_bytes s"

definition Address :: "gostring \<Rightarrow> gostring" where
  "Address socketPath = ''uds:'' @ escape_bytes socketPath"

section \<open>Unescaping\<close>

definition unhex :: "char \<Rightarrow> byte \<times> bool" where
  "unhex c =
     (if CHR ''0'' \<le> c \<and> c \<le> CHR ''9'' then (byte_of c - 48, True)
      else if CHR ''a'' \<le> c \<and> c \<le> CHR ''f'' then (byte_of c - 97 + 10, True)
      else if CHR ''A'' \<le> c \<and> c \<le> CHR ''F'' then (byte_of c - 65 + 10, True)
      else (0, False))"

text \<open>The loop of \<^verbatim>\<open>percentDecode\<close>; \<open>i + 2 < len(s)\<close> says that two more bytes follow.\<close>

fun percent_loop :: "gostring \<Rightarrow> gostring" where
  "percent_loop [] = []"
| "percent_loop [c] = [c]"
| "percent_loop [c, d] = [c, d]"
| "percent_loop (c # h # l # s) =
     (if c = CHR ''%'' \<and> snd (unhex h) \<and> snd (unhex l)
      then char_of_byte (push_bit 4 (fst (unhex h)) OR fst (unhex l)) # percent_loop s
      else c # percent_loop (h # l # s))"

definition percentDecode :: "gostring \<Rightarrow> gostring" where
  "percentDecode s = (if \<not> Contains s ''%'' then s else percent_loop s)"

definition ParseAddress :: "gostring \<Rightarrow> gostring result" where
  "ParseAddress addr =
     (if HasPrefix addr ''uds:'' then Inr (percentDecode (drop (length ''uds:'') addr))
      else if HasPrefix addr ''/'' then Inr addr
      else Inl (NotUdsAddress addr))"

text \<open>
  The loop of \<^verbatim>\<open>validAddress\<close> (\<^verbatim>\<open>message.go\<close>): a byte is safe, or a percent sign
  with two hex digits after it.
\<close>

fun valid_tail :: "gostring \<Rightarrow> bool" where
  "valid_tail [] = True"
| "valid_tail (b # s) =
     (if addrSafe b then valid_tail s
      else if b \<noteq> CHR ''%'' then False
      else (case s of
              h # l # s' \<Rightarrow> snd (unhex h) \<and> snd (unhex l) \<and> valid_tail s'
            | _ \<Rightarrow> False))"

definition validAddress :: "gostring \<Rightarrow> bool" where
  "validAddress addr \<longleftrightarrow>
     HasPrefix addr ''uds:'' \<and> valid_tail (drop (length ''uds:'') addr)"

section \<open>The surrounding session\<close>

definition SelfSocketPath :: "world \<Rightarrow> gostring" where
  "SelfSocketPath w = Getenv w ''CLAUDE_CODE_MESSAGING_SOCKET''"

definition SelfToken :: "world \<Rightarrow> gostring" where
  "SelfToken w = Getenv w ''CLAUDE_CODE_MESSAGING_TOKEN''"

definition SelfAddress :: "world \<Rightarrow> gostring" where
  "SelfAddress w = (if SelfSocketPath w = [] then [] else Address (SelfSocketPath w))"

section \<open>Lemmas\<close>

lemma percent_not_safe [simp]: "\<not> addrSafe (CHR ''%'')"
  by (simp add: addrSafe_def)

lemma hex_upper_unhex_table:
  "list_all (\<lambda>d. unhex (hex_upper d) = (of_nat d, True)) [0..<16]"
  by code_simp

lemma unhex_hex_upper: "d < 16 \<Longrightarrow> unhex (hex_upper d) = (of_nat d, True)"
  using hex_upper_unhex_table by (simp add: list_all_iff)

lemma nibbles_table:
  "list_all (\<lambda>n. push_bit 4 (of_nat (n div 16) :: byte) OR of_nat (n mod 16) = of_nat n) [0..<256]"
  by code_simp

lemma join_nibbles:
  "n < 256 \<Longrightarrow> push_bit 4 (of_nat (n div 16) :: byte) OR of_nat (n mod 16) = of_nat n"
  using nibbles_table by (simp add: list_all_iff)

lemma percent_loop_hex: "percent_loop (percent_hex c @ s) = c # percent_loop s"
proof -
  have n: "code_of c div 16 < 16" "code_of c mod 16 < 16"
    using code_of_less_256[of c] by (simp_all add: less_mult_imp_div_less)
  have "push_bit 4 (of_nat (code_of c div 16) :: byte) OR of_nat (code_of c mod 16) = of_nat (code_of c)"
    by (rule join_nibbles) simp
  with n show ?thesis
    by (simp add: percent_hex_def unhex_hex_upper unat_of_nat)
qed

lemma percent_loop_skip: "c \<noteq> CHR ''%'' \<Longrightarrow> percent_loop (c # s) = c # percent_loop s"
  by (cases s; cases "tl s") auto

lemma percent_loop_escape: "percent_loop (escape_bytes p) = p"
proof (induction p)
  case (Cons c p)
  show ?case
  proof (cases "addrSafe c")
    case True
    then have "c \<noteq> CHR ''%''" by auto
    with True Cons show ?thesis by (simp add: percent_loop_skip)
  next
    case False
    with Cons show ?thesis by (simp add: percent_loop_hex)
  qed
qed simp

lemma Contains_single: "Contains s [c] \<longleftrightarrow> c \<in> set s"
  by (induction s) auto

lemma percentDecode_loop: "percentDecode s = percent_loop s"
proof -
  have "percent_loop s = s" if "CHR ''%'' \<notin> set s"
    using that by (induction s rule: percent_loop.induct) auto
  then show ?thesis by (simp add: percentDecode_def Contains_single)
qed

lemma percentDecode_escape: "percentDecode (escape_bytes p) = p"
  by (simp add: percentDecode_loop percent_loop_escape)

lemma valid_tail_escape: "valid_tail (escape_bytes p)"
proof (induction p)
  case (Cons c p)
  have "code_of c div 16 < 16" "code_of c mod 16 < 16"
    using code_of_less_256[of c] by (simp_all add: less_mult_imp_div_less)
  with Cons show ?case by (simp add: percent_hex_def unhex_hex_upper)
qed simp

text \<open>Address rendering is a codec for all byte strings, checked by the receiver.\<close>

interpretation addr: checked_codec Address ParseAddress "\<lambda>_. True" validAddress
proof
  show "ParseAddress (Address x) = Inr x" for x
    by (simp add: ParseAddress_def Address_def percentDecode_escape)
  show "validAddress (Address x)" for x
    by (simp add: validAddress_def Address_def valid_tail_escape)
qed

text \<open>The bytes of a valid address: safe bytes and percent signs only.\<close>

lemma unhex_ok_safe: "snd (unhex c) \<Longrightarrow> addrSafe c"
  by (auto simp: unhex_def addrSafe_def char_le_code_of split: if_splits)

lemma valid_tail_bytes: "valid_tail s \<Longrightarrow> c \<in> set s \<Longrightarrow> addrSafe c \<or> c = CHR ''%''"
  by (induction s rule: valid_tail.induct)
    (auto split: if_splits list.splits dest: unhex_ok_safe)

lemma validAddress_bytes:
  assumes "validAddress a" "c \<in> set a"
  shows "addrSafe c \<or> c = CHR ''%''"
proof -
  define t where "t = drop (length ''uds:'') a"
  from assms have p: "HasPrefix a ''uds:''" and t: "valid_tail t"
    by (simp_all only: validAddress_def t_def)
  have a: "a = ''uds:'' @ t" unfolding t_def by (rule HasPrefixE[OF p])
  show ?thesis
  proof (cases "c \<in> set t")
    case True
    with valid_tail_bytes[OF t] show ?thesis by blast
  next
    case False
    with assms(2) have "c \<in> set ''uds:''" unfolding a by simp
    moreover have "list_all addrSafe ''uds:''" by (simp add: addrSafe_def)
    ultimately show ?thesis by (simp only: list_all_iff) blast
  qed
qed

lemma length_escape_bytes: "length (escape_bytes p) \<le> 3 * length p"
  by (induction p) (auto simp: percent_hex_def)

section \<open>Properties\<close>

text \<open>
  Property C13: escaping a socket path into a \<^verbatim>\<open>uds:\<close> address loses nothing: parsing the
  address gives back the path, for every byte string, whatever bytes it holds.
\<close>

theorem address_roundtrip: "ParseAddress (Address p) = Inr p"
  by (rule addr.dec_enc) simp

text \<open>
  Two different socket paths never render to the same address, and every
  rendered address passes the well-formedness check a send applies to its return address.
\<close>

theorem address_faithful:
  "validAddress (Address p) \<and> (Address p = Address q \<longleftrightarrow> p = q)"
  using addr.enc_inj[of p q] addr.wf_enc[of p] by simp

text \<open>
  A well-formed address always parses, and rendering the parsed path again is
  well-formed and denotes the same path, so \<^verbatim>\<open>--from\<close> in the command-line tool, which
  parses and re-renders, accepts every address the library accepts without changing its
  meaning.
\<close>

theorem validAddress_parses:
  assumes "validAddress a"
  shows "\<exists>p. ParseAddress a = Inr p \<and> validAddress (Address p) \<and> ParseAddress (Address p) = ParseAddress a"
proof -
  from assms have "ParseAddress a = Inr (percentDecode (drop (length ''uds:'') a))"
    by (simp add: ParseAddress_def validAddress_def)
  then show ?thesis using addr.accepted_and_decoded by auto
qed

theorem validAddress_parses_witness:
  "\<exists>p. ParseAddress ''uds:/tmp/cc%20socks/9.sock'' = Inr p \<and> validAddress (Address p)
     \<and> ParseAddress (Address p) = ParseAddress ''uds:/tmp/cc%20socks/9.sock''"
proof -
  have "validAddress ''uds:/tmp/cc%20socks/9.sock''"
    by (simp add: validAddress_def addrSafe_def unhex_def)
  then show ?thesis by (rule validAddress_parses)
qed

end
