(* ===== verification/Utf8.thy ===== *)
theory Utf8
  imports Prelude
begin

text \<open>
  Go's \<^verbatim>\<open>unicode/utf8\<close>: decoding a string into runes the way a \<^verbatim>\<open>range\<close> loop does
  (an invalid byte decodes to U+FFFD with width 1), encoding a rune, and the parts of
  \<^verbatim>\<open>unicode\<close> and \<^verbatim>\<open>strings\<close> that depend on runes: \<^verbatim>\<open>unicode.IsControl\<close>,
  \<^verbatim>\<open>strings.Map\<close>, \<^verbatim>\<open>strings.TrimSpace\<close>.  The lemmas show that decoding inverts encoding
  and that re-encoding the decoded runes of a valid string gives it back.
\<close>

section \<open>Decoding and encoding\<close>

type_synonym rune = nat

definition RuneError :: rune where
  "RuneError = 0xFFFD"

definition is_cont :: "char \<Rightarrow> bool" where
  "is_cont c \<longleftrightarrow> 0x80 \<le> code_of c \<and> code_of c \<le> 0xBF"

text \<open>
  \<^verbatim>\<open>utf8.RuneStart\<close>: the byte is not a continuation byte
  (\<^verbatim>\<open>b & 0xC0 != 0x80\<close>).
\<close>

definition RuneStart :: "char \<Rightarrow> bool" where
  "RuneStart c \<longleftrightarrow> byte_of c AND 0xC0 \<noteq> 0x80"

text \<open>The range \<^verbatim>\<open>utf8\<close>'s table accepts for the second byte, by first byte.\<close>

definition second_ok :: "nat \<Rightarrow> char \<Rightarrow> bool" where
  "second_ok b0 c \<longleftrightarrow>
     (if b0 = 0xE0 then 0xA0 else if b0 = 0xF0 then 0x90 else 0x80) \<le> code_of c \<and>
     code_of c \<le> (if b0 = 0xED then 0x9F else if b0 = 0xF4 then 0x8F else 0xBF)"

definition rune2 :: "char \<Rightarrow> char \<Rightarrow> rune" where
  "rune2 c0 c1 = (code_of c0 mod 32) * 64 + code_of c1 mod 64"

definition rune3 :: "char \<Rightarrow> char \<Rightarrow> char \<Rightarrow> rune" where
  "rune3 c0 c1 c2 = (code_of c0 mod 16) * 4096 + (code_of c1 mod 64) * 64 + code_of c2 mod 64"

definition rune4 :: "char \<Rightarrow> char \<Rightarrow> char \<Rightarrow> char \<Rightarrow> rune" where
  "rune4 c0 c1 c2 c3 = (code_of c0 mod 8) * 262144 + (code_of c1 mod 64) * 4096
     + (code_of c2 mod 64) * 64 + code_of c3 mod 64"

text \<open>\<^verbatim>\<open>utf8.DecodeRuneInString\<close>: the first rune and its width.\<close>

fun decode_rune :: "gostring \<Rightarrow> rune \<times> nat" where
  "decode_rune [] = (RuneError, 0)"
| "decode_rune (c0 # s) =
     (let b0 = code_of c0 in
      if b0 < 0x80 then (b0, 1)
      else if 0xC2 \<le> b0 \<and> b0 \<le> 0xDF then
        (case s of
           c1 # _ \<Rightarrow> if second_ok b0 c1 then (rune2 c0 c1, 2) else (RuneError, 1)
         | _ \<Rightarrow> (RuneError, 1))
      else if 0xE0 \<le> b0 \<and> b0 \<le> 0xEF then
        (case s of
           c1 # c2 # _ \<Rightarrow>
             if second_ok b0 c1 \<and> is_cont c2 then (rune3 c0 c1 c2, 3) else (RuneError, 1)
         | _ \<Rightarrow> (RuneError, 1))
      else if 0xF0 \<le> b0 \<and> b0 \<le> 0xF4 then
        (case s of
           c1 # c2 # c3 # _ \<Rightarrow>
             if second_ok b0 c1 \<and> is_cont c2 \<and> is_cont c3 then (rune4 c0 c1 c2 c3, 4)
             else (RuneError, 1)
         | _ \<Rightarrow> (RuneError, 1))
      else (RuneError, 1))"

declare decode_rune.simps(2) [simp del]

text \<open>The runes a \<^verbatim>\<open>range\<close> loop visits.\<close>

fun runes :: "gostring \<Rightarrow> rune list" where
  "runes [] = []"
| "runes (c # s) =
     (case decode_rune (c # s) of (r, n) \<Rightarrow> r # runes (drop (n - 1) s))"

definition valid_rune :: "rune \<Rightarrow> bool" where
  "valid_rune r \<longleftrightarrow> r < 0xD800 \<or> (0xE000 \<le> r \<and> r \<le> 0x10FFFF)"

text \<open>\<^verbatim>\<open>utf8.AppendRune\<close>: an invalid rune is written as U+FFFD.\<close>

definition encode_valid :: "rune \<Rightarrow> gostring" where
  "encode_valid r =
     (if r < 0x80 then [char_of r]
      else if r < 0x800 then [char_of (0xC0 + r div 64), char_of (0x80 + r mod 64)]
      else if r < 0x10000 then
        [char_of (0xE0 + r div 4096), char_of (0x80 + r div 64 mod 64), char_of (0x80 + r mod 64)]
      else
        [char_of (0xF0 + r div 262144), char_of (0x80 + r div 4096 mod 64),
         char_of (0x80 + r div 64 mod 64), char_of (0x80 + r mod 64)])"

definition encode_rune :: "rune \<Rightarrow> gostring" where
  "encode_rune r = encode_valid (if valid_rune r then r else RuneError)"

definition encode_runes :: "rune list \<Rightarrow> gostring" where
  "encode_runes rs = concat (map encode_rune rs)"

text \<open>\<^verbatim>\<open>utf8.ValidString\<close>.\<close>

fun ValidString :: "gostring \<Rightarrow> bool" where
  "ValidString [] \<longleftrightarrow> True"
| "ValidString (c # s) \<longleftrightarrow>
     (case decode_rune (c # s) of (r, n) \<Rightarrow>
        \<not> (r = RuneError \<and> n = 1) \<and> ValidString (drop (n - 1) s))"

section \<open>Decoding inverts encoding\<close>

lemma second_ok_bounds: "second_ok b c \<Longrightarrow> 0x80 \<le> code_of c \<and> code_of c \<le> 0xBF"
  by (auto simp: second_ok_def split: if_splits)

lemma code_char_of [simp]: "n < 256 \<Longrightarrow> code_of (char_of (n :: nat)) = n"
  by simp

lemma div_4096: "(r :: nat) div 4096 = r div 64 div 64"
  by (simp add: div_mult2_eq)

lemma div_262144: "(r :: nat) div 262144 = r div 64 div 64 div 64"
  by (simp add: div_mult2_eq)

lemma mod_lead: "(a :: nat) < m \<Longrightarrow> (k * m + a) mod m = a"
  by simp

lemma div_tail: "(x :: nat) < 64 \<Longrightarrow> (k * 64 + x) div 64 = k"
  by simp

lemma mod_tail: "(x :: nat) < 64 \<Longrightarrow> (k * 64 + x) mod 64 = x"
  by simp

lemma decode_encode_2:
  assumes "0x80 \<le> r" "r < 0x800"
  shows "decode_rune (encode_valid r @ s) = (r, 2)"
proof -
  define q where "q = r div 64"
  have d: "2 \<le> q" "q < 32" using assms by (simp_all add: q_def)
  have lead: "(192 + q) mod 32 = q"
    using mod_lead[of q 32 6] d by simp
  have c0: "code_of (char_of (192 + q)) = 192 + q" using d by simp
  have c1: "code_of (char_of (128 + r mod 64)) = 128 + r mod 64" by simp
  have tail: "(128 + r mod 64) mod 64 = r mod 64"
    using mod_lead[of "r mod 64" 64 2] by simp
  have r: "q * 64 + r mod 64 = r" by (simp add: q_def)
  have "decode_rune (char_of (192 + q) # char_of (128 + r mod 64) # s) = (r, 2)"
    using d by (simp add: decode_rune.simps(2) Let_def second_ok_def rune2_def c0 c1 lead tail r
        del: of_char_of)
  then show ?thesis using assms by (simp add: encode_valid_def q_def)
qed

lemma decode_encode_3:
  assumes "0x800 \<le> r" "r < 0x10000" "valid_rune r"
  shows "decode_rune (encode_valid r @ s) = (r, 3)"
proof -
  define q where "q = r div 64"
  define p where "p = q div 64"
  have d: "p < 16" "32 \<le> q" using assms by (simp_all add: p_def q_def)
  have r: "p * 4096 + q mod 64 * 64 + r mod 64 = r"
  proof -
    have "q * 64 + r mod 64 = r" "p * 64 + q mod 64 = q" by (simp_all add: q_def p_def)
    then show ?thesis by linarith
  qed
  have lo: "0xA0 \<le> 128 + q mod 64" if "p = 0"
    using that d by (simp add: p_def)
  have hi: "128 + q mod 64 \<le> 0x9F" if "p = 13"
  proof (rule ccontr)
    assume "\<not> 128 + q mod 64 \<le> 0x9F"
    then have "32 \<le> q mod 64" by simp
    moreover have "q mod 64 \<le> 63" "r mod 64 \<le> 63"
      using mod_less_divisor[of 64 q] mod_less_divisor[of 64 r] by linarith+
    ultimately have "0xD800 \<le> r" "r < 0xE000" using r that by linarith+
    with assms(3) show False by (simp add: valid_rune_def)
  qed
  have lead: "(224 + p) mod 16 = p" using mod_lead[of p 16 14] d by simp
  have t1: "(128 + q mod 64) mod 64 = q mod 64" using mod_lead[of "q mod 64" 64 2] by simp
  have t2: "(128 + r mod 64) mod 64 = r mod 64" using mod_lead[of "r mod 64" 64 2] by simp
  have c: "code_of (char_of (224 + p)) = 224 + p" "code_of (char_of (128 + q mod 64)) = 128 + q mod 64"
    "code_of (char_of (128 + r mod 64)) = 128 + r mod 64"
    using d by simp_all
  have ok: "second_ok (224 + p) (char_of (128 + q mod 64))"
    using lo hi d by (auto simp: second_ok_def c simp del: of_char_of)
  have ok2: "is_cont (char_of (128 + r mod 64))" by (simp add: is_cont_def c del: of_char_of)
  have "decode_rune (char_of (224 + p) # char_of (128 + q mod 64) # char_of (128 + r mod 64) # s) = (r, 3)"
    using d by (simp add: decode_rune.simps(2) Let_def c ok ok2 rune3_def lead t1 t2 r del: of_char_of)
  then show ?thesis using assms by (simp add: encode_valid_def div_4096 q_def p_def)
qed

lemma decode_encode_4:
  assumes "0x10000 \<le> r" "r \<le> 0x10FFFF"
  shows "decode_rune (encode_valid r @ s) = (r, 4)"
proof -
  define q where "q = r div 64"
  define p where "p = q div 64"
  define h where "h = p div 64"
  have r: "h * 262144 + p mod 64 * 4096 + q mod 64 * 64 + r mod 64 = r"
  proof -
    have "q * 64 + r mod 64 = r" "p * 64 + q mod 64 = q" "h * 64 + p mod 64 = p"
      by (simp_all add: q_def p_def h_def)
    then show ?thesis by linarith
  qed
  have d: "h \<le> 4" "16 \<le> p" using assms by (simp_all add: h_def p_def q_def)
  have lo: "0x90 \<le> 128 + p mod 64" if "h = 0"
    using that d by (simp add: h_def)
  have hi: "128 + p mod 64 \<le> 0x8F" if "h = 4"
  proof (rule ccontr)
    assume "\<not> 128 + p mod 64 \<le> 0x8F"
    with r that have "0x110000 \<le> r" by linarith
    with assms(2) show False by simp
  qed
  have lead: "(240 + h) mod 8 = h" using mod_lead[of h 8 30] d by simp
  have t1: "(128 + p mod 64) mod 64 = p mod 64" using mod_lead[of "p mod 64" 64 2] by simp
  have t2: "(128 + q mod 64) mod 64 = q mod 64" using mod_lead[of "q mod 64" 64 2] by simp
  have t3: "(128 + r mod 64) mod 64 = r mod 64" using mod_lead[of "r mod 64" 64 2] by simp
  have c: "code_of (char_of (240 + h)) = 240 + h" "code_of (char_of (128 + p mod 64)) = 128 + p mod 64"
    "code_of (char_of (128 + q mod 64)) = 128 + q mod 64" "code_of (char_of (128 + r mod 64)) = 128 + r mod 64"
    using d by simp_all
  have ok: "second_ok (240 + h) (char_of (128 + p mod 64))"
    using lo hi d by (auto simp: second_ok_def c simp del: of_char_of)
  have ok2: "is_cont (char_of (128 + q mod 64))" "is_cont (char_of (128 + r mod 64))"
    by (simp_all add: is_cont_def c del: of_char_of)
  have "decode_rune (char_of (240 + h) # char_of (128 + p mod 64) # char_of (128 + q mod 64)
      # char_of (128 + r mod 64) # s) = (r, 4)"
    using d by (simp add: decode_rune.simps(2) Let_def c ok ok2 rune4_def lead t1 t2 t3 r del: of_char_of)
  then show ?thesis
    using assms by (simp add: encode_valid_def div_4096 div_262144 q_def p_def h_def)
qed

lemma decode_encode_1: "r < 0x80 \<Longrightarrow> decode_rune (encode_valid r @ s) = (r, 1)"
  by (simp add: encode_valid_def decode_rune.simps)

lemma length_encode_valid:
  "length (encode_valid r) = (if r < 0x80 then 1 else if r < 0x800 then 2 else if r < 0x10000 then 3 else 4)"
  by (simp add: encode_valid_def)

lemma valid_RuneError [simp]: "valid_rune RuneError"
  by (simp add: valid_rune_def RuneError_def)

theorem decode_encode_rune:
  "valid_rune r \<Longrightarrow> decode_rune (encode_rune r @ s) = (r, length (encode_rune r))"
  using decode_encode_1[of r s] decode_encode_2[of r s] decode_encode_3[of r s] decode_encode_4[of r s]
  by (auto simp: encode_rune_def length_encode_valid valid_rune_def)

lemma encode_rune_not_Nil [simp]: "encode_rune r \<noteq> []"
  by (simp add: encode_rune_def encode_valid_def)

lemma runes_encode_rune_append:
  assumes "valid_rune r"
  shows "runes (encode_rune r @ s) = r # runes s"
proof -
  obtain c t where e: "encode_rune r = c # t" by (cases "encode_rune r") auto
  from decode_encode_rune[OF assms, of s] have "decode_rune (c # t @ s) = (r, Suc (length t))"
    by (simp add: e)
  then show ?thesis by (simp add: e)
qed

theorem runes_encode_runes:
  "list_all valid_rune rs \<Longrightarrow> runes (encode_runes rs) = rs"
  by (induction rs) (auto simp: encode_runes_def runes_encode_rune_append)

lemma ValidString_encode_rune_append:
  assumes "valid_rune r"
  shows "ValidString (encode_rune r @ s) \<longleftrightarrow> ValidString s"
proof -
  obtain c t where e: "encode_rune r = c # t" by (cases "encode_rune r") auto
  from decode_encode_rune[OF assms, of s] have d: "decode_rune (c # t @ s) = (r, Suc (length t))"
    by (simp add: e)
  have "t \<noteq> []" if "r = RuneError"
    using that e by (auto simp: encode_rune_def encode_valid_def RuneError_def valid_rune_def)
  then show ?thesis by (auto simp: e d)
qed

lemma encode_rune_RuneError_subst: "encode_rune (if valid_rune r then r else RuneError) = encode_rune r"
  by (simp add: encode_rune_def)

lemma ValidString_encode_runes [simp]: "ValidString (encode_runes rs)"
proof (induction rs)
  case (Cons r rs)
  have "ValidString (encode_rune (if valid_rune r then r else RuneError) @ encode_runes rs)"
    using Cons by (subst ValidString_encode_rune_append) auto
  then show ?case by (simp add: encode_runes_def encode_rune_RuneError_subst)
qed (simp add: encode_runes_def)

section \<open>Encoding inverts decoding\<close>

lemma encode_rune2:
  assumes "0xC2 \<le> code_of c0" "code_of c0 \<le> 0xDF" "0x80 \<le> code_of c1" "code_of c1 \<le> 0xBF"
  shows "encode_rune (rune2 c0 c1) = [c0, c1]" "valid_rune (rune2 c0 c1)"
proof -
  define a where "a = code_of c0 - 192"
  define x where "x = code_of c1 - 128"
  have b: "code_of c0 = 192 + a" "code_of c1 = 128 + x" "2 \<le> a" "a < 32" "x < 64"
    using assms by (simp_all add: a_def x_def)
  have r: "rune2 c0 c1 = a * 64 + x"
    using mod_lead[of a 32 6] mod_lead[of x 64 2] b by (simp add: rune2_def)
  have q: "(a * 64 + x) div 64 = a" "(a * 64 + x) mod 64 = x" using b by (simp_all only: div_tail mod_tail)
  have chars: "char_of (192 + a) = c0" "char_of (128 + x) = c1"
    by (simp_all add: b(1,2) [symmetric])
  have range: "128 \<le> a * 64 + x" "a * 64 + x < 2048" using b by linarith+
  show "valid_rune (rune2 c0 c1)" using range by (simp add: r valid_rune_def)
  moreover have "encode_valid (a * 64 + x) = [c0, c1]"
    using range unfolding encode_valid_def q chars by auto
  ultimately show "encode_rune (rune2 c0 c1) = [c0, c1]"
    by (simp only: encode_rune_def r if_True)
qed

lemma encode_rune3:
  assumes "0xE0 \<le> code_of c0" "code_of c0 \<le> 0xEF" "second_ok (code_of c0) c1" "is_cont c2"
  shows "encode_rune (rune3 c0 c1 c2) = [c0, c1, c2]" "valid_rune (rune3 c0 c1 c2)"
proof -
  define a where "a = code_of c0 - 224"
  define x where "x = code_of c1 - 128"
  define y where "y = code_of c2 - 128"
  have b: "code_of c0 = 224 + a" "code_of c1 = 128 + x" "code_of c2 = 128 + y"
    "a < 16" "x < 64" "y < 64"
    using assms second_ok_bounds[OF assms(3)] by (auto simp: a_def x_def y_def is_cont_def)
  have r: "rune3 c0 c1 c2 = (a * 64 + x) * 64 + y"
    using mod_lead[of a 16 14] mod_lead[of x 64 2] mod_lead[of y 64 2] b by (simp add: rune3_def)
  have q: "((a * 64 + x) * 64 + y) div 64 = a * 64 + x" "((a * 64 + x) * 64 + y) mod 64 = y"
    "(a * 64 + x) div 64 = a" "(a * 64 + x) mod 64 = x" using b by (simp_all only: div_tail mod_tail)
  have chars: "char_of (224 + a) = c0" "char_of (128 + x) = c1" "char_of (128 + y) = c2"
    by (simp_all add: b(1,2,3) [symmetric])
  have lo: "32 \<le> x" if "a = 0" using assms(3) that b by (simp add: second_ok_def)
  have hi: "x < 32" if "a = 13" using assms(3) that b by (simp add: second_ok_def)
  have range: "2048 \<le> (a * 64 + x) * 64 + y" "(a * 64 + x) * 64 + y < 65536"
    using b lo by (cases "a = 0"; simp; linarith)+
  have lin: "(a * 64 + x) * 64 + y = a * 4096 + x * 64 + y" by simp
  have "(a * 64 + x) * 64 + y < 0xD800 \<or> 0xE000 \<le> (a * 64 + x) * 64 + y"
  proof (cases a "13 :: nat" rule: linorder_cases)
    case less
    then have "a \<le> 12" by simp
    then have "(a * 64 + x) * 64 + y < 0xD800" using b lin by linarith
    then show ?thesis ..
  next
    case equal
    with hi b have "(a * 64 + x) * 64 + y < 0xD800" by simp
    then show ?thesis ..
  next
    case greater
    then have "14 \<le> a" by simp
    then have "0xE000 \<le> (a * 64 + x) * 64 + y" using lin by linarith
    then show ?thesis ..
  qed
  with range show v: "valid_rune (rune3 c0 c1 c2)" by (auto simp: r valid_rune_def)
  have "encode_valid ((a * 64 + x) * 64 + y) = [c0, c1, c2]"
    using range unfolding encode_valid_def div_4096 q chars by auto
  with v show "encode_rune (rune3 c0 c1 c2) = [c0, c1, c2]"
    by (simp only: encode_rune_def r if_True)
qed

lemma encode_rune4:
  assumes "0xF0 \<le> code_of c0" "code_of c0 \<le> 0xF4" "second_ok (code_of c0) c1" "is_cont c2" "is_cont c3"
  shows "encode_rune (rune4 c0 c1 c2 c3) = [c0, c1, c2, c3]" "valid_rune (rune4 c0 c1 c2 c3)"
proof -
  define a where "a = code_of c0 - 240"
  define x where "x = code_of c1 - 128"
  define y where "y = code_of c2 - 128"
  define z where "z = code_of c3 - 128"
  have b: "code_of c0 = 240 + a" "code_of c1 = 128 + x" "code_of c2 = 128 + y" "code_of c3 = 128 + z"
    "a \<le> 4" "x < 64" "y < 64" "z < 64"
    using assms second_ok_bounds[OF assms(3)] by (auto simp: a_def x_def y_def z_def is_cont_def)
  have r: "rune4 c0 c1 c2 c3 = ((a * 64 + x) * 64 + y) * 64 + z"
    using mod_lead[of a 8 30] mod_lead[of x 64 2] mod_lead[of y 64 2] mod_lead[of z 64 2] b
    by (simp add: rune4_def)
  have q: "(((a * 64 + x) * 64 + y) * 64 + z) div 64 = (a * 64 + x) * 64 + y"
    "(((a * 64 + x) * 64 + y) * 64 + z) mod 64 = z"
    "((a * 64 + x) * 64 + y) div 64 = a * 64 + x" "((a * 64 + x) * 64 + y) mod 64 = y"
    "(a * 64 + x) div 64 = a" "(a * 64 + x) mod 64 = x" using b by (simp_all only: div_tail mod_tail)
  have chars: "char_of (240 + a) = c0" "char_of (128 + x) = c1" "char_of (128 + y) = c2" "char_of (128 + z) = c3"
    by (simp_all add: b(1,2,3,4) [symmetric])
  have lo: "16 \<le> x" if "a = 0" using assms(3) that b by (simp add: second_ok_def)
  have hi: "x < 16" if "a = 4" using assms(3) that b by (simp add: second_ok_def)
  have l: "65536 \<le> ((a * 64 + x) * 64 + y) * 64 + z"
    using b lo by (cases "a = 0"; simp; linarith)
  have u: "((a * 64 + x) * 64 + y) * 64 + z \<le> 0x10FFFF"
    using b hi by (cases "a = 4"; simp; linarith)
  from l u show v: "valid_rune (rune4 c0 c1 c2 c3)" by (simp add: r valid_rune_def)
  have "encode_valid (((a * 64 + x) * 64 + y) * 64 + z) = [c0, c1, c2, c3]"
    using l unfolding encode_valid_def div_4096 div_262144 q chars by auto
  with v show "encode_rune (rune4 c0 c1 c2 c3) = [c0, c1, c2, c3]"
    by (simp only: encode_rune_def r if_True)
qed

text \<open>
  Every decoding step either reports an invalid byte or has read exactly the encoding of
  the rune it returns.
\<close>

lemma decode_rune_cases:
  assumes "decode_rune (c # s) = (r, n)"
  shows "(r = RuneError \<and> n = 1) \<or> (valid_rune r \<and> n = length (encode_rune r) \<and> c # s = encode_rune r @ drop n (c # s))"
proof -
  let ?b = "code_of c"
  consider "?b < 0x80" | "0xC2 \<le> ?b" "?b \<le> 0xDF" | "0xE0 \<le> ?b" "?b \<le> 0xEF" | "0xF0 \<le> ?b" "?b \<le> 0xF4"
    | "0x80 \<le> ?b" "?b < 0xC2 \<or> 0xF4 < ?b"
    by linarith
  then show ?thesis
  proof cases
    case 1
    then show ?thesis using assms
      by (auto simp: decode_rune.simps(2) encode_rune_def encode_valid_def valid_rune_def)
  next
    case 2
    then show ?thesis using assms encode_rune2[of c] second_ok_bounds
      by (auto simp: decode_rune.simps(2) split: list.splits if_splits)
  next
    case 3
    then show ?thesis using assms encode_rune3[of c]
      by (auto simp: decode_rune.simps(2) split: list.splits if_splits)
  next
    case 4
    then show ?thesis using assms encode_rune4[of c]
      by (auto simp: decode_rune.simps(2) split: list.splits if_splits)
  next
    case 5
    then show ?thesis using assms by (auto simp: decode_rune.simps(2) split: if_splits)
  qed
qed

lemma decode_rune_width:
  assumes "decode_rune (c # s) = (r, n)"
  shows "1 \<le> n" "n \<le> length (c # s)" "valid_rune r"
proof -
  from decode_rune_cases[OF assms] have "1 \<le> n \<and> n \<le> length (c # s) \<and> valid_rune r"
  proof
    assume "valid_rune r \<and> n = length (encode_rune r) \<and> c # s = encode_rune r @ drop n (c # s)"
    moreover from this have "length (c # s) = n + length (drop n (c # s))"
      by (metis length_append)
    ultimately show ?thesis using encode_rune_not_Nil[of r] by (cases "encode_rune r") auto
  qed simp
  then show "1 \<le> n" "n \<le> length (c # s)" "valid_rune r" by simp_all
qed

lemma drop_tail_conv: "1 \<le> n \<Longrightarrow> drop (n - 1) s = drop n (c # s)"
  by (cases n) auto

lemma runes_valid [simp]: "list_all valid_rune (runes s)"
proof (induction s rule: runes.induct)
  case (2 c s)
  obtain r n where d: "decode_rune (c # s) = (r, n)" by force
  with 2 decode_rune_width[OF d] show ?case by simp
qed simp

theorem encode_runes_runes: "ValidString s \<Longrightarrow> encode_runes (runes s) = s"
proof (induction s rule: runes.induct)
  case (2 c s)
  obtain r n where d: "decode_rune (c # s) = (r, n)" by force
  with 2 have ih: "encode_runes (runes (drop (n - 1) s)) = drop (n - 1) s" by simp
  from 2(2) d have "\<not> (r = RuneError \<and> n = 1)" by auto
  with decode_rune_cases[OF d] have e: "c # s = encode_rune r @ drop n (c # s)" by blast
  have "drop (n - 1) s = drop n (c # s)"
    using decode_rune_width(1)[OF d] by (rule drop_tail_conv)
  with e ih d show ?case by (simp add: encode_runes_def)
qed (simp add: encode_runes_def)

lemma ValidString_obtain:
  assumes "ValidString s"
  obtains rs where "list_all valid_rune rs" "s = encode_runes rs"
  using encode_runes_runes[OF assms] runes_valid[of s] by metis

lemma encode_runes_Nil [simp]: "encode_runes [] = []"
  by (simp add: encode_runes_def)

lemma encode_runes_Cons [simp]: "encode_runes (r # rs) = encode_rune r @ encode_runes rs"
  by (simp add: encode_runes_def)

lemma encode_runes_append [simp]: "encode_runes (as @ bs) = encode_runes as @ encode_runes bs"
  by (simp add: encode_runes_def)

lemma encode_runes_eq_Nil [simp]: "encode_runes rs = [] \<longleftrightarrow> rs = []"
  by (cases rs) auto

section \<open>Rune boundaries\<close>

lemma RuneStart_table:
  "list_all (\<lambda>n. (of_nat n AND (0xC0 :: byte) \<noteq> 0x80) \<longleftrightarrow> \<not> (0x80 \<le> n \<and> n \<le> 0xBF)) [0..<256]"
  by code_simp

lemma RuneStart_iff: "RuneStart c \<longleftrightarrow> \<not> is_cont c"
proof -
  have "code_of c \<in> set [0..<256]" by simp
  with RuneStart_table have "(of_nat (code_of c) AND (0xC0 :: byte) \<noteq> 0x80) \<longleftrightarrow> \<not> (0x80 \<le> code_of c \<and> code_of c \<le> 0xBF)"
    unfolding list_all_iff by blast
  then show ?thesis by (simp add: RuneStart_def is_cont_def of_nat_of_char)
qed

lemma encode_valid_shape:
  assumes "r \<le> 0x10FFFF"
  obtains c t where "encode_valid r = c # t" "RuneStart c" "list_all is_cont t"
proof -
  have "r div 262144 \<le> 4" using div_le_mono[OF assms, of 262144] by simp
  moreover have "r div 4096 < 16" if "r < 65536" using that by (simp add: less_mult_imp_div_less)
  moreover have "r div 64 < 32" if "r < 2048" using that by (simp add: less_mult_imp_div_less)
  moreover have "k mod 64 \<le> 63" for k :: nat using mod_less_divisor[of 64 k] by linarith
  ultimately have "RuneStart (hd (encode_valid r)) \<and> list_all is_cont (tl (encode_valid r))"
    by (auto simp: encode_valid_def RuneStart_iff is_cont_def)
  then show thesis
    using that[of "hd (encode_valid r)" "tl (encode_valid r)"] by (simp add: encode_valid_def split: if_splits)
qed

lemma encode_rune_shape:
  obtains c t where "encode_rune r = c # t" "RuneStart c" "list_all is_cont t"
proof -
  have "(if valid_rune r then r else RuneError) \<le> 0x10FFFF"
    by (auto simp: valid_rune_def RuneError_def)
  from encode_valid_shape[OF this] that show thesis unfolding encode_rune_def by metis
qed

text \<open>
  A position of a valid string that does not hold a continuation byte is a rune boundary:
  cutting there yields the encoding of the first runes.
\<close>

lemma take_boundary:
  assumes "list_all valid_rune rs" "k < length (encode_runes rs)" "RuneStart (encode_runes rs ! k)"
  shows "\<exists>m. take k (encode_runes rs) = encode_runes (take m rs)"
  using assms
proof (induction rs arbitrary: k)
  case (Cons r rs)
  obtain c t where e: "encode_rune r = c # t" "list_all is_cont t"
    by (rule encode_rune_shape[of r]) auto
  show ?case
  proof (cases "k < length (encode_rune r)")
    case True
    have "k = 0"
    proof (rule ccontr)
      assume "k \<noteq> 0"
      with True e have "(c # t) ! k \<in> set t" by (cases k) auto
      with e have "is_cont ((c # t) ! k)" by (auto simp: list_all_iff)
      with Cons.prems(3) True e show False
        by (simp add: RuneStart_iff nth_append del: append_Cons)
    qed
    then have "take k (encode_runes (r # rs)) = encode_runes (take 0 (r # rs))" by simp
    then show ?thesis ..
  next
    case False
    define j where "j = k - length (encode_rune r)"
    from False have k: "k = length (encode_rune r) + j" by (simp add: j_def)
    with Cons.prems have "j < length (encode_runes rs)" "RuneStart (encode_runes rs ! j)"
      by (simp_all add: nth_append)
    with Cons obtain m where "take j (encode_runes rs) = encode_runes (take m rs)" by auto
    then have "take k (encode_runes (r # rs)) = encode_runes (take (Suc m) (r # rs))"
      by (simp add: k)
    then show ?thesis ..
  qed
qed simp

section \<open>Character classes, \<^verbatim>\<open>strings.Map\<close> and \<^verbatim>\<open>strings.TrimSpace\<close>\<close>

text \<open>\<^verbatim>\<open>unicode.IsControl\<close>: category Cc.\<close>

definition IsControl :: "rune \<Rightarrow> bool" where
  "IsControl r \<longleftrightarrow> r < 0x20 \<or> (0x7F \<le> r \<and> r \<le> 0x9F)"

text \<open>\<^verbatim>\<open>unicode.IsSpace\<close>: the runes with property White\_Space.\<close>

definition IsSpace :: "rune \<Rightarrow> bool" where
  "IsSpace r \<longleftrightarrow> (9 \<le> r \<and> r \<le> 13) \<or> r = 32 \<or> r = 0x85 \<or> r = 0xA0 \<or> r = 0x1680
     \<or> (0x2000 \<le> r \<and> r \<le> 0x200A) \<or> r = 0x2028 \<or> r = 0x2029 \<or> r = 0x202F
     \<or> r = 0x205F \<or> r = 0x3000"

text \<open>\<^verbatim>\<open>strings.Map\<close> with a mapping that keeps or drops a rune.\<close>

definition map_keep :: "(rune \<Rightarrow> bool) \<Rightarrow> gostring \<Rightarrow> gostring" where
  "map_keep keep s = encode_runes (filter keep (runes s))"

text \<open>\<^verbatim>\<open>utf8.DecodeLastRuneInString\<close>.\<close>

definition decode_last_rune :: "gostring \<Rightarrow> rune \<times> nat" where
  "decode_last_rune s =
     (if s = [] then (RuneError, 0)
      else if code_of (last s) < 0x80 then (code_of (last s), 1)
      else (case find (\<lambda>k. RuneStart (s ! (length s - k))) [2..<Suc (min 4 (length s))] of
              None \<Rightarrow> (RuneError, 1)
            | Some k \<Rightarrow> (case decode_rune (drop (length s - k) s) of
                (r, n) \<Rightarrow> if n = k then (r, n) else (RuneError, 1))))"

function trim_left :: "gostring \<Rightarrow> gostring" where
  "trim_left s =
     (case decode_rune s of (r, n) \<Rightarrow>
        if s \<noteq> [] \<and> 1 \<le> n \<and> IsSpace r then trim_left (drop n s) else s)"
  by pat_completeness auto
termination
  by (relation "measure length") auto

function trim_right :: "gostring \<Rightarrow> gostring" where
  "trim_right s =
     (case decode_last_rune s of (r, n) \<Rightarrow>
        if s \<noteq> [] \<and> 1 \<le> n \<and> IsSpace r then trim_right (take (length s - n) s) else s)"
  by pat_completeness auto
termination
  by (relation "measure length") auto

declare trim_left.simps [simp del] trim_right.simps [simp del]

definition TrimSpace :: "gostring \<Rightarrow> gostring" where
  "TrimSpace s = trim_right (trim_left s)"

definition trim_runes :: "rune list \<Rightarrow> rune list" where
  "trim_runes rs = rev (dropWhile IsSpace (rev (dropWhile IsSpace rs)))"

lemma trim_left_encode:
  "list_all valid_rune rs \<Longrightarrow> trim_left (encode_runes rs) = encode_runes (dropWhile IsSpace rs)"
proof (induction rs)
  case (Cons r rs)
  then have d: "decode_rune (encode_runes (r # rs)) = (r, length (encode_rune r))"
    by (simp add: decode_encode_rune)
  have "1 \<le> length (encode_rune r)" by (cases "encode_rune r") auto
  with Cons d show ?case
    by (simp add: trim_left.simps[of "encode_runes (r # rs)"] del: encode_runes_Cons)
      simp
qed (simp add: trim_left.simps)

lemma decode_last_encode:
  assumes "valid_rune r"
  shows "decode_last_rune (a @ encode_rune r) = (r, length (encode_rune r))"
proof -
  obtain c t where e: "encode_rune r = c # t" "RuneStart c" "list_all is_cont t"
    by (rule encode_rune_shape)
  show ?thesis
  proof (cases t rule: rev_cases)
    case Nil
    with e have "encode_rune r = [c]" by simp
    then have "r < 0x80 \<and> c = char_of r"
      using assms by (auto simp: encode_rune_def encode_valid_def split: if_splits)
    with e Nil show ?thesis by (simp add: decode_last_rune_def)
  next
    case (snoc u d)
    define m where "m = length (encode_rune r)"
    have len: "m = Suc (Suc (length u))" "m \<le> 4"
      using e snoc length_encode_valid[of r] assms by (auto simp: m_def encode_rune_def split: if_splits)
    have d: "is_cont d" using e snoc by simp
    define s where "s = a @ encode_rune r"
    have at: "s ! (length s - k) = (c # t) ! (m - k)" if "1 \<le> k" "k \<le> m" for k
      using that by (simp add: s_def m_def nth_append e(1) [symmetric]) linarith
    have before: "\<not> RuneStart (s ! (length s - k))" if "2 \<le> k" "k < m" for k
    proof -
      from that e m_def have "(c # t) ! (m - k) \<in> set t" by (cases "m - k") auto
      with e that at[of k] show ?thesis by (auto simp: list_all_iff RuneStart_iff)
    qed
    have start: "RuneStart (s ! (length s - m))" using at[of m] e len by simp
    have range: "[2..<Suc (min 4 (length s))] = [2..<m] @ m # [Suc m..<Suc (min 4 (length s))]"
    proof -
      have "m \<le> length s" by (simp add: s_def m_def)
      with len show ?thesis
        by (metis Suc_le_mono le_add_diff_inverse min.bounded_iff numeral_2_eq_2 upt_add_eq_append
            upt_conv_Cons le_SucI less_Suc_eq_le Suc_leI le0)
    qed
    have "find (\<lambda>k. RuneStart (s ! (length s - k))) [2..<m] = None"
      using before by (auto simp: find_None_iff)
    then have found: "find (\<lambda>k. RuneStart (s ! (length s - k))) [2..<Suc (min 4 (length s))] = Some m"
      unfolding range using start by (auto simp: find_append)
    have dec: "decode_rune (drop (length s - m) s) = (r, m)"
      using decode_encode_rune[OF assms, of "[]"] by (simp add: s_def m_def)
    have nonempty: "s \<noteq> []" by (simp add: s_def)
    have "last s = d" using e snoc by (simp add: s_def)
    with d have ascii: "\<not> code_of (last s) < 0x80" by (simp add: is_cont_def)
    have "decode_last_rune s = (r, m)"
      unfolding decode_last_rune_def found using nonempty ascii dec by simp
    then show ?thesis by (simp add: s_def m_def)
  qed
qed

lemma trim_right_encode:
  "list_all valid_rune rs \<Longrightarrow>
     trim_right (encode_runes rs) = encode_runes (rev (dropWhile IsSpace (rev rs)))"
proof (induction rs rule: rev_induct)
  case (snoc r rs)
  then have d: "decode_last_rune (encode_runes (rs @ [r])) = (r, length (encode_rune r))"
    by (simp add: decode_last_encode)
  have "1 \<le> length (encode_rune r)" by (cases "encode_rune r") auto
  with snoc d show ?case
    by (simp add: trim_right.simps[of "encode_runes (rs @ [r])"] del: encode_runes_append)
      simp
qed (simp add: trim_right.simps)

lemma list_all_dropWhile: "list_all P xs \<Longrightarrow> list_all P (dropWhile Q xs)"
  by (auto simp: list_all_iff dest: set_dropWhileD)

theorem TrimSpace_encode:
  "list_all valid_rune rs \<Longrightarrow> TrimSpace (encode_runes rs) = encode_runes (trim_runes rs)"
  by (simp add: TrimSpace_def trim_runes_def trim_left_encode trim_right_encode list_all_dropWhile)

lemma set_trim_runes: "set (trim_runes rs) \<subseteq> set rs"
  unfolding trim_runes_def by (auto dest!: set_dropWhileD)

end
