(* ===== verification/Message.thy ===== *)
theory Message
  imports Addr Utf8
begin

text \<open>
  \<^verbatim>\<open>message.go\<close>: building the wire frame of a message from what the caller gave.  The
  definitions follow the file: priorities, the frame records, \<^verbatim>\<open>Message.frame\<close> with its
  checks in order, the attribution envelope with the sender-name sanitizer and the body
  escaping, and the message id.  The lemmas show what reaches the wire: the sanitizer's
  output is clean, bounded, valid UTF-8 and stable; the envelope has one closing tag and
  one header; the id is a version 4 UUID.
\<close>

section \<open>Frames\<close>

type_synonym Priority = gostring

definition PriorityNext :: Priority where "PriorityNext = ''next''"
definition PriorityLater :: Priority where "PriorityLater = ''later''"
definition PriorityNow :: Priority where "PriorityNow = ''now''"

definition protocolVersion :: int where "protocolVersion = 1"

record message =
  m_Text :: gostring
  m_Priority :: Priority
  m_SessionID :: gostring
  m_From :: gostring
  m_FromName :: gostring
  m_MsgID :: gostring
  m_UUID :: gostring

record framePayload =
  fp_Role :: gostring
  fp_Content :: gostring

record userFrame =
  uf_MsgV :: int
  uf_MsgID :: gostring
  uf_Type :: gostring
  uf_Message :: framePayload
  uf_Priority :: Priority
  uf_From :: gostring
  uf_SessionID :: gostring
  uf_UUID :: gostring

record controlFrame =
  cf_MsgV :: int
  cf_MsgID :: gostring
  cf_Type :: gostring
  cf_Action :: gostring
  cf_Name :: gostring
  cf_SessionID :: gostring

record authFrame =
  af_Type :: gostring
  af_Token :: gostring

section \<open>Quoting\<close>

text \<open>
  \<^verbatim>\<open>strconv.IsPrint\<close>: ASCII and Latin-1 directly, everything else from the table.
\<close>

definition IsPrint :: "world \<Rightarrow> rune \<Rightarrow> bool" where
  "IsPrint w r =
     (if r \<le> 0xFF then (0x20 \<le> r \<and> r < 0x7F) \<or> (0xA1 \<le> r \<and> r \<noteq> 0xAD)
      else print_table w r)"

fun lower_hex_digits :: "nat \<Rightarrow> nat \<Rightarrow> gostring" where
  "lower_hex_digits 0 n = []"
| "lower_hex_digits (Suc k) n = lower_hex_digits k (n div 16) @ [hex_lower (n mod 16)]"

definition escaped_rune :: "world \<Rightarrow> rune \<Rightarrow> gostring" where
  "escaped_rune w r =
     (if r = 0x22 \<or> r = 0x5C then [CHR 0x5C, char_of r]
      else if IsPrint w r then encode_rune r
      else if r = 7 then [CHR 0x5C, CHR ''a'']
      else if r = 8 then [CHR 0x5C, CHR ''b'']
      else if r = 12 then [CHR 0x5C, CHR ''f'']
      else if r = 10 then [CHR 0x5C, CHR ''n'']
      else if r = 13 then [CHR 0x5C, CHR ''r'']
      else if r = 9 then [CHR 0x5C, CHR ''t'']
      else if r = 11 then [CHR 0x5C, CHR ''v'']
      else if r < 0x20 \<or> r = 0x7F then [CHR 0x5C, CHR ''x''] @ lower_hex_digits 2 r
      else if r < 0x10000 then [CHR 0x5C, CHR ''u''] @ lower_hex_digits 4 r
      else [CHR 0x5C, CHR ''U''] @ lower_hex_digits 8 r)"

text \<open>The body of \<^verbatim>\<open>strconv.Quote\<close>, which is what \<^verbatim>\<open>%q\<close> prints for a string.\<close>

fun quote_body :: "world \<Rightarrow> gostring \<Rightarrow> gostring" where
  "quote_body w [] = []"
| "quote_body w (c # s) =
     (case decode_rune (c # s) of (r, n) \<Rightarrow>
        (if n = 1 \<and> r = RuneError then [CHR 0x5C, CHR ''x''] @ lower_hex_digits 2 (code_of c)
         else escaped_rune w r) @ quote_body w (drop (n - 1) s))"

definition quote :: "world \<Rightarrow> gostring \<Rightarrow> gostring" where
  "quote w s = [CHR 0x22] @ quote_body w s @ [CHR 0x22]"

section \<open>The attribution envelope\<close>

definition envelopeTag :: gostring where
  "envelopeTag = ''cross-session-message''"

text \<open>The class \<^verbatim>\<open>["<>\n\r]\<close> of \<^verbatim>\<open>fromNameRe\<close>.\<close>

definition fromNameRe :: "char \<Rightarrow> bool" where
  "fromNameRe c \<longleftrightarrow> c \<in> {CHR 0x22, CHR ''<'', CHR ''>'', CHR 0x0A, CHR 0x0D}"

definition maxFromName :: nat where "maxFromName = 200"

text \<open>\<^verbatim>\<open>for cut > 0 && !utf8.RuneStart(name[cut]) { cut-- }\<close>.\<close>

fun cut_back :: "gostring \<Rightarrow> nat \<Rightarrow> nat" where
  "cut_back name 0 = 0"
| "cut_back name (Suc k) = (if \<not> RuneStart (name ! Suc k) then cut_back name k else Suc k)"

definition sanitizeName :: "gostring \<Rightarrow> gostring" where
  "sanitizeName name0 =
     (let name1 = filter (\<lambda>c. \<not> fromNameRe c) name0;
          name2 = map_keep (\<lambda>r. \<not> IsControl r) name1;
          name = TrimSpace name2
      in if maxFromName < length name
         then TrimSpace (take (cut_back name maxFromName) name)
         else name)"

definition escapeBody :: "gostring \<Rightarrow> gostring" where
  "escapeBody body = ReplaceAll body (''</'' @ envelopeTag) ([CHR ''<'', CHR 0x5C, CHR ''/''] @ envelopeTag)"

definition attrs :: "world \<Rightarrow> gostring \<Rightarrow> gostring \<Rightarrow> gostring" where
  "attrs w from name =
     (if from \<noteq> [] then '' from='' @ quote w from else []) @
     (if sanitizeName name \<noteq> [] then '' from-name='' @ quote w (sanitizeName name) else [])"

definition wrapEnvelope :: "world \<Rightarrow> gostring \<Rightarrow> gostring \<Rightarrow> gostring \<Rightarrow> gostring" where
  "wrapEnvelope w from name body =
     ''<'' @ envelopeTag @ attrs w from name @ [CHR ''>'', CHR 0x0A] @ escapeBody body
       @ [CHR 0x0A, CHR ''<'', CHR ''/''] @ envelopeTag @ ''>''"

section \<open>Message ids\<close>

text \<open>
  \<^verbatim>\<open>newUUID\<close> on the 16 bytes \<^verbatim>\<open>rand.Read\<close> delivered, or on its error.
\<close>

definition uuid_bytes :: "byte list \<Rightarrow> byte list" where
  "uuid_bytes b =
     (let b' = b[6 := (b ! 6 AND 0x0F) OR 0x40]
      in b'[8 := (b' ! 8 AND 0x3F) OR 0x80])"

definition newUUID :: "oserror + byte list \<Rightarrow> gostring result" where
  "newUUID rnd =
     (case rnd of
        Inl e \<Rightarrow> Inl (RandFailed e)
      | Inr b \<Rightarrow>
          (let h = EncodeToString (uuid_bytes b) in
           Inr (take 8 h @ ''-'' @ take 4 (drop 8 h) @ ''-'' @ take 4 (drop 12 h) @ ''-''
                @ take 4 (drop 16 h) @ ''-'' @ take 12 (drop 20 h))))"

section \<open>\<^verbatim>\<open>Message.frame\<close>\<close>

definition effective_priority :: "Priority \<Rightarrow> Priority result" where
  "effective_priority p =
     (if p = [] then Inr PriorityNext
      else if p = PriorityNow \<or> p = PriorityNext \<or> p = PriorityLater then Inr p
      else Inl (UnknownPriority p))"

definition frame :: "world \<Rightarrow> oserror + byte list \<Rightarrow> message \<Rightarrow> userFrame result" where
  "frame w rnd m =
     and_then (ensure (m_Text m \<noteq> []) EmptyText) (\<lambda>_.
     and_then (effective_priority (m_Priority m)) (\<lambda>priority.
     and_then (ensure (\<not> (m_From m \<noteq> [] \<and> \<not> validAddress (m_From m))) (MalformedFrom (m_From m))) (\<lambda>_.
     and_then (if m_MsgID m = [] then newUUID rnd else Inr (m_MsgID m)) (\<lambda>msgID.
       Inr \<lparr> uf_MsgV = protocolVersion,
             uf_MsgID = msgID,
             uf_Type = ''user'',
             uf_Message = \<lparr> fp_Role = ''user'',
                fp_Content = (if m_FromName m \<noteq> []
                              then wrapEnvelope w (m_From m) (m_FromName m) (m_Text m)
                              else m_Text m) \<rparr>,
             uf_Priority = priority,
             uf_From = m_From m,
             uf_SessionID = m_SessionID m,
             uf_UUID = m_UUID m \<rparr>))))"

section \<open>The sanitizer\<close>

text \<open>What a sanitized name is made of, rune by rune.\<close>

definition clean_runes :: "rune list \<Rightarrow> bool" where
  "clean_runes rs \<longleftrightarrow> list_all (\<lambda>r. valid_rune r \<and> \<not> IsControl r \<and> r \<notin> {0x22, 0x3C, 0x3E}) rs"

lemma ascii_in_encode_rune:
  assumes "c \<in> set (encode_rune r)" "code_of c < 0x80"
  shows "valid_rune r \<and> r = code_of c"
proof -
  have "encode_rune r = encode_valid (if valid_rune r then r else RuneError)"
    by (rule encode_rune_def)
  moreover have "r' < 0x80 \<and> c = char_of r'" if a: "c \<in> set (encode_valid r')" and b: "r' \<le> 0x10FFFF" for r'
  proof -
    obtain d t where e: "encode_valid r' = d # t" "RuneStart d" "list_all is_cont t"
      by (rule encode_valid_shape[OF b])
    have "c = d"
      using a e(1,3) assms(2) by (auto simp: list_all_iff is_cont_def)
    with e(1) assms(2) b show ?thesis
      by (auto simp: encode_valid_def split: if_splits)
  qed
  moreover have "(if valid_rune r then r else RuneError) \<le> 0x10FFFF"
    by (auto simp: valid_rune_def RuneError_def)
  ultimately have "(if valid_rune r then r else RuneError) < 0x80 \<and> c = char_of (if valid_rune r then r else RuneError)"
    using assms(1) by metis
  then show ?thesis by (auto simp: RuneError_def split: if_splits)
qed

lemma ascii_rune_in_runes:
  assumes "r \<in> set (runes s)" "r < 0x80"
  shows "char_of r \<in> set s"
  using assms
proof (induction s rule: runes.induct)
  case (2 c s)
  obtain r' n where d: "decode_rune (c # s) = (r', n)" by force
  show ?case
  proof (cases "r = r'")
    case True
    from decode_rune_cases[OF d] show ?thesis
    proof
      assume "r' = RuneError \<and> n = 1"
      with True 2(3) show ?thesis by (simp add: RuneError_def)
    next
      assume a: "valid_rune r' \<and> n = length (encode_rune r') \<and> c # s = encode_rune r' @ drop n (c # s)"
      from True 2(3) a have "encode_rune r' = [char_of r]"
        by (simp add: encode_rune_def encode_valid_def)
      with a show ?thesis by simp
    qed
  next
    case False
    with 2(2) d have "r \<in> set (runes (drop (n - 1) s))" by simp
    with 2 d have "char_of r \<in> set (drop (n - 1) s)" by simp
    then show ?thesis by (auto dest: in_set_dropD)
  qed
qed simp

lemma clean_runes_filter:
  "clean_runes (filter (\<lambda>r. \<not> IsControl r) (runes (filter (\<lambda>c. \<not> fromNameRe c) s)))"
proof -
  let ?f = "filter (\<lambda>c. \<not> fromNameRe c) s"
  have "r \<notin> {0x22, 0x3C, 0x3E}" if "r \<in> set (runes ?f)" for r
  proof
    assume "r \<in> {0x22, 0x3C, 0x3E}"
    then have "r < 0x80" and bad: "fromNameRe (char_of r)" by (auto simp: fromNameRe_def char_of_eq_iff)
    from ascii_rune_in_runes[OF that this(1)] bad show False by simp
  qed
  with runes_valid[of ?f] show ?thesis by (auto simp: clean_runes_def list_all_iff)
qed

lemma clean_runes_subset: "clean_runes rs \<Longrightarrow> set rs' \<subseteq> set rs \<Longrightarrow> clean_runes rs'"
  by (auto simp: clean_runes_def list_all_iff)

lemma clean_runes_valid: "clean_runes rs \<Longrightarrow> list_all valid_rune rs"
  by (auto simp: clean_runes_def list_all_iff)

lemma clean_runes_bytes:
  assumes "clean_runes rs" "c \<in> set (encode_runes rs)"
  shows "\<not> fromNameRe c"
proof
  assume "fromNameRe c"
  then have lt: "code_of c < 0x80" and cs: "code_of c \<in> {0x22, 0x3C, 0x3E, 0x0A, 0x0D}"
    by (auto simp: fromNameRe_def)
  from assms(2) obtain r where "r \<in> set rs" "c \<in> set (encode_rune r)"
    by (auto simp: encode_runes_def)
  with ascii_in_encode_rune[OF _ lt] assms(1) cs show False
    by (auto simp: clean_runes_def list_all_iff IsControl_def)
qed

lemma dropWhile_idle: "dropWhile P (dropWhile P xs) = dropWhile P xs"
  by (induction xs) auto

lemma hd_rev_dropWhile_rev:
  "rev (dropWhile P (rev xs)) = y # ys \<Longrightarrow> \<exists>zs. xs = y # zs"
proof -
  assume a: "rev (dropWhile P (rev xs)) = y # ys"
  have "rev xs = takeWhile P (rev xs) @ dropWhile P (rev xs)" by simp
  then have "xs = rev (dropWhile P (rev xs)) @ rev (takeWhile P (rev xs))"
    by (metis rev_append rev_rev_ident)
  with a show ?thesis by auto
qed

lemma trim_runes_idem: "trim_runes (trim_runes rs) = trim_runes rs"
proof -
  define xs where "xs = dropWhile IsSpace rs"
  define ys where "ys = trim_runes rs"
  have ys: "ys = rev (dropWhile IsSpace (rev xs))" by (simp add: ys_def xs_def trim_runes_def)
  have "dropWhile IsSpace ys = ys"
  proof (cases ys)
    case (Cons y zs)
    with ys hd_rev_dropWhile_rev obtain us where "xs = y # us" by metis
    then have "\<not> IsSpace y" unfolding xs_def by (metis hd_dropWhile list.sel(1) list.discI)
    with Cons show ?thesis by simp
  qed simp
  moreover have "dropWhile IsSpace (rev ys) = rev ys"
    by (simp add: ys dropWhile_idle)
  ultimately show ?thesis by (simp add: trim_runes_def [of ys] flip: ys_def)
qed

lemma cut_back_le: "cut_back s k \<le> k"
  by (induction s k rule: cut_back.induct) auto

lemma cut_back_boundary: "cut_back s k = 0 \<or> RuneStart (s ! cut_back s k)"
  by (induction s k rule: cut_back.induct) auto

lemma take_cut_back:
  assumes "list_all valid_rune rs" "k < length (encode_runes rs)"
  shows "\<exists>m. take (cut_back (encode_runes rs) k) (encode_runes rs) = encode_runes (take m rs)"
proof (cases "cut_back (encode_runes rs) k = 0")
  case True
  then have "take (cut_back (encode_runes rs) k) (encode_runes rs) = encode_runes (take 0 rs)" by simp
  then show ?thesis ..
next
  case False
  with cut_back_boundary[of "encode_runes rs" k] have "RuneStart (encode_runes rs ! cut_back (encode_runes rs) k)" by blast
  moreover have "cut_back (encode_runes rs) k < length (encode_runes rs)"
    using cut_back_le[of "encode_runes rs" k] assms(2) by simp
  ultimately show ?thesis by (intro take_boundary assms(1))
qed

lemma length_encode_trim: "length (encode_runes (trim_runes rs)) \<le> length (encode_runes rs)"
proof -
  have a: "length (encode_runes (dropWhile P xs)) \<le> length (encode_runes xs)" for P xs
    by (induction xs) auto
  have r: "length (encode_runes (rev xs)) = length (encode_runes xs)" for xs
    by (induction xs) auto
  have "length (encode_runes (trim_runes rs)) \<le> length (encode_runes (rev (dropWhile IsSpace rs)))"
    unfolding trim_runes_def by (metis a r)
  also have "\<dots> \<le> length (encode_runes rs)" by (simp add: r a)
  finally show ?thesis .
qed

text \<open>
  The shape of a sanitized name: the encoding of clean, trimmed runes, at most
  \<open>maxFromName\<close> bytes.
\<close>

lemma sanitizeName_runes:
  obtains rs where "clean_runes rs" "sanitizeName s = encode_runes rs" "trim_runes rs = rs"
    "length (encode_runes rs) \<le> maxFromName"
proof -
  define rs2 where "rs2 = filter (\<lambda>r. \<not> IsControl r) (runes (filter (\<lambda>c. \<not> fromNameRe c) s))"
  define rs3 where "rs3 = trim_runes rs2"
  have c2: "clean_runes rs2" unfolding rs2_def by (rule clean_runes_filter)
  then have c3: "clean_runes rs3"
    unfolding rs3_def using set_trim_runes by (rule clean_runes_subset)
  have n3: "TrimSpace (map_keep (\<lambda>r. \<not> IsControl r) (filter (\<lambda>c. \<not> fromNameRe c) s)) = encode_runes rs3"
    using c2 by (simp add: map_keep_def rs3_def TrimSpace_encode clean_runes_valid flip: rs2_def)
  show thesis
  proof (cases "maxFromName < length (encode_runes rs3)")
    case False
    then have "sanitizeName s = encode_runes rs3" by (simp add: sanitizeName_def n3)
    with False c3 that show thesis by (metis rs3_def trim_runes_idem not_less)
  next
    case True
    from take_cut_back[OF clean_runes_valid[OF c3] True] obtain m where
      m: "take (cut_back (encode_runes rs3) maxFromName) (encode_runes rs3) = encode_runes (take m rs3)" ..
    define rs4 where "rs4 = trim_runes (take m rs3)"
    have ct: "clean_runes (take m rs3)" by (rule clean_runes_subset[OF c3 set_take_subset])
    then have c4: "clean_runes rs4" unfolding rs4_def using set_trim_runes by (rule clean_runes_subset)
    have "sanitizeName s = encode_runes rs4"
      using True ct by (simp add: sanitizeName_def n3 m rs4_def TrimSpace_encode clean_runes_valid)
    moreover have "length (encode_runes rs4) \<le> maxFromName"
    proof -
      have "length (encode_runes rs4) \<le> length (encode_runes (take m rs3))"
        unfolding rs4_def by (rule length_encode_trim)
      also have "\<dots> \<le> maxFromName"
        using cut_back_le[of "encode_runes rs3" maxFromName] by (simp flip: m)
      finally show ?thesis .
    qed
    ultimately show thesis using c4 that trim_runes_idem unfolding rs4_def by blast
  qed
qed

text \<open>A name that is already clean, trimmed and short enough is kept as it is.\<close>

lemma sanitizeName_fixed:
  assumes "clean_runes rs" "trim_runes rs = rs" "length (encode_runes rs) \<le> maxFromName"
  shows "sanitizeName (encode_runes rs) = encode_runes rs"
proof -
  have "filter (\<lambda>c. \<not> fromNameRe c) (encode_runes rs) = encode_runes rs"
    using clean_runes_bytes[OF assms(1)] by (simp add: filter_id_conv)
  moreover have "filter (\<lambda>r. \<not> IsControl r) rs = rs"
    using assms(1) by (auto simp: filter_id_conv clean_runes_def list_all_iff)
  ultimately show ?thesis
    using assms by (simp add: sanitizeName_def map_keep_def runes_encode_runes TrimSpace_encode clean_runes_valid)
qed

lemma sanitizeName_clean:
  "length (sanitizeName s) \<le> maxFromName \<and> ValidString (sanitizeName s) \<and>
   list_all (\<lambda>c. \<not> fromNameRe c) (sanitizeName s) \<and>
   list_all (\<lambda>r. \<not> IsControl r) (runes (sanitizeName s)) \<and>
   TrimSpace (sanitizeName s) = sanitizeName s"
proof -
  obtain rs where rs: "clean_runes rs" "sanitizeName s = encode_runes rs" "trim_runes rs = rs"
    "length (encode_runes rs) \<le> maxFromName" by (rule sanitizeName_runes)
  then have "list_all (\<lambda>c. \<not> fromNameRe c) (encode_runes rs)"
    using clean_runes_bytes by (auto simp: list_all_iff)
  moreover have "list_all (\<lambda>r. \<not> IsControl r) rs"
    using rs(1) by (auto simp: clean_runes_def list_all_iff)
  ultimately show ?thesis
    using rs by (simp add: runes_encode_runes TrimSpace_encode clean_runes_valid)
qed

section \<open>Escaping and quoting\<close>

lemma sublist_skip:
  assumes "sublist (c # p) (u @ r)" "c \<notin> set u"
  shows "sublist (c # p) r"
  using assms by (induction u) (auto simp: sublist_Cons_right)

lemma prefix_replace_all:
  assumes "prefix p (replace_all (c # o') (c # n') 0 s)" "c \<notin> set p"
  shows "prefix p s"
  using assms
proof (induction s arbitrary: p)
  case (Cons a s)
  show ?case
  proof (cases p)
    case (Cons b q)
    with Cons.prems have "\<not> HasPrefix (a # s) (c # o')" by (auto split: if_splits)
    with Cons Cons.prems Cons.IH[of q] show ?thesis by (auto split: if_splits)
  qed simp
qed simp

lemma replace_all_removes:
  assumes "c \<notin> set (d # o')" "c \<notin> set (e # n')" "d \<noteq> e"
  shows "\<not> sublist (c # d # o') (replace_all (c # d # o') (c # e # n') k s)"
proof (induction "c # d # o'" "c # e # n'" k s rule: replace_all.induct)
  case (3 a s)
  let ?R = "replace_all (c # d # o') (c # e # n')"
  show ?case
  proof (cases "HasPrefix (a # s) (c # d # o')")
    case True
    with 3(1) have rest: "\<not> sublist (c # d # o') (?R (length (c # d # o') - 1) s)" by simp
    have "\<not> prefix (c # d # o') ((c # e # n') @ t)" for t using assms(3) by simp
    moreover have "\<not> sublist (c # d # o') ((e # n') @ ?R (length (c # d # o') - 1) s)"
      using sublist_skip[of c "d # o'" "e # n'"] assms(2) rest by blast
    ultimately show ?thesis using True by (simp add: sublist_Cons_right)
  next
    case False
    with 3(2) have rest: "\<not> sublist (c # d # o') (?R 0 s)" by simp
    have "\<not> prefix (c # d # o') (a # ?R 0 s)"
    proof
      assume p: "prefix (c # d # o') (a # ?R 0 s)"
      then have "prefix (d # o') s"
        using prefix_replace_all[of "d # o'" c "d # o'" "e # n'" s] assms(1) by auto
      with p False show False by (simp add: HasPrefix_prefix)
    qed
    with rest False show ?thesis by (auto simp: sublist_Cons_right)
  qed
qed simp_all

lemma escapeBody_no_close: "\<not> Contains (escapeBody body) (''</'' @ envelopeTag)"
  using replace_all_removes[of "CHR ''<''" "CHR ''/''" envelopeTag "CHR 0x5C" "CHR ''/'' # envelopeTag" 0 body]
  by (simp add: Contains_sublist escapeBody_def ReplaceAll_def envelopeTag_def)

text \<open>The bytes \<^verbatim>\<open>%q\<close> can produce: those of the string, or of an escape sequence.\<close>

definition escape_char :: "char \<Rightarrow> bool" where
  "escape_char c \<longleftrightarrow> c \<in> set ''xuUabfnrtv'' \<or> c = CHR 0x5C \<or> is_lower_hex c"

lemma lower_hex_digits_chars: "c \<in> set (lower_hex_digits k n) \<Longrightarrow> is_lower_hex c"
  by (induction k n rule: lower_hex_digits.induct) auto

lemma escaped_rune_bytes:
  assumes "c \<in> set (escaped_rune w r)"
  shows "escape_char c \<or> c \<in> set (encode_rune r)"
proof (cases "r = 0x22 \<or> r = 0x5C")
  case True
  then have "encode_rune r = [char_of r]"
    by (auto simp: encode_rune_def encode_valid_def valid_rune_def)
  with True assms show ?thesis by (auto simp: escaped_rune_def escape_char_def)
next
  case False
  show ?thesis
  proof (cases "IsPrint w r")
    case True
    with False assms show ?thesis by (simp add: escaped_rune_def)
  next
    case not_print: False
    from assms False not_print have "c \<in> set ''xuUabfnrtv'' \<or> c = CHR 0x5C
        \<or> c \<in> set (lower_hex_digits 2 r) \<or> c \<in> set (lower_hex_digits 4 r) \<or> c \<in> set (lower_hex_digits 8 r)"
      unfolding escaped_rune_def by (simp only: if_False split: if_splits) auto
    then show ?thesis by (auto simp only: escape_char_def dest: lower_hex_digits_chars)
  qed
qed

lemma quote_body_bytes: "c \<in> set (quote_body w s) \<Longrightarrow> escape_char c \<or> c \<in> set s"
proof (induction s rule: quote_body.induct)
  case (2 w d s)
  obtain r n where d: "decode_rune (d # s) = (r, n)" by force
  from 2(2) d consider "n = 1 \<and> r = RuneError" "c \<in> set ([CHR 0x5C, CHR ''x''] @ lower_hex_digits 2 (code_of d))"
    | "\<not> (n = 1 \<and> r = RuneError)" "c \<in> set (escaped_rune w r)"
    | "c \<in> set (quote_body w (drop (n - 1) s))"
    by (auto split: if_splits)
  then show ?case
  proof cases
    case 1
    then show ?thesis using lower_hex_digits_chars[of c 2] by (auto simp: escape_char_def)
  next
    case 2
    with decode_rune_cases[OF d] have "set (encode_rune r) \<subseteq> set (d # s)"
      by (metis Un_upper1 set_append)
    with 2 escaped_rune_bytes show ?thesis by blast
  next
    case 3
    with 2(1) d show ?thesis by (auto dest: in_set_dropD)
  qed
qed simp

lemma quote_plain:
  assumes "ValidString s" "list_all (\<lambda>r. IsPrint w r \<and> r \<notin> {0x22, 0x5C}) (runes s)"
  shows "quote w s = [CHR 0x22] @ s @ [CHR 0x22]"
proof -
  have "quote_body w s = s"
    using assms
  proof (induction s rule: runes.induct)
    case (2 c s)
    obtain r n where d: "decode_rune (c # s) = (r, n)" by force
    from 2(2) d have ok: "\<not> (r = RuneError \<and> n = 1)" by auto
    with decode_rune_cases[OF d] have e: "c # s = encode_rune r @ drop n (c # s)" by blast
    have "drop (n - 1) s = drop n (c # s)"
      using decode_rune_width(1)[OF d] by (rule drop_tail_conv)
    moreover have "escaped_rune w r = encode_rune r"
      using 2(3) d by (auto simp: escaped_rune_def)
    moreover have "quote_body w (drop (n - 1) s) = drop (n - 1) s"
      using 2 d by simp
    ultimately show ?case using e d ok by auto
  qed simp
  then show ?thesis by (simp add: quote_def)
qed

text \<open>No attribute byte can end the header or open a tag.\<close>

definition header_safe :: "char \<Rightarrow> bool" where
  "header_safe c \<longleftrightarrow> c \<noteq> CHR ''<'' \<and> c \<noteq> CHR ''>'' \<and> c \<noteq> CHR 0x0A"

lemma escape_char_safe: "escape_char c \<Longrightarrow> header_safe c"
  by (auto simp: escape_char_def is_lower_hex_def is_digit_def header_safe_def)

lemma addrSafe_safe: "addrSafe c \<or> c = CHR ''%'' \<Longrightarrow> header_safe c"
  by (auto simp: addrSafe_def header_safe_def)

lemma quote_safe: "list_all header_safe s \<Longrightarrow> list_all header_safe (quote w s)"
  using quote_body_bytes[of _ w s] escape_char_safe
  by (auto simp: quote_def list_all_iff) (simp_all add: header_safe_def)

lemma sanitizeName_safe: "list_all header_safe (sanitizeName name)"
  using sanitizeName_clean[of name] by (auto simp: list_all_iff fromNameRe_def header_safe_def)

lemma validAddress_safe: "validAddress a \<Longrightarrow> list_all header_safe a"
  using validAddress_bytes addrSafe_safe by (auto simp: list_all_iff)

lemma attrs_safe:
  assumes "from = [] \<or> validAddress from"
  shows "list_all header_safe (attrs w from name)"
proof -
  have "list_all header_safe '' from=''" "list_all header_safe '' from-name=''"
    by (simp_all add: header_safe_def)
  moreover have "list_all header_safe (quote w from)"
    using assms validAddress_safe quote_safe[of "from" w] by (cases "from = []") auto
  moreover have "list_all header_safe (quote w (sanitizeName name))"
    by (rule quote_safe) (rule sanitizeName_safe)
  ultimately show ?thesis by (simp add: attrs_def)
qed

text \<open>A pattern without newlines that occurs in a text occurs within one of its lines.\<close>

lemma occurrence_in_line:
  assumes "x @ nl # y = a @ p @ b" "nl \<notin> set p"
  obtains b' where "x = a @ p @ b'" | a' where "y = a' @ p @ b"
proof -
  from assms(1) have "(\<exists>us. x = (a @ p) @ us \<and> us @ nl # y = b) \<or> (\<exists>us. a @ p = x @ us \<and> nl # y = us @ b)"
    using append_eq_append_conv2[of x "nl # y" "a @ p" b] by auto
  then show thesis
  proof
    assume "\<exists>us. x = (a @ p) @ us \<and> us @ nl # y = b"
    with that(1) show thesis by auto
  next
    assume "\<exists>us. a @ p = x @ us \<and> nl # y = us @ b"
    then obtain us where us: "a @ p = x @ us" "nl # y = us @ b" by blast
    show thesis
    proof (cases us)
      case Nil
      with us(1) have "x = a @ p @ []" by simp
      then show thesis by (rule that(1))
    next
      case (Cons v vs)
      with us have v: "v = nl" "y = vs @ b" by simp_all
      from us(1) Cons have "\<exists>ws. a = x @ ws \<and> ws @ p = us \<or> (\<exists>ws. x = a @ ws \<and> p = ws @ us)"
        by (auto simp: append_eq_append_conv2)
      then obtain ws where "a = x @ ws \<and> ws @ p = us \<or> x = a @ ws \<and> p = ws @ us" by blast
      moreover have "p \<noteq> ws @ us" using assms(2) Cons v by auto
      ultimately have "ws @ p = nl # vs" using Cons v by auto
      moreover from this have "ws \<noteq> []" using assms(2) by (cases ws) auto
      ultimately have "vs = tl ws @ p" by (cases ws) auto
      with v that(2)[of "tl ws"] show thesis by simp
    qed
  qed
qed

lemma envelope_single_close:
  assumes "from = [] \<or> validAddress from"
    and "wrapEnvelope w from name body = a @ (''</'' @ envelopeTag) @ b"
  shows "b = ''>''"
proof -
  define close where "close = ''</'' @ envelopeTag"
  define hd where "hd = ''<'' @ envelopeTag @ attrs w from name @ ''>''"
  have nl: "CHR 0x0A \<notin> set close" by (simp add: close_def envelopeTag_def)
  have content: "wrapEnvelope w from name body = hd @ CHR 0x0A # (escapeBody body @ CHR 0x0A # close @ ''>'')"
    by (simp add: wrapEnvelope_def hd_def close_def)
  have "hd \<noteq> a @ close @ b'" for b'
  proof
    assume h: "hd = a @ close @ b'"
    have "CHR ''<'' \<notin> set (tl hd)"
      using attrs_safe[OF assms(1), of w name]
      by (auto simp: hd_def envelopeTag_def list_all_iff header_safe_def)
    with h have "a = []" by (cases a) (auto simp: close_def)
    with h show False by (simp add: hd_def close_def envelopeTag_def)
  qed
  then obtain a' where a': "escapeBody body @ CHR 0x0A # close @ ''>'' = a' @ close @ b"
    using occurrence_in_line[OF _ nl, of hd "escapeBody body @ CHR 0x0A # close @ ''>''" a b]
      assms(2) content by (auto simp: close_def)
  have "escapeBody body \<noteq> a' @ close @ b'" for b'
    using escapeBody_no_close[of body] by (auto simp: Contains_sublist sublist_def close_def)
  then obtain a'' where "close @ ''>'' = a'' @ close @ b"
    using occurrence_in_line[OF a' nl] by blast
  moreover from this have "a'' = []"
    by (cases a'') (auto simp: close_def envelopeTag_def Cons_eq_append_conv)
  ultimately show ?thesis by simp
qed

section \<open>Headers and ids\<close>

lemma runes_ascii:
  assumes "list_all (\<lambda>c. code_of c < 0x80) s"
  shows "runes s = map code_of s \<and> ValidString s"
  using assms by (induction s) (auto simp: decode_rune.simps(2) RuneError_def)

lemma addrSafe_ascii: "addrSafe c \<or> c = CHR ''%'' \<Longrightarrow> 0x20 \<le> code_of c \<and> code_of c < 0x7F"
  by (auto simp: addrSafe_def char_le_code_of)

text \<open>On the bytes of an address \<^verbatim>\<open>%q\<close> changes one thing: it doubles a backslash.\<close>

definition double_backslash :: "gostring \<Rightarrow> gostring" where
  "double_backslash s = concat (map (\<lambda>c. if c = CHR 0x5C then [c, c] else [c]) s)"

lemma quote_body_ascii:
  assumes "list_all (\<lambda>c. 0x20 \<le> code_of c \<and> code_of c < 0x7F \<and> c \<noteq> CHR 0x22) s"
  shows "quote_body w s = double_backslash s"
  using assms
proof (induction s)
  case (Cons c s)
  then have c: "0x20 \<le> code_of c" "code_of c < 0x7F" "c \<noteq> CHR 0x22" by simp_all
  then have "code_of c \<noteq> code_of (CHR 0x22)" by (simp only: of_char_eq_iff not_False_eq_True)
  moreover have "code_of c = 0x5C \<longleftrightarrow> c = CHR 0x5C"
    using of_char_eq_iff[of c "CHR 0x5C", where 'a = nat] by simp
  moreover have "char_of (0x5C :: nat) = CHR 0x5C" by (simp add: char_of_eq_iff)
  ultimately have "escaped_rune w (code_of c) = (if c = CHR 0x5C then [c, c] else [c])"
    using c by (simp add: escaped_rune_def IsPrint_def encode_rune_def encode_valid_def valid_rune_def)
  with Cons c show ?case
    by (simp add: decode_rune.simps(2) RuneError_def double_backslash_def)
qed (simp add: double_backslash_def)

lemma double_backslash_eq: "double_backslash s = s \<longleftrightarrow> CHR 0x5C \<notin> set s"
proof
  have len: "length (double_backslash s) = length s + length (filter (\<lambda>c. c = CHR 0x5C) s)"
    by (induction s) (auto simp: double_backslash_def)
  assume "double_backslash s = s"
  with len have "filter (\<lambda>c. c = CHR 0x5C) s = []" by simp
  then show "CHR 0x5C \<notin> set s" by (auto simp: filter_empty_conv)
next
  assume "CHR 0x5C \<notin> set s"
  then show "double_backslash s = s" by (induction s) (auto simp: double_backslash_def)
qed

lemma set_double_backslash: "set (double_backslash s) = set s"
  by (induction s) (auto simp: double_backslash_def)

lemma quote_address:
  assumes "validAddress a"
  shows "quote w a = [CHR 0x22] @ double_backslash a @ [CHR 0x22] \<and> CHR 0x22 \<notin> set a"
proof -
  have q: "\<not> addrSafe (CHR 0x22)" by (simp add: addrSafe_def)
  have "0x20 \<le> code_of c \<and> code_of c < 0x7F \<and> c \<noteq> CHR 0x22" if "c \<in> set a" for c
    using validAddress_bytes[OF assms that] addrSafe_ascii[of c] q by auto
  then have bytes: "list_all (\<lambda>c. 0x20 \<le> code_of c \<and> code_of c < 0x7F \<and> c \<noteq> CHR 0x22) a"
    by (simp only: list_all_iff) blast
  then have "CHR 0x22 \<notin> set a" by (auto simp only: list_all_iff)
  with quote_body_ascii[OF bytes] show ?thesis by (simp add: quote_def)
qed

lemma takeWhile_header:
  assumes "from = [] \<or> validAddress from"
  shows "takeWhile (\<lambda>c. c \<noteq> CHR ''>'') (wrapEnvelope w from name body) = ''<'' @ envelopeTag @ attrs w from name"
proof -
  have "c \<noteq> CHR ''>''" if "c \<in> set (''<'' @ envelopeTag @ attrs w from name)" for c
    using that attrs_safe[OF assms, of w name]
    by (auto simp: envelopeTag_def list_all_iff header_safe_def)
  then have "takeWhile (\<lambda>c. c \<noteq> CHR ''>'') ((''<'' @ envelopeTag @ attrs w from name) @ CHR ''>'' # rest)
      = ''<'' @ envelopeTag @ attrs w from name" for rest
    by (subst takeWhile_append2) auto
  then show ?thesis by (simp add: wrapEnvelope_def)
qed

lemma and_or_table:
  "list_all (\<lambda>n. unat (((of_nat n :: byte) AND 0x0F) OR 0x40) div 16 = 4
     \<and> unat (((of_nat n :: byte) AND 0x3F) OR 0x80) div 16 \<in> {8, 9, 10, 11}) [0..<256]"
  by code_simp

lemma version_nibble: "unat (((x :: byte) AND 0x0F) OR 0x40) div 16 = 4"
  and variant_nibble: "unat (((x :: byte) AND 0x3F) OR 0x80) div 16 \<in> {8, 9, 10, 11}"
proof -
  have "unat x \<in> set [0..<256]" using unat_byte_less[of x] by simp
  with and_or_table have "unat (((of_nat (unat x) :: byte) AND 0x0F) OR 0x40) div 16 = 4
     \<and> unat (((of_nat (unat x) :: byte) AND 0x3F) OR 0x80) div 16 \<in> {8, 9, 10, 11}"
    unfolding list_all_iff by blast
  then show "unat ((x AND 0x0F) OR 0x40) div 16 = 4"
    "unat ((x AND 0x3F) OR 0x80) div 16 \<in> {8, 9, 10, 11}" by simp_all
qed

lemma EncodeToString_nth:
  "i < length bs \<Longrightarrow> EncodeToString bs ! (2 * i) = hex_lower (unat (bs ! i) div 16)"
proof (induction bs arbitrary: i)
  case (Cons b bs)
  then show ?case by (cases i) (auto simp: EncodeToString_def hex_byte_def)
qed simp

definition is_uuid4 :: "gostring \<Rightarrow> bool" where
  "is_uuid4 s \<longleftrightarrow>
     length s = 36 \<and>
     list_all (\<lambda>i. if i \<in> {8, 13, 18, 23} then s ! i = CHR ''-'' else is_lower_hex (s ! i)) [0..<36] \<and>
     s ! 14 = CHR ''4'' \<and> s ! 19 \<in> {CHR ''8'', CHR ''9'', CHR ''a'', CHR ''b''}"

text \<open>The five groups of hex digits joined by hyphens, by position.\<close>

definition uuid_text :: "gostring \<Rightarrow> gostring" where
  "uuid_text h = take 8 h @ ''-'' @ take 4 (drop 8 h) @ ''-'' @ take 4 (drop 12 h) @ ''-''
     @ take 4 (drop 16 h) @ ''-'' @ take 12 (drop 20 h)"

lemma uuid_text_nth:
  assumes "length h = 32" "i < 36"
  shows "uuid_text h ! i = (if i < 8 then h ! i else if i = 8 then CHR ''-''
      else if i < 13 then h ! (i - 1) else if i = 13 then CHR ''-''
      else if i < 18 then h ! (i - 2) else if i = 18 then CHR ''-''
      else if i < 23 then h ! (i - 3) else if i = 23 then CHR ''-'' else h ! (i - 4))"
  using assms unfolding uuid_text_def
  by (simp add: nth_append nth_Cons') (intro conjI impI; simp)

lemma uuid_layout:
  assumes "length h = 32" "\<forall>c \<in> set h. is_lower_hex c" "h ! 12 = CHR ''4''"
    "h ! 16 \<in> {CHR ''8'', CHR ''9'', CHR ''a'', CHR ''b''}"
  shows "is_uuid4 (uuid_text h)"
proof -
  have hex: "is_lower_hex (h ! j)" if "j < 32" for j using that assms(1,2) by simp
  have "if i \<in> {8, 13, 18, 23} then uuid_text h ! i = CHR ''-'' else is_lower_hex (uuid_text h ! i)"
    if "i \<in> set [0..<36]" for i
    using that uuid_text_nth[OF assms(1), of i] hex[of i] hex[of "i - 1"] hex[of "i - 2"] hex[of "i - 3"] hex[of "i - 4"]
    by auto
  then have "list_all (\<lambda>i. if i \<in> {8, 13, 18, 23} then uuid_text h ! i = CHR ''-'' else is_lower_hex (uuid_text h ! i)) [0..<36]"
    unfolding list_all_iff by blast
  moreover have "uuid_text h ! 14 = CHR ''4''" "uuid_text h ! 19 \<in> {CHR ''8'', CHR ''9'', CHR ''a'', CHR ''b''}"
    using uuid_text_nth[OF assms(1), of 14] uuid_text_nth[OF assms(1), of 19] assms(3,4) by simp_all
  moreover have "length (uuid_text h) = 36" using assms(1) by (simp add: uuid_text_def)
  ultimately show ?thesis unfolding is_uuid4_def by blast
qed

lemma newUUID_uuid4:
  assumes "length b = 16"
  shows "\<exists>s. newUUID (Inr b) = Inr s \<and> is_uuid4 s"
proof -
  define h where "h = EncodeToString (uuid_bytes b)"
  have len: "length (uuid_bytes b) = 16" using assms by (simp add: uuid_bytes_def Let_def)
  have b6: "uuid_bytes b ! 6 = (b ! 6 AND 0x0F) OR 0x40" and b8: "uuid_bytes b ! 8 = (b ! 8 AND 0x3F) OR 0x80"
    using assms by (simp_all add: uuid_bytes_def Let_def)
  have "h ! (2 * 6) = hex_lower 4"
    unfolding h_def by (subst EncodeToString_nth) (simp_all add: len b6 version_nibble)
  then have h12: "h ! 12 = CHR ''4''" by (simp add: hex_lower_def char_of_eq_iff)
  have "h ! (2 * 8) = hex_lower (unat ((b ! 8 AND 0x3F) OR 0x80) div 16)"
    unfolding h_def by (subst EncodeToString_nth) (simp_all add: len b8)
  then have "h ! 16 \<in> {hex_lower 8, hex_lower 9, hex_lower 10, hex_lower 11}"
    using variant_nibble[of "b ! 8"] by auto
  then have h16: "h ! 16 \<in> {CHR ''8'', CHR ''9'', CHR ''a'', CHR ''b''}"
    by (auto simp: hex_lower_def char_of_eq_iff)
  have "length h = 32" "\<forall>c \<in> set h. is_lower_hex c"
    using len EncodeToString_lower_hex by (simp_all add: h_def)
  from uuid_layout[OF this h12 h16] show ?thesis
    by (simp add: newUUID_def Let_def uuid_text_def flip: h_def)
qed

section \<open>What a frame carries\<close>

lemma sanitizeName_Nil [simp]: "sanitizeName [] = []"
  by (simp add: sanitizeName_def map_keep_def TrimSpace_def trim_left.simps trim_right.simps)

lemma effective_priority_cases:
  "effective_priority p = Inr q \<longleftrightarrow>
     (p = [] \<and> q = PriorityNext) \<or> (p \<in> {PriorityNow, PriorityNext, PriorityLater} \<and> q = p)"
  by (auto simp: effective_priority_def PriorityNext_def PriorityNow_def PriorityLater_def)

lemma frame_Inr_iff:
  "frame w rnd m = Inr f \<longleftrightarrow>
     m_Text m \<noteq> [] \<and> (m_From m = [] \<or> validAddress (m_From m)) \<and>
     (\<exists>p i. effective_priority (m_Priority m) = Inr p \<and>
        (if m_MsgID m = [] then newUUID rnd else Inr (m_MsgID m)) = Inr i \<and>
        f = \<lparr> uf_MsgV = protocolVersion, uf_MsgID = i, uf_Type = ''user'',
              uf_Message = \<lparr> fp_Role = ''user'',
                 fp_Content = (if m_FromName m \<noteq> []
                               then wrapEnvelope w (m_From m) (m_FromName m) (m_Text m)
                               else m_Text m) \<rparr>,
              uf_Priority = p, uf_From = m_From m, uf_SessionID = m_SessionID m,
              uf_UUID = m_UUID m \<rparr>)"
  unfolding frame_def by (auto simp: error_simps)

lemma frame_accepted:
  "(\<exists>f. frame w rnd m = Inr f) \<longleftrightarrow>
     m_Text m \<noteq> [] \<and> m_Priority m \<in> {[], ''now'', ''next'', ''later''} \<and>
     (m_From m = [] \<or> validAddress (m_From m)) \<and> (m_MsgID m \<noteq> [] \<or> \<not> isl rnd)"
proof -
  have p: "(\<exists>p. effective_priority (m_Priority m) = Inr p) \<longleftrightarrow> m_Priority m \<in> {[], ''now'', ''next'', ''later''}"
    by (auto simp: effective_priority_def PriorityNow_def PriorityNext_def PriorityLater_def)
  have i: "(\<exists>i. (if m_MsgID m = [] then newUUID rnd else Inr (m_MsgID m)) = Inr i) \<longleftrightarrow> m_MsgID m \<noteq> [] \<or> \<not> isl rnd"
    by (auto simp: newUUID_def Let_def split: sum.splits)
  show ?thesis unfolding frame_Inr_iff p [symmetric] i [symmetric] by blast
qed

section \<open>Properties\<close>

text \<open>
  Property C5: when a sender name is given, the frame's content carries exactly one closing
  envelope tag, the final one.  Whatever the body, the name or the return address contain,
  nothing in them can end the envelope early and continue as a different sender.
\<close>

theorem frame_no_forgery:
  assumes "frame w rnd m = Inr f" "m_FromName m \<noteq> []"
    and "fp_Content (uf_Message f) = a @ (''</'' @ envelopeTag) @ b"
  shows "b = ''>''"
proof -
  from assms(1,2) have "m_From m = [] \<or> validAddress (m_From m)"
    and "fp_Content (uf_Message f) = wrapEnvelope w (m_From m) (m_FromName m) (m_Text m)"
    by (auto simp: frame_Inr_iff)
  with assms(3) envelope_single_close[of "m_From m"] show ?thesis by metis
qed

text \<open>
  The envelope's header is read back exactly: up to the first \<open>>\<close> the content is
  the opening tag followed by the attributes, sender address first and sanitized name
  second, so no attribute value can close the header.
\<close>

theorem frame_header:
  assumes "frame w rnd m = Inr f" "m_FromName m \<noteq> []"
  shows "takeWhile (\<lambda>c. c \<noteq> CHR ''>'') (fp_Content (uf_Message f)) =
    ''<cross-session-message'' @
    (if m_From m \<noteq> [] then '' from='' @ quote w (m_From m) else []) @
    (if sanitizeName (m_FromName m) \<noteq> [] then '' from-name='' @ quote w (sanitizeName (m_FromName m)) else [])"
proof -
  from assms have "m_From m = [] \<or> validAddress (m_From m)"
    and "fp_Content (uf_Message f) = wrapEnvelope w (m_From m) (m_FromName m) (m_Text m)"
    by (auto simp: frame_Inr_iff)
  with takeWhile_header[of "m_From m" w "m_FromName m" "m_Text m"] show ?thesis
    by (simp add: attrs_def envelopeTag_def)
qed

text \<open>
  Property C37: the \<^verbatim>\<open>from\<close> attribute of the envelope spells the return address the frame
  carries if and only if the address has no backslash.  The address check lets a backslash
  through, and the quoting then doubles it, so for such an address the attribute differs
  from the address.
\<close>

theorem frame_from_attribute:
  assumes "frame w rnd m = Inr f" "m_FromName m \<noteq> []" "m_From m \<noteq> []"
  shows "HasPrefix (fp_Content (uf_Message f))
           (''<cross-session-message from='' @ [CHR 0x22] @ uf_From f @ [CHR 0x22])
         \<longleftrightarrow> CHR 0x5C \<notin> set (uf_From f)"
proof -
  let ?a = "m_From m"
  from assms have v: "validAddress ?a" and fa: "uf_From f = ?a"
    and content: "fp_Content (uf_Message f) = wrapEnvelope w ?a (m_FromName m) (m_Text m)"
    by (auto simp: frame_Inr_iff)
  from quote_address[OF v, of w] have q: "quote w ?a = [CHR 0x22] @ double_backslash ?a @ [CHR 0x22]"
    and nq: "CHR 0x22 \<notin> set ?a" "CHR 0x22 \<notin> set (double_backslash ?a)"
    by (simp_all add: set_double_backslash)
  obtain rest where "fp_Content (uf_Message f)
      = ''<cross-session-message from='' @ [CHR 0x22] @ double_backslash ?a @ CHR 0x22 # rest"
    unfolding content using assms(3) by (simp add: wrapEnvelope_def attrs_def envelopeTag_def q)
  then have "HasPrefix (fp_Content (uf_Message f)) (''<cross-session-message from='' @ [CHR 0x22] @ ?a @ [CHR 0x22])
      \<longleftrightarrow> prefix (?a @ [CHR 0x22]) (double_backslash ?a @ CHR 0x22 # rest)"
    by (simp add: HasPrefix_prefix)
  also have "\<dots> \<longleftrightarrow> double_backslash ?a = ?a"
  proof
    assume "prefix (?a @ [CHR 0x22]) (double_backslash ?a @ CHR 0x22 # rest)"
    then obtain zs where z: "double_backslash ?a @ CHR 0x22 # rest = ?a @ CHR 0x22 # zs"
      by (auto simp: prefix_def)
    have "takeWhile (\<lambda>c. c \<noteq> CHR 0x22) (x @ CHR 0x22 # y) = x" if "CHR 0x22 \<notin> set x" for x y
      using that by (subst takeWhile_append2) auto
    from this[OF nq(1), of zs] this[OF nq(2), of rest] z show "double_backslash ?a = ?a" by simp
  qed (simp add: prefix_def)
  finally show ?thesis by (simp add: double_backslash_eq fa)
qed

text \<open>
  Property C38: a sanitized sender name is at most 200 bytes long, valid UTF-8 (so JSON
  encoding does not replace any of it), free of quotes, angle brackets and line breaks,
  free of control characters, and has no space at either end.
\<close>

theorem sanitized_name:
  "length (sanitizeName s) \<le> 200 \<and> ValidString (sanitizeName s) \<and>
   set (sanitizeName s) \<inter> {CHR 0x22, CHR ''<'', CHR ''>'', CHR 0x0A, CHR 0x0D} = {} \<and>
   list_all (\<lambda>r. \<not> IsControl r) (runes (sanitizeName s)) \<and>
   TrimSpace (sanitizeName s) = sanitizeName s"
  using sanitizeName_clean[of s] by (auto simp: maxFromName_def fromNameRe_def list_all_iff)

text \<open>
  Sanitizing is stable: a sanitized name, sanitized again by whoever
  re-serializes the envelope, does not change.  In particular the truncation at 200 bytes
  never leaves a half rune or trailing space for a second pass to remove.
\<close>

theorem sanitizeName_stable: "sanitizeName (sanitizeName s) = sanitizeName s"
proof -
  obtain rs where rs: "clean_runes rs" "sanitizeName s = encode_runes rs" "trim_runes rs = rs"
    "length (encode_runes rs) \<le> maxFromName" by (rule sanitizeName_runes)
  then show ?thesis using sanitizeName_fixed by simp
qed

text \<open>
  A message is turned into a frame exactly when its text is non-empty, its
  priority is one of the four accepted spellings, its return address is empty or well
  formed, and an id was given or random bytes could be read.
\<close>

theorem frame_accepts:
  "(\<exists>f. frame w rnd m = Inr f) \<longleftrightarrow>
     m_Text m \<noteq> [] \<and> m_Priority m \<in> {[], ''now'', ''next'', ''later''} \<and>
     (m_From m = [] \<or> validAddress (m_From m)) \<and> (m_MsgID m \<noteq> [] \<or> \<not> isl rnd)"
  by (rule frame_accepted)

text \<open>
  When the caller gave no id, the frame's id is a version 4, variant 10 UUID in
  the canonical text form, for any 16 random bytes; when the caller gave one it is kept.
\<close>

theorem frame_msg_id:
  assumes "frame w (Inr b) m = Inr f" "length b = 16"
  shows "if m_MsgID m = [] then is_uuid4 (uf_MsgID f) else uf_MsgID f = m_MsgID m"
  using assms(1) newUUID_uuid4[OF assms(2)] by (auto simp: frame_Inr_iff split: if_splits)

end
