(* ===== verification/Json.thy ===== *)
theory Json
  imports Message
begin

text \<open>
  The parts of \<^verbatim>\<open>encoding/json\<close> the package uses: compact printing with HTML escaping
  (\<^verbatim>\<open>json.Marshal\<close>), the grammar \<^verbatim>\<open>json.Unmarshal\<close> accepts, with string unquoting and
  the nesting limit, and storing values into struct fields.  The lemmas show that reading
  what was printed gives the value back, with invalid UTF-8 replaced by U+FFFD, that
  printed text holds no control byte, and that the parser's fuel never runs out.
\<close>

section \<open>Values and printing\<close>

datatype json =
    JNull
  | JBool bool
  | JNum gostring
  | JStr gostring
  | JArr "json list"
  | JObj "(gostring \<times> json) list"

text \<open>
  The string encoder of \<^verbatim>\<open>json.Marshal\<close> with HTML escaping: printable ASCII other than
  the quote, the backslash and \<open><\<close>, \<open>>\<close>, \<open>&\<close> is copied, an invalid byte becomes
  \<^verbatim>\<open>\ufffd\<close>, the two JavaScript line separators are escaped, other runes are copied.
\<close>

definition json_safe :: "char \<Rightarrow> bool" where
  "json_safe b \<longleftrightarrow> 0x20 \<le> code_of b \<and> code_of b < 0x80 \<and>
     b \<notin> {CHR 0x22, CHR 0x5C, CHR ''<'', CHR ''>'', CHR ''&''}"

definition json_escape_ascii :: "char \<Rightarrow> gostring" where
  "json_escape_ascii b =
     (if json_safe b then [b]
      else if b = CHR 0x5C \<or> b = CHR 0x22 then [CHR 0x5C, b]
      else if b = CHR 0x08 then [CHR 0x5C, CHR ''b'']
      else if b = CHR 0x0C then [CHR 0x5C, CHR ''f'']
      else if b = CHR 0x0A then [CHR 0x5C, CHR ''n'']
      else if b = CHR 0x0D then [CHR 0x5C, CHR ''r'']
      else if b = CHR 0x09 then [CHR 0x5C, CHR ''t'']
      else [CHR 0x5C, CHR ''u'', CHR ''0'', CHR ''0'',
            hex_lower (code_of b div 16), hex_lower (code_of b mod 16)])"

fun json_body :: "gostring \<Rightarrow> gostring" where
  "json_body [] = []"
| "json_body (b # s) =
     (if code_of b < 0x80 then json_escape_ascii b @ json_body s
      else (case decode_rune (b # s) of (c, sz) \<Rightarrow>
        (if c = RuneError \<and> sz = 1 then CHR 0x5C # ''ufffd''
         else if c = 0x2028 \<or> c = 0x2029 then CHR 0x5C # ''u202'' @ [hex_lower (c mod 16)]
         else take sz (b # s)) @ json_body (drop (sz - 1) s)))"

definition json_string :: "gostring \<Rightarrow> gostring" where
  "json_string s = [CHR 0x22] @ json_body s @ [CHR 0x22]"

text \<open>Compact printing, as \<^verbatim>\<open>json.Marshal\<close> writes structs.\<close>

fun print_json :: "json \<Rightarrow> gostring"
and print_elems :: "json list \<Rightarrow> gostring"
and print_members :: "(gostring \<times> json) list \<Rightarrow> gostring" where
  "print_json JNull = ''null''"
| "print_json (JBool b) = (if b then ''true'' else ''false'')"
| "print_json (JNum lit) = lit"
| "print_json (JStr s) = json_string s"
| "print_json (JArr vs) = ''['' @ print_elems vs @ '']''"
| "print_json (JObj ms) = ''{'' @ print_members ms @ ''}''"
| "print_elems [] = []"
| "print_elems (v # vs) = print_json v @ (if vs = [] then [] else '','' @ print_elems vs)"
| "print_members [] = []"
| "print_members ((k, v) # ms) =
     json_string k @ '':'' @ print_json v @ (if ms = [] then [] else '','' @ print_members ms)"

text \<open>
  Printing with white space between the tokens: \<open>nl i\<close> before an element at nesting \<open>i\<close> and
  before the bracket that closes it, \<open>sp\<close> after a colon; empty containers stay closed up.
  Compact printing is one case, \<^verbatim>\<open>Encoder.SetIndent\<close> another.
\<close>

fun print_layout :: "(nat \<Rightarrow> gostring) \<Rightarrow> gostring \<Rightarrow> nat \<Rightarrow> json \<Rightarrow> gostring"
and layout_elems :: "(nat \<Rightarrow> gostring) \<Rightarrow> gostring \<Rightarrow> nat \<Rightarrow> json list \<Rightarrow> gostring"
and layout_members :: "(nat \<Rightarrow> gostring) \<Rightarrow> gostring \<Rightarrow> nat \<Rightarrow> (gostring \<times> json) list \<Rightarrow> gostring" where
  "print_layout nl sp i JNull = ''null''"
| "print_layout nl sp i (JBool b) = (if b then ''true'' else ''false'')"
| "print_layout nl sp i (JNum lit) = lit"
| "print_layout nl sp i (JStr s) = json_string s"
| "print_layout nl sp i (JArr vs) =
     (if vs = [] then ''[]'' else ''['' @ nl (Suc i) @ layout_elems nl sp (Suc i) vs @ nl i @ '']'')"
| "print_layout nl sp i (JObj ms) =
     (if ms = [] then ''{}'' else ''{'' @ nl (Suc i) @ layout_members nl sp (Suc i) ms @ nl i @ ''}'')"
| "layout_elems nl sp i [] = []"
| "layout_elems nl sp i (v # vs) =
     print_layout nl sp i v @ (if vs = [] then [] else '','' @ nl i @ layout_elems nl sp i vs)"
| "layout_members nl sp i [] = []"
| "layout_members nl sp i ((k, v) # ms) =
     json_string k @ '':'' @ sp @ print_layout nl sp i v
       @ (if ms = [] then [] else '','' @ nl i @ layout_members nl sp i ms)"

lemma layout_compact:
  "print_layout (\<lambda>_. []) [] i v = print_json v"
  "layout_elems (\<lambda>_. []) [] i vs = print_elems vs"
  "layout_members (\<lambda>_. []) [] i ms = print_members ms"
  by (induction v and vs and ms arbitrary: i and i and i rule: print_json_print_elems_print_members.induct) simp_all

section \<open>Reading strings\<close>

definition hex_digit :: "char \<Rightarrow> nat option" where
  "hex_digit c = (if snd (unhex c) then Some (unat (fst (unhex c))) else None)"

fun hex4 :: "gostring \<Rightarrow> (nat \<times> gostring) option" where
  "hex4 (a # b # c # d # s) =
     (case (hex_digit a, hex_digit b, hex_digit c, hex_digit d) of
        (Some x, Some y, Some z, Some u) \<Rightarrow> Some (((x * 16 + y) * 16 + z) * 16 + u, s)
      | _ \<Rightarrow> None)"
| "hex4 _ = None"

lemma hex4_length: "hex4 s = Some (r, s') \<Longrightarrow> length s' < length s"
  by (cases s rule: hex4.cases) (auto split: option.splits)

text \<open>\<^verbatim>\<open>utf16.DecodeRune\<close> on a surrogate pair; U+FFFD when the two do not form one.\<close>

definition utf16_pair :: "nat \<Rightarrow> nat \<Rightarrow> rune" where
  "utf16_pair r1 r2 =
     (if 0xD800 \<le> r1 \<and> r1 < 0xDC00 \<and> 0xDC00 \<le> r2 \<and> r2 < 0xE000
      then (r1 - 0xD800) * 1024 + (r2 - 0xDC00) + 0x10000 else RuneError)"

definition is_surrogate :: "nat \<Rightarrow> bool" where
  "is_surrogate r \<longleftrightarrow> 0xD800 \<le> r \<and> r < 0xE000"

definition simple_escape :: "char \<Rightarrow> char option" where
  "simple_escape e =
     (if e = CHR 0x22 \<or> e = CHR 0x5C \<or> e = CHR ''/'' then Some e
      else if e = CHR ''b'' then Some (CHR 0x08)
      else if e = CHR ''f'' then Some (CHR 0x0C)
      else if e = CHR ''n'' then Some (CHR 0x0A)
      else if e = CHR ''r'' then Some (CHR 0x0D)
      else if e = CHR ''t'' then Some (CHR 0x09)
      else None)"

text \<open>
  The rune a \<^verbatim>\<open>\u\<close> escape denotes and what follows it: a surrogate needs its partner in
  the next escape, otherwise it reads as U+FFFD on its own.
\<close>

definition unicode_escape :: "gostring \<Rightarrow> (rune \<times> gostring) option" where
  "unicode_escape s =
     (case hex4 s of
        None \<Rightarrow> None
      | Some (r, s1) \<Rightarrow>
          if is_surrogate r then
            (case (if HasPrefix s1 [CHR 0x5C, CHR ''u''] then hex4 (drop 2 s1) else None) of
               Some (r1, s2) \<Rightarrow>
                 if utf16_pair r r1 \<noteq> RuneError then Some (utf16_pair r r1, s2) else Some (RuneError, s1)
             | None \<Rightarrow> Some (RuneError, s1))
          else Some (r, s1))"

lemma unicode_escape_length:
  assumes "unicode_escape s = Some (r, s')"
  shows "length s' < length s"
proof -
  from assms obtain r0 s1 where h: "hex4 s = Some (r0, s1)"
    by (auto simp: unicode_escape_def split: option.splits)
  have "s' = s1 \<or> (\<exists>r1. hex4 (drop 2 s1) = Some (r1, s'))"
    using assms by (auto simp: unicode_escape_def h split: option.splits if_splits)
  then have "length s' \<le> length s1" using hex4_length[of "drop 2 s1"] by fastforce
  with hex4_length[OF h] show ?thesis by simp
qed

text \<open>A string literal after its opening quote: the value and the rest of the input.\<close>

function str_body :: "gostring \<Rightarrow> (gostring \<times> gostring) option" where
  "str_body [] = None"
| "str_body (c # s) =
     (if c = CHR 0x22 then Some ([], s)
      else if c = CHR 0x5C then
        (case s of
           [] \<Rightarrow> None
         | e # s1 \<Rightarrow>
             if e = CHR ''u'' then
               (case unicode_escape s1 of
                  None \<Rightarrow> None
                | Some (r, s2) \<Rightarrow> map_option (\<lambda>(v, t). (encode_rune r @ v, t)) (str_body s2))
             else
               (case simple_escape e of
                  None \<Rightarrow> None
                | Some x \<Rightarrow> map_option (\<lambda>(v, t). (x # v, t)) (str_body s1)))
      else if code_of c < 0x20 then None
      else if code_of c < 0x80 then map_option (\<lambda>(v, t). (c # v, t)) (str_body s)
      else (case decode_rune (c # s) of (r, n) \<Rightarrow>
              map_option (\<lambda>(v, t). (encode_rune r @ v, t)) (str_body (drop (n - 1) s))))"
  by pat_completeness auto
termination
  by (relation "measure length") (auto dest: unicode_escape_length)

declare str_body.simps(2) [simp del]

text \<open>What a reader of \<^verbatim>\<open>json_string s\<close> gets: invalid bytes read as U+FFFD.\<close>

definition coerce_utf8 :: "gostring \<Rightarrow> gostring" where
  "coerce_utf8 s = encode_runes (runes s)"

lemma coerce_utf8_valid: "ValidString s \<Longrightarrow> coerce_utf8 s = s"
  by (simp add: coerce_utf8_def encode_runes_runes)

lemma coerce_utf8_Nil [simp]: "coerce_utf8 [] = []"
  by (simp add: coerce_utf8_def)

lemma coerce_utf8_ascii: "code_of b < 0x80 \<Longrightarrow> coerce_utf8 (b # s) = b # coerce_utf8 s"
  by (simp add: coerce_utf8_def decode_rune.simps(2) encode_rune_def encode_valid_def valid_rune_def)

lemma hex_lower_unhex_table: "list_all (\<lambda>d. hex_digit (hex_lower d) = Some d) [0..<16]"
  by code_simp

lemma hex_digit_hex_lower: "d < 16 \<Longrightarrow> hex_digit (hex_lower d) = Some d"
  using hex_lower_unhex_table by (simp add: list_all_iff)

lemma hex_digit_0: "hex_digit (CHR ''0'') = Some 0"
  by (simp add: hex_digit_def unhex_def)

lemma str_body_ascii:
  assumes "code_of b < 0x80"
  shows "str_body (json_escape_ascii b @ s) = map_option (\<lambda>(v, t). (b # v, t)) (str_body s)"
proof -
  consider "json_safe b" | "b \<in> {CHR 0x22, CHR 0x5C, CHR 0x08, CHR 0x0C, CHR 0x0A, CHR 0x0D, CHR 0x09}"
    | "\<not> json_safe b" "b \<notin> {CHR 0x22, CHR 0x5C, CHR 0x08, CHR 0x0C, CHR 0x0A, CHR 0x0D, CHR 0x09}"
    by blast
  then show ?thesis
  proof cases
    case 1
    then show ?thesis
      by (simp add: json_escape_ascii_def json_safe_def str_body.simps(2))
  next
    case 2
    then show ?thesis
      by (auto simp: json_escape_ascii_def json_safe_def str_body.simps(2) simple_escape_def)
  next
    case 3
    have n: "code_of b div 16 < 16" "code_of b mod 16 < 16" using assms by (simp_all add: less_mult_imp_div_less)
    have e: "encode_rune (code_of b) = [b]"
      using assms by (simp add: encode_rune_def encode_valid_def valid_rune_def)
    from n assms have "unicode_escape (CHR ''0'' # CHR ''0'' # hex_lower (code_of b div 16) # hex_lower (code_of b mod 16) # s)
        = Some (code_of b, s)"
      by (simp add: unicode_escape_def hex_digit_hex_lower hex_digit_0 is_surrogate_def)
    with 3 e show ?thesis
      by (simp add: json_escape_ascii_def str_body.simps(2))
  qed
qed

lemma encode_rune_lead:
  assumes "valid_rune r" "0x80 \<le> r"
  obtains c t where "encode_rune r = c # t" "0x80 \<le> code_of c"
proof -
  obtain c t where e: "encode_rune r = c # t" by (cases "encode_rune r") auto
  have "0x80 \<le> code_of c"
  proof (rule ccontr)
    assume "\<not> 0x80 \<le> code_of c"
    with decode_encode_rune[OF assms(1), of "[]"] e have "r = code_of c"
      by (simp add: decode_rune.simps(2))
    with assms(2) \<open>\<not> 0x80 \<le> code_of c\<close> show False by simp
  qed
  with e that show thesis by blast
qed

lemma str_body_rune:
  assumes "valid_rune r" "0x80 \<le> r"
  shows "str_body (encode_rune r @ s) = map_option (\<lambda>(v, t). (encode_rune r @ v, t)) (str_body s)"
proof -
  obtain c t where e: "encode_rune r = c # t" "0x80 \<le> code_of c"
    by (rule encode_rune_lead[OF assms])
  have "decode_rune (c # t @ s) = (r, Suc (length t))"
    using decode_encode_rune[OF assms(1), of s] by (simp add: e)
  moreover have "c \<noteq> CHR 0x22" "c \<noteq> CHR 0x5C" using e(2) by auto
  ultimately show ?thesis using e by (simp add: str_body.simps(2))
qed

lemma unicode_escape_fffd: "unicode_escape (''fffd'' @ s) = Some (RuneError, s)"
  by (simp add: unicode_escape_def hex_digit_def unhex_def is_surrogate_def RuneError_def)

lemma unicode_escape_2028:
  "r = 0x2028 \<or> r = 0x2029 \<Longrightarrow> unicode_escape (''202'' @ hex_lower (r mod 16) # s) = Some (r, s)"
  by (auto simp: unicode_escape_def hex_digit_hex_lower is_surrogate_def) (simp_all add: hex_digit_def unhex_def is_surrogate_def)

lemma str_body_json_body:
  "str_body (json_body s @ CHR 0x22 # rest) = Some (coerce_utf8 s, rest)"
proof (induction s rule: json_body.induct)
  case 1
  then show ?case by (simp add: str_body.simps(2))
next
  case (2 b s)
  show ?case
  proof (cases "code_of b < 0x80")
    case True
    with 2(1) show ?thesis by (simp add: str_body_ascii coerce_utf8_ascii)
  next
    case False
    obtain r n where d: "decode_rune (b # s) = (r, n)" by force
    with 2(2) False have ih: "str_body (json_body (drop (n - 1) s) @ CHR 0x22 # rest)
        = Some (coerce_utf8 (drop (n - 1) s), rest)" by simp
    have co: "coerce_utf8 (b # s) = encode_rune r @ coerce_utf8 (drop (n - 1) s)"
      by (simp add: coerce_utf8_def d)
    consider "r = RuneError \<and> n = 1" | "\<not> (r = RuneError \<and> n = 1)" "r = 0x2028 \<or> r = 0x2029"
      | "\<not> (r = RuneError \<and> n = 1)" "\<not> (r = 0x2028 \<or> r = 0x2029)" by blast
    then show ?thesis
    proof cases
      case 1
      with False d ih co show ?thesis
        using unicode_escape_fffd by (simp add: str_body.simps(2))
    next
      case 2
      then have "r \<noteq> RuneError" by (auto simp: RuneError_def)
      with 2 False d ih co show ?thesis
        using unicode_escape_2028[OF 2(2)] by (simp add: str_body.simps(2))
    next
      case 3
      from decode_rune_cases[OF d] 3(1) have v: "valid_rune r" "n = length (encode_rune r)"
        and e: "b # s = encode_rune r @ drop n (b # s)" by blast+
      have tk: "take n (b # s) = encode_rune r" using e v(2) by (metis append_eq_conv_conj)
      have "0x80 \<le> r"
      proof (rule ccontr)
        assume "\<not> 0x80 \<le> r"
        with v(1) have "encode_rune r = [char_of r]" by (simp add: encode_rune_def encode_valid_def)
        with e \<open>\<not> 0x80 \<le> r\<close> False show False by simp
      qed
      with 3 False d ih co tk v(1) show ?thesis by (auto simp: str_body_rune)
    qed
  qed
qed

text \<open>The encoder never writes a control byte, so no newline and no carriage return.\<close>

lemma hex_lower_printable: "d < 16 \<Longrightarrow> 0x20 \<le> code_of (hex_lower d)"
  by (simp add: hex_lower_code)

lemma json_escape_ascii_printable: "list_all (\<lambda>c. 0x20 \<le> code_of c) (json_escape_ascii b)"
proof -
  have n: "code_of b div 16 < 16" "code_of b mod 16 < 16"
    using code_of_less_256[of b] by (simp_all add: less_mult_imp_div_less)
  consider "json_safe b" | "\<not> json_safe b" "b = CHR 0x5C \<or> b = CHR 0x22"
    | "\<not> json_safe b" "\<not> (b = CHR 0x5C \<or> b = CHR 0x22)" by blast
  then show ?thesis
  proof cases
    case 1
    then show ?thesis by (simp add: json_escape_ascii_def) (simp add: json_safe_def)
  next
    case 2
    then show ?thesis by (elim disjE) (simp_all add: json_escape_ascii_def)
  next
    case 3
    then show ?thesis
      by (simp add: json_escape_ascii_def hex_lower_printable[OF n(1)] hex_lower_printable[OF n(2)])
  qed
qed

lemma json_body_printable: "c \<in> set (json_body s) \<Longrightarrow> 0x20 \<le> code_of c"
proof (induction s rule: json_body.induct)
  case (2 b s)
  show ?case
  proof (cases "code_of b < 0x80")
    case True
    with 2 json_escape_ascii_printable[of b] show ?thesis by (auto simp: list_all_iff)
  next
    case False
    obtain r n where d: "decode_rune (b # s) = (r, n)" by force
    from 2(3) False d consider "c \<in> set (CHR 0x5C # ''ufffd'')" | "c \<in> set (CHR 0x5C # ''u202'' @ [hex_lower (r mod 16)])"
      | "c \<in> set (take n (b # s))" "\<not> (r = RuneError \<and> n = 1)" | "c \<in> set (json_body (drop (n - 1) s))"
      by (auto split: if_splits)
    then show ?thesis
    proof cases
      case 1
      then show ?thesis by auto
    next
      case 2
      then show ?thesis using hex_lower_printable[of "r mod 16"] by auto
    next
      case 3
      from decode_rune_cases[OF d] 3(2) have "n = length (encode_rune r)" "b # s = encode_rune r @ drop n (b # s)"
        by blast+
      then have tk: "take n (b # s) = encode_rune r" by (metis append_eq_conv_conj)
      have "0x80 \<le> code_of c"
      proof (rule ccontr)
        assume lt: "\<not> 0x80 \<le> code_of c"
        with ascii_in_encode_rune[of c r] 3(1) tk have "r = code_of c" "valid_rune r" by auto
        then have "encode_rune r = [c]" using lt by (simp add: encode_rune_def encode_valid_def)
        with tk False lt \<open>n = length (encode_rune r)\<close> show False by simp
      qed
      then show ?thesis by simp
    next
      case 4
      with 2(2) False d show ?thesis by simp
    qed
  qed
qed simp

section \<open>Reading values\<close>

definition is_ws :: "char \<Rightarrow> bool" where
  "is_ws c \<longleftrightarrow> c = CHR '' '' \<or> c = CHR 0x09 \<or> c = CHR 0x0A \<or> c = CHR 0x0D"

definition skip_ws :: "gostring \<Rightarrow> gostring" where
  "skip_ws s = dropWhile is_ws s"

text \<open>Numbers: \<^verbatim>\<open>-?(0|[1-9][0-9]*)(\.[0-9]+)?([eE][+-]?[0-9]+)?\<close>.\<close>

definition scan_digits :: "gostring \<Rightarrow> (gostring \<times> gostring) option" where
  "scan_digits s =
     (let d = takeWhile is_digit s in if d = [] then None else Some (d, drop (length d) s))"

definition scan_int :: "gostring \<Rightarrow> (gostring \<times> gostring) option" where
  "scan_int s =
     (case s of
        c # t \<Rightarrow> if c = CHR ''0'' then Some ([c], t) else scan_digits s
      | [] \<Rightarrow> None)"

definition scan_frac :: "gostring \<Rightarrow> (gostring \<times> gostring) option" where
  "scan_frac s =
     (if HasPrefix s ''.'' then map_option (\<lambda>(d, t). (CHR ''.'' # d, t)) (scan_digits (tl s))
      else Some ([], s))"

definition scan_exp :: "gostring \<Rightarrow> (gostring \<times> gostring) option" where
  "scan_exp s =
     (case s of
        e # t \<Rightarrow>
          if e = CHR ''e'' \<or> e = CHR ''E'' then
            (case t of
               g # t' \<Rightarrow>
                 if g = CHR ''+'' \<or> g = CHR ''-'' then map_option (\<lambda>(d, u). (e # g # d, u)) (scan_digits t')
                 else map_option (\<lambda>(d, u). (e # d, u)) (scan_digits t)
             | [] \<Rightarrow> None)
          else Some ([], s)
      | [] \<Rightarrow> Some ([], s))"

definition scan_number :: "gostring \<Rightarrow> (gostring \<times> gostring) option" where
  "scan_number s =
     (let neg = (if HasPrefix s ''-'' then ''-'' else []) in
      case scan_int (drop (length neg) s) of
        None \<Rightarrow> None
      | Some (i, s1) \<Rightarrow>
          (case scan_frac s1 of
             None \<Rightarrow> None
           | Some (f, s2) \<Rightarrow> map_option (\<lambda>(x, s3). (neg @ i @ f @ x, s3)) (scan_exp s2)))"

definition maxNestingDepth :: nat where
  "maxNestingDepth = 10000"

text \<open>
  The grammar of \<^verbatim>\<open>encoding/json\<close>'s scanner.  The first argument is fuel (each call
  consumes input; \<open>pval_fuel\<close> shows that twice the input length plus one is enough), the second the number of open
  containers.
\<close>

fun pval :: "nat \<Rightarrow> nat \<Rightarrow> gostring \<Rightarrow> (json \<times> gostring) option"
and pelems :: "nat \<Rightarrow> nat \<Rightarrow> gostring \<Rightarrow> (json list \<times> gostring) option"
and pmembers :: "nat \<Rightarrow> nat \<Rightarrow> gostring \<Rightarrow> ((gostring \<times> json) list \<times> gostring) option" where
  "pval 0 d s = None"
| "pval (Suc n) d s =
     (case skip_ws s of
        [] \<Rightarrow> None
      | c # t \<Rightarrow>
          if c = CHR 0x22 then map_option (\<lambda>(v, u). (JStr v, u)) (str_body t)
          else if c = CHR ''{'' then
            (if maxNestingDepth \<le> d then None
             else if HasPrefix (skip_ws t) ''}'' then Some (JObj [], tl (skip_ws t))
             else map_option (\<lambda>(ms, u). (JObj ms, u)) (pmembers n (Suc d) t))
          else if c = CHR ''['' then
            (if maxNestingDepth \<le> d then None
             else if HasPrefix (skip_ws t) '']'' then Some (JArr [], tl (skip_ws t))
             else map_option (\<lambda>(vs, u). (JArr vs, u)) (pelems n (Suc d) t))
          else if HasPrefix (c # t) ''true'' then Some (JBool True, drop 4 (c # t))
          else if HasPrefix (c # t) ''false'' then Some (JBool False, drop 5 (c # t))
          else if HasPrefix (c # t) ''null'' then Some (JNull, drop 4 (c # t))
          else map_option (\<lambda>(lit, u). (JNum lit, u)) (scan_number (c # t)))"
| "pelems 0 d s = None"
| "pelems (Suc n) d s =
     (case pval n d s of
        None \<Rightarrow> None
      | Some (v, t) \<Rightarrow>
          (case skip_ws t of
             [] \<Rightarrow> None
           | c # u \<Rightarrow>
               if c = CHR '','' then map_option (\<lambda>(vs, r). (v # vs, r)) (pelems n d u)
               else if c = CHR '']'' then Some ([v], u)
               else None))"
| "pmembers 0 d s = None"
| "pmembers (Suc n) d s =
     (case skip_ws s of
        [] \<Rightarrow> None
      | q # s1 \<Rightarrow>
          if q \<noteq> CHR 0x22 then None
          else (case str_body s1 of
             None \<Rightarrow> None
           | Some (k, s2) \<Rightarrow>
               (case skip_ws s2 of
                  [] \<Rightarrow> None
                | x # s3 \<Rightarrow>
                    if x \<noteq> CHR '':'' then None
                    else (case pval n d s3 of
                       None \<Rightarrow> None
                     | Some (v, t) \<Rightarrow>
                         (case skip_ws t of
                            [] \<Rightarrow> None
                          | c # u \<Rightarrow>
                              if c = CHR '','' then map_option (\<lambda>(ms, r). ((k, v) # ms, r)) (pmembers n d u)
                              else if c = CHR ''}'' then Some ([(k, v)], u)
                              else None)))))"

definition parse_json :: "gostring \<Rightarrow> json option" where
  "parse_json s =
     (case pval (Suc (2 * length s)) 0 s of
        Some (v, t) \<Rightarrow> if skip_ws t = [] then Some v else None
      | None \<Rightarrow> None)"

section \<open>Reading what was printed\<close>

text \<open>Number literals the package prints: a decimal natural without a leading zero.\<close>

definition nat_literal :: "gostring \<Rightarrow> bool" where
  "nat_literal lit \<longleftrightarrow> lit \<noteq> [] \<and> list_all is_digit lit \<and> (hd lit = CHR ''0'' \<longrightarrow> length lit = 1)"

fun printable :: "json \<Rightarrow> bool" where
  "printable (JNum lit) = nat_literal lit"
| "printable (JArr vs) = list_all printable vs"
| "printable (JObj ms) = list_all (\<lambda>(k, v). printable v) ms"
| "printable _ = True"

fun coerce_json :: "json \<Rightarrow> json" where
  "coerce_json (JStr s) = JStr (coerce_utf8 s)"
| "coerce_json (JArr vs) = JArr (map coerce_json vs)"
| "coerce_json (JObj ms) = JObj (map (\<lambda>(k, v). (coerce_utf8 k, coerce_json v)) ms)"
| "coerce_json v = v"

text \<open>The nesting of a value, counted as open containers.\<close>

fun depth :: "json \<Rightarrow> nat" where
  "depth (JArr vs) = Suc (foldr max (map depth vs) 0)"
| "depth (JObj ms) = Suc (foldr max (map (\<lambda>(k, v). depth v) ms) 0)"
| "depth _ = 0"

definition ends_token :: "gostring \<Rightarrow> bool" where
  "ends_token s \<longleftrightarrow> s = [] \<or> hd s \<in> {CHR '','', CHR '']'', CHR ''}''} \<or> is_ws (hd s)"

lemma scan_number_nat:
  assumes "nat_literal lit" "ends_token rest"
  shows "scan_number (lit @ rest) = Some (lit, rest)"
proof -
  obtain c t where lit: "lit = c # t" using assms(1) by (cases lit) (auto simp: nat_literal_def)
  have dig: "is_digit c" "list_all is_digit t" using assms(1) by (auto simp: nat_literal_def lit)
  have stop: "rest = [] \<or> \<not> is_digit (hd rest)" "\<not> HasPrefix rest ''.''" "scan_exp rest = Some ([], rest)"
    using assms(2) by (cases rest; auto simp: ends_token_def is_digit_def is_ws_def scan_exp_def)+
  have "takeWhile is_digit (t @ rest) = t"
  proof -
    have "takeWhile is_digit rest = []" using stop(1) by (cases rest) auto
    then show ?thesis using dig(2) by (subst takeWhile_append2) (auto simp: list_all_iff)
  qed
  then have "scan_int (c # t @ rest) = Some (lit, rest)"
    using assms(1) dig by (auto simp: scan_int_def scan_digits_def lit nat_literal_def Let_def)
  moreover have "c \<noteq> CHR ''-''" using dig(1) by (auto simp: is_digit_def)
  ultimately show ?thesis using stop(2,3)
    by (simp add: scan_number_def lit scan_frac_def)
qed

lemma skip_ws_Cons: "\<not> is_ws c \<Longrightarrow> skip_ws (c # s) = c # s"
  by (simp add: skip_ws_def)

lemma not_ws [simp]:
  "\<not> is_ws (CHR 0x22)" "\<not> is_ws (CHR ''{'')" "\<not> is_ws (CHR ''}'')" "\<not> is_ws (CHR ''['')"
  "\<not> is_ws (CHR '']'')" "\<not> is_ws (CHR '','')" "\<not> is_ws (CHR '':'')" "\<not> is_ws (CHR ''t'')"
  "\<not> is_ws (CHR ''f'')" "\<not> is_ws (CHR ''n'')"
  by (simp_all add: is_ws_def)

lemma skip_ws_append: "list_all is_ws pre \<Longrightarrow> skip_ws (pre @ s) = skip_ws s"
  by (auto simp: skip_ws_def list_all_iff dropWhile_append2)

lemma layout_head_ex: "printable v \<Longrightarrow> \<exists>c t. print_layout nl sp i v = c # t \<and> \<not> is_ws c \<and> c \<noteq> CHR '']''"
  by (cases v) (auto simp: is_ws_def json_string_def nat_literal_def neq_Nil_conv is_digit_def)

lemma layout_head:
  assumes "printable v"
  obtains c t where "print_layout nl sp i v = c # t" "\<not> is_ws c" "c \<noteq> CHR '']''"
  using layout_head_ex [OF assms] by blast

lemma layout_not_Nil: "printable v \<Longrightarrow> 1 \<le> length (print_layout nl sp i v)"
  using layout_head [of v nl sp i] by (metis One_nat_def Suc_le_eq length_greater_0_conv list.distinct(1))

lemma skip_ws_layout:
  "printable v \<Longrightarrow> list_all is_ws pre \<Longrightarrow>
     skip_ws (pre @ print_layout nl sp i v @ rest) = print_layout nl sp i v @ rest"
  by (rule layout_head [of v nl sp i]) (simp_all add: skip_ws_append skip_ws_Cons)

lemma foldr_max_le: "foldr max xs (0 :: nat) \<le> k \<longleftrightarrow> (\<forall>x \<in> set xs. x \<le> k)"
  by (induction xs) auto

lemma digit_not_token:
  assumes "is_digit c"
  shows "c \<noteq> CHR 0x22" "c \<noteq> CHR ''{''" "c \<noteq> CHR ''[''" "c \<noteq> CHR '']''"
    "c \<noteq> CHR ''t''" "c \<noteq> CHR ''f''" "c \<noteq> CHR ''n''" "\<not> is_ws c"
  using assms by (auto simp: is_digit_def is_ws_def)

lemma ends_token_simps [simp]:
  "ends_token []" "ends_token (CHR '','' # s)" "ends_token (CHR '']'' # s)" "ends_token (CHR ''}'' # s)"
  by (simp_all add: ends_token_def)

lemma ends_token_close:
  "list_all is_ws post \<Longrightarrow> ends_token (post @ CHR '']'' # s)" "list_all is_ws post \<Longrightarrow> ends_token (post @ CHR ''}'' # s)"
  by (cases post; simp add: ends_token_def)+

lemma pval_string:
  "list_all is_ws pre \<Longrightarrow> pval (Suc n) d (pre @ json_string s @ rest) = Some (JStr (coerce_utf8 s), rest)"
  using str_body_json_body[of s rest] by (simp add: json_string_def skip_ws_append skip_ws_Cons is_ws_def)

text \<open>White space between tokens, wherever it stands, makes no difference to the reader.\<close>

lemma pval_layout:
  assumes "\<And>i. list_all is_ws (nl i)" "list_all is_ws sp"
  shows "printable v \<Longrightarrow> d + depth v \<le> maxNestingDepth \<Longrightarrow> ends_token rest \<Longrightarrow> list_all is_ws pre \<Longrightarrow>
      length (print_layout nl sp i v) < n \<Longrightarrow>
      pval n d (pre @ print_layout nl sp i v @ rest) = Some (coerce_json v, rest)"
    and "vs \<noteq> [] \<Longrightarrow> list_all printable vs \<Longrightarrow> \<forall>v \<in> set vs. d + depth v \<le> maxNestingDepth \<Longrightarrow>
      list_all is_ws pre \<Longrightarrow> list_all is_ws post \<Longrightarrow> Suc (length (layout_elems nl sp i vs)) < n \<Longrightarrow>
      pelems n d (pre @ layout_elems nl sp i vs @ post @ CHR '']'' # rest) = Some (map coerce_json vs, rest)"
    and "ms \<noteq> [] \<Longrightarrow> list_all (\<lambda>(k, v). printable v) ms \<Longrightarrow> \<forall>(k, v) \<in> set ms. d + depth v \<le> maxNestingDepth \<Longrightarrow>
      list_all is_ws pre \<Longrightarrow> list_all is_ws post \<Longrightarrow> Suc (length (layout_members nl sp i ms)) < n \<Longrightarrow>
      pmembers n d (pre @ layout_members nl sp i ms @ post @ CHR ''}'' # rest) =
        Some (map (\<lambda>(k, v). (coerce_utf8 k, coerce_json v)) ms, rest)"
proof (induction v and vs and ms arbitrary: n d rest pre i and n d rest pre post i and n d rest pre post i
    rule: print_json_print_elems_print_members.induct)
  case 1
  then show ?case by (cases n) (simp_all add: skip_ws_append skip_ws_Cons)
next
  case (2 b)
  then show ?case by (cases n) (simp_all add: skip_ws_append skip_ws_Cons)
next
  case (3 lit)
  from 3(1) obtain c t where lit: "lit = c # t" "is_digit c"
    by (cases lit) (auto simp: nat_literal_def)
  obtain m where "n = Suc m" using 3(5) by (cases n) auto
  then show ?case
    using scan_number_nat[of lit rest] 3 lit digit_not_token[OF lit(2)] by (simp add: skip_ws_append skip_ws_Cons)
next
  case (4 s)
  then obtain m where "n = Suc m" by (cases n) auto
  with 4(4) show ?case by (simp only: print_layout.simps coerce_json.simps pval_string)
next
  case (5 vs)
  then obtain m where n: "n = Suc m" by (cases n) auto
  have deep: "\<not> maxNestingDepth \<le> d" using 5(3) by simp
  show ?case
  proof (cases "vs = []")
    case True
    with n deep 5(5) show ?thesis by (simp add: skip_ws_append skip_ws_Cons)
  next
    case False
    then obtain v vs' where vs: "vs = v # vs'" by (cases vs) auto
    let ?t = "layout_elems nl sp (Suc i) vs @ nl i @ CHR '']'' # rest"
    have "printable v" using 5(2) by (simp add: vs)
    then obtain c t where head: "print_layout nl sp (Suc i) v = c # t" "\<not> is_ws c" "c \<noteq> CHR '']''"
      by (rule layout_head)
    have skip: "skip_ws (nl (Suc i) @ ?t) = ?t" and no_close: "\<not> HasPrefix ?t '']''"
      using head by (simp_all add: vs skip_ws_append assms(1) skip_ws_Cons)
    have "foldr max (map depth vs) 0 \<le> maxNestingDepth - Suc d" using 5(3) by simp
    then have dp: "\<forall>v \<in> set vs. Suc d + depth v \<le> maxNestingDepth"
      using deep by (fastforce simp: foldr_max_le)
    have "pelems m (Suc d) (nl (Suc i) @ ?t) = Some (map coerce_json vs, rest)"
      using 5 False n dp assms(1) by (intro 5(1)) auto
    with skip no_close deep n False 5(5) show ?thesis by (simp add: skip_ws_append skip_ws_Cons)
  qed
next
  case (6 ms)
  then obtain m where n: "n = Suc m" by (cases n) auto
  have deep: "\<not> maxNestingDepth \<le> d" using 6(3) by simp
  show ?case
  proof (cases "ms = []")
    case True
    with n deep 6(5) show ?thesis by (simp add: skip_ws_append skip_ws_Cons)
  next
    case False
    then obtain k v ms' where ms: "ms = (k, v) # ms'" by (cases ms) auto
    let ?t = "layout_members nl sp (Suc i) ms @ nl i @ CHR ''}'' # rest"
    have skip: "skip_ws (nl (Suc i) @ ?t) = ?t" and no_close: "\<not> HasPrefix ?t ''}''"
      by (simp_all add: ms json_string_def skip_ws_append assms(1) skip_ws_Cons)
    have "foldr max (map (\<lambda>(k, v). depth v) ms) 0 \<le> maxNestingDepth - Suc d" using 6(3) by simp
    then have dp: "\<forall>(k, v) \<in> set ms. Suc d + depth v \<le> maxNestingDepth"
      using deep by (fastforce simp: foldr_max_le)
    have "pmembers m (Suc d) (nl (Suc i) @ ?t) =
       Some (map (\<lambda>(k, v). (coerce_utf8 k, coerce_json v)) ms, rest)"
      using 6 False n dp assms(1) by (intro 6(1)) auto
    with skip no_close deep n False 6(5) show ?thesis by (simp add: skip_ws_append skip_ws_Cons)
  qed
next
  case 7
  then show ?case by simp
next
  case (8 v vs)
  then obtain m where n: "n = Suc m" by (cases n) auto
  let ?tail = "(if vs = [] then [] else '','' @ nl i @ layout_elems nl sp i vs) @ post @ CHR '']'' # rest"
  have pv: "printable v" using 8(4) by simp
  have "ends_token ?tail" using 8(7) by (simp add: ends_token_close)
  then have "pval m d (pre @ print_layout nl sp i v @ ?tail) = Some (coerce_json v, ?tail)"
    using 8 n by (intro 8(1)) auto
  moreover have "pelems m d (nl i @ layout_elems nl sp i vs @ post @ CHR '']'' # rest) = Some (map coerce_json vs, rest)"
    if "vs \<noteq> []"
    using 8 n that layout_not_Nil[OF pv, of nl sp i] assms(1) by (intro 8(2)) auto
  ultimately show ?case using n 8(7) by (simp add: skip_ws_append skip_ws_Cons)
next
  case 9
  then show ?case by simp
next
  case (10 k v ms)
  then obtain m where n: "n = Suc m" by (cases n) auto
  let ?tail = "(if ms = [] then [] else '','' @ nl i @ layout_members nl sp i ms) @ post @ CHR ''}'' # rest"
  have pv: "printable v" using 10(4) by simp
  have "ends_token ?tail" using 10(7) by (simp add: ends_token_close)
  then have "pval m d (sp @ print_layout nl sp i v @ ?tail) = Some (coerce_json v, ?tail)"
    using 10 n assms(2) by (intro 10(1)) auto
  moreover have "pmembers m d (nl i @ layout_members nl sp i ms @ post @ CHR ''}'' # rest) =
       Some (map (\<lambda>(k, v). (coerce_utf8 k, coerce_json v)) ms, rest)" if "ms \<noteq> []"
    using 10 n that layout_not_Nil[OF pv, of nl sp i] assms(1) by (intro 10(2)) (auto simp: json_string_def)
  moreover have "str_body (json_body k @ CHR 0x22 # CHR '':'' # sp @ print_layout nl sp i v @ ?tail) =
      Some (coerce_utf8 k, CHR '':'' # sp @ print_layout nl sp i v @ ?tail)"
    by (rule str_body_json_body)
  ultimately show ?case using n 10(6,7) by (simp add: json_string_def skip_ws_append skip_ws_Cons)
qed

lemma parse_layout:
  assumes "\<And>i. list_all is_ws (nl i)" "list_all is_ws sp" "list_all is_ws post"
    and "printable v" "depth v \<le> maxNestingDepth"
  shows "parse_json (print_layout nl sp i v @ post) = Some (coerce_json v)"
proof -
  have "ends_token post" using assms(3) by (cases post) (simp_all add: ends_token_def)
  then have "pval (Suc (2 * length (print_layout nl sp i v @ post))) 0 ([] @ print_layout nl sp i v @ post) =
      Some (coerce_json v, post)"
    using assms by (intro pval_layout(1)) simp_all
  moreover have "skip_ws post = []" using skip_ws_append [OF assms(3), of "[]"] by (simp add: skip_ws_def)
  ultimately show ?thesis by (simp add: parse_json_def)
qed

lemma parse_print:
  assumes "printable v" "depth v \<le> maxNestingDepth"
  shows "parse_json (print_json v) = Some (coerce_json v)"
  using parse_layout [of "\<lambda>_. []" "[]" "[]" v 0] assms by (simp add: layout_compact)

section \<open>Fuel\<close>

text \<open>Every reader consumes input, which is why the fuel of \<open>parse_json\<close> cannot run out.\<close>

lemma skip_ws_length: "length (skip_ws s) \<le> length s"
  by (simp add: skip_ws_def length_dropWhile_le)

lemma str_body_length: "str_body s = Some (v, t) \<Longrightarrow> length t < length s"
proof (induction s arbitrary: v rule: str_body.induct)
  case (2 c s)
  show ?case
  proof (cases "c = CHR 0x22 \<or> c = CHR 0x5C \<or> code_of c < 0x80")
    case True
    then show ?thesis
      using 2 by (auto simp: str_body.simps(2) split: if_splits list.splits option.splits
          dest!: unicode_escape_length) (fastforce dest: unicode_escape_length)+
  next
    case False
    obtain r n where d: "decode_rune (c # s) = (r, n)" by force
    with False 2(5) obtain v' where "str_body (drop (n - 1) s) = Some (v', t)"
      by (auto simp: str_body.simps(2) split: if_splits)
    with 2(4)[of r n v'] False d show ?thesis by (auto split: if_splits)
  qed
qed simp

lemma scan_digits_length: "scan_digits s = Some (x, t) \<Longrightarrow> length t < length s"
  using takeWhile_dropWhile_id[of is_digit s]
  by (auto simp: scan_digits_def Let_def split: if_splits)
    (metis diff_less length_greater_0_conv length_takeWhile_le less_le_trans)

lemma scan_int_length: "scan_int s = Some (x, t) \<Longrightarrow> length t < length s"
  by (auto simp: scan_int_def split: list.splits if_splits dest: scan_digits_length)

lemma scan_frac_length: "scan_frac s = Some (x, t) \<Longrightarrow> length t \<le> length s"
  by (auto simp: scan_frac_def split: if_splits dest!: scan_digits_length)

lemma scan_exp_length: "scan_exp s = Some (x, t) \<Longrightarrow> length t \<le> length s"
  by (auto simp: scan_exp_def split: list.splits if_splits dest!: scan_digits_length)

lemma scan_number_length:
  assumes "scan_number s = Some (x, t)"
  shows "length t < length s"
proof -
  define neg where "neg = (if HasPrefix s ''-'' then ''-'' else [])"
  from assms obtain i s1 f s2 e where "scan_int (drop (length neg) s) = Some (i, s1)"
    "scan_frac s1 = Some (f, s2)" "scan_exp s2 = Some (e, t)"
    by (auto simp: scan_number_def Let_def neg_def split: option.splits if_splits)
  then show ?thesis
    using scan_int_length scan_frac_length scan_exp_length by fastforce
qed

lemma skip_ws_Cons_length: "skip_ws s = c # t \<Longrightarrow> length t < length s"
  using skip_ws_length[of s] by simp

lemma tl_skip_ws_length: "HasPrefix (skip_ws t) [c] \<Longrightarrow> length (tl (skip_ws t)) < length t"
  using skip_ws_length[of t] by (cases "skip_ws t") auto

lemma pmembers_SucE:
  assumes "pmembers (Suc n) d s = Some (ms, t)"
  obtains k v s1 s2 s3 u c w where "skip_ws s = CHR 0x22 # s1" "str_body s1 = Some (k, s2)"
    "skip_ws s2 = CHR '':'' # s3" "pval n d s3 = Some (v, u)" "skip_ws u = c # w"
    "(c = CHR ''}'' \<and> t = w) \<or> (\<exists>ms'. pmembers n d w = Some (ms', t))"
proof -
  from assms obtain q s1 where q: "skip_ws s = q # s1" by (cases "skip_ws s") auto
  with assms have q': "q = CHR 0x22" by (auto split: if_splits)
  with assms q obtain k s2 where k: "str_body s1 = Some (k, s2)" by (auto split: option.splits)
  with assms q q' obtain x s3 where x: "skip_ws s2 = x # s3" by (cases "skip_ws s2") auto
  with assms q q' k have x': "x = CHR '':''" by (auto split: if_splits)
  with assms q q' k x obtain v u where v: "pval n d s3 = Some (v, u)" by (auto split: option.splits)
  with assms q q' k x x' obtain c w where c: "skip_ws u = c # w" by (cases "skip_ws u") auto
  have "(c = CHR ''}'' \<and> t = w) \<or> (\<exists>ms'. pmembers n d w = Some (ms', t))"
    using assms q q' k x x' v c by (auto split: if_splits)
  with q q' k x x' v c that show thesis by blast
qed

lemma pelems_SucE:
  assumes "pelems (Suc n) d s = Some (vs, t)"
  obtains v u c w where "pval n d s = Some (v, u)" "skip_ws u = c # w"
    "(c = CHR '']'' \<and> t = w) \<or> (\<exists>vs'. pelems n d w = Some (vs', t))"
proof -
  from assms obtain v u where v: "pval n d s = Some (v, u)" by (auto split: option.splits)
  with assms obtain c w where c: "skip_ws u = c # w" by (cases "skip_ws u") auto
  have "(c = CHR '']'' \<and> t = w) \<or> (\<exists>vs'. pelems n d w = Some (vs', t))"
    using assms v c by (auto split: if_splits)
  with v c that show thesis by blast
qed

lemma pval_SucE:
  assumes "pval (Suc n) d s = Some (v, t)"
  obtains c u where "skip_ws s = c # u"
    "length t < length (c # u) \<or> (\<exists>ms. pmembers n (Suc d) u = Some (ms, t)) \<or> (\<exists>vs. pelems n (Suc d) u = Some (vs, t))"
proof -
  from assms obtain c u where s: "skip_ws s = c # u" by (cases "skip_ws s") auto
  have "length t < length (c # u) \<or> (\<exists>ms. pmembers n (Suc d) u = Some (ms, t)) \<or> (\<exists>vs. pelems n (Suc d) u = Some (vs, t))"
    using assms s
    by (auto split: if_splits dest: str_body_length tl_skip_ws_length scan_number_length)
  with s that show thesis by blast
qed

lemma parser_length:
  "(\<forall>d s v t. pval n d s = Some (v, t) \<longrightarrow> length t < length s) \<and>
   (\<forall>d s vs t. pelems n d s = Some (vs, t) \<longrightarrow> length t < length s) \<and>
   (\<forall>d s ms t. pmembers n d s = Some (ms, t) \<longrightarrow> length t < length s)"
proof (induction n)
  case (Suc n)
  have "length t < length s" if "pval (Suc n) d s = Some (v, t)" for d s v t
    using that by (rule pval_SucE) (use Suc skip_ws_length[of s] in fastforce)
  moreover have "length t < length s" if "pelems (Suc n) d s = Some (vs, t)" for d s vs t
    using that by (rule pelems_SucE) (use Suc skip_ws_Cons_length in fastforce)
  moreover have "length t < length s" if a: "pmembers (Suc n) d s = Some (ms, t)" for d s ms t
  proof -
    from a obtain k v s1 s2 s3 u c w where
      m: "skip_ws s = CHR 0x22 # s1" "str_body s1 = Some (k, s2)" "skip_ws s2 = CHR '':'' # s3"
         "pval n d s3 = Some (v, u)" "skip_ws u = c # w" and
      t: "(c = CHR ''}'' \<and> t = w) \<or> (\<exists>ms'. pmembers n d w = Some (ms', t))" by (rule pmembers_SucE)
    have "length u < length s3" using Suc m(4) by blast
    moreover have "length t \<le> length w" using t Suc by fastforce
    ultimately show ?thesis
      using skip_ws_Cons_length[OF m(1)] str_body_length[OF m(2)] skip_ws_Cons_length[OF m(3)]
        skip_ws_Cons_length[OF m(5)] by linarith
  qed
  ultimately show ?case by blast
qed simp

lemmas pval_length = parser_length [THEN conjunct1, rule_format]

text \<open>
  Once the fuel exceeds twice the remaining input, one more unit changes nothing: the result,
  success or failure, is decided by the input alone.
\<close>

lemma parser_fuel_step:
  "(\<forall>d s. 2 * length s + 1 \<le> n \<longrightarrow> pval (Suc n) d s = pval n d s) \<and>
   (\<forall>d s. 2 * length s + 2 \<le> n \<longrightarrow> pelems (Suc n) d s = pelems n d s) \<and>
   (\<forall>d s. 2 * length s + 2 \<le> n \<longrightarrow> pmembers (Suc n) d s = pmembers n d s)"
proof (induction n)
  case (Suc n)
  have "pval (Suc (Suc n)) d s = pval (Suc n) d s" if len: "2 * length s + 1 \<le> Suc n" for d s
  proof (cases "skip_ws s")
    case (Cons c u)
    have "2 * length u + 2 \<le> n" using len skip_ws_Cons_length[OF Cons] by linarith
    with Suc have "pmembers (Suc n) (Suc d) u = pmembers n (Suc d) u" "pelems (Suc n) (Suc d) u = pelems n (Suc d) u"
      by blast+
    then show ?thesis unfolding pval.simps Cons by (simp only: list.case)
  qed simp
  moreover have "pelems (Suc (Suc n)) d s = pelems (Suc n) d s" if len: "2 * length s + 2 \<le> Suc n" for d s
  proof -
    have v: "pval (Suc n) d s = pval n d s" using Suc len by simp
    show ?thesis
    proof (cases "pval n d s")
      case (Some r)
      obtain x u where r: "r = (x, u)" by force
      show ?thesis
      proof (cases "skip_ws u")
        case (Cons c w)
        have "2 * length w + 2 \<le> n"
          using len skip_ws_Cons_length[OF Cons] pval_length[of n d s x u] Some r by simp
        with Suc have "pelems (Suc n) d w = pelems n d w" by blast
        then show ?thesis unfolding pelems.simps v Some r by (simp only: option.case prod.case Cons list.case)
      qed (simp only: pelems.simps v Some r option.case prod.case list.case)
    qed (simp only: pelems.simps v option.case)
  qed
  moreover have "pmembers (Suc (Suc n)) d s = pmembers (Suc n) d s" if len: "2 * length s + 2 \<le> Suc n" for d s
  proof -
    have v: "pval (Suc n) d s3 = pval n d s3" if "length s3 < length s" for s3
      using Suc len that by simp
    have m: "pmembers (Suc n) d w = pmembers n d w" if "length w < length s" for w
      using Suc len that by simp
    show ?thesis
    proof (cases "\<exists>s1 k s2 s3. skip_ws s = CHR 0x22 # s1 \<and> str_body s1 = Some (k, s2) \<and> skip_ws s2 = CHR '':'' # s3")
      case True
      then obtain s1 k s2 s3 where *: "skip_ws s = CHR 0x22 # s1" "str_body s1 = Some (k, s2)"
        "skip_ws s2 = CHR '':'' # s3" by blast
      have l3: "length s3 < length s"
        using skip_ws_Cons_length[OF *(1)] str_body_length[OF *(2)] skip_ws_Cons_length[OF *(3)] by linarith
      show ?thesis
      proof (cases "pval n d s3")
        case (Some r)
        obtain x u where r: "r = (x, u)" by force
        show ?thesis
        proof (cases "skip_ws u")
          case (Cons c w)
          have "length w < length s"
            using l3 skip_ws_Cons_length[OF Cons] pval_length[of n d s3 x u] Some r by simp
          from m[OF this] show ?thesis using * v[OF l3] Some r Cons by (simp del: pval.simps pelems.simps)
        qed (use * v[OF l3] Some r in simp)
      qed (use * v[OF l3] in simp)
    next
      case False
      have "pmembers (Suc k) d s = None" for k
      proof (cases "pmembers (Suc k) d s")
        case (Some r)
        obtain ms t where "pmembers (Suc k) d s = Some (ms, t)" using Some by (cases r) auto
        then show ?thesis by (rule pmembers_SucE) (use False in blast)
      qed
      then show ?thesis by (simp only:)
    qed
  qed
  ultimately show ?case by blast
qed simp

lemma pval_fuel:
  assumes "2 * length s + 1 \<le> n"
  shows "pval n d s = pval (Suc (2 * length s)) d s"
  using assms
proof (induction n rule: nat_induct_at_least)
  case (Suc n)
  with parser_fuel_step[of n] show ?case by simp
qed simp

section \<open>Printing as a codec\<close>

fun all_utf8 :: "json \<Rightarrow> bool" where
  "all_utf8 (JStr s) = ValidString s"
| "all_utf8 (JArr vs) = list_all all_utf8 vs"
| "all_utf8 (JObj ms) = list_all (\<lambda>(k, v). ValidString k \<and> all_utf8 v) ms"
| "all_utf8 _ = True"

lemma coerce_json_utf8: "all_utf8 v \<Longrightarrow> coerce_json v = v"
proof (induction v rule: coerce_json.induct)
  case (2 vs)
  then show ?case by (simp add: list_all_iff map_idI)
next
  case (3 ms)
  then show ?case by (force simp: list_all_iff coerce_utf8_valid intro!: map_idI)
qed (simp_all add: coerce_utf8_valid)

text \<open>Whatever bytes a text holds, the strings read from it are valid UTF-8.\<close>

lemma ValidString_Cons_ascii: "code_of c < 0x80 \<Longrightarrow> ValidString (c # s) \<longleftrightarrow> ValidString s"
  by (auto simp: decode_rune.simps(2) RuneError_def)

lemma ValidString_encode_rune: "ValidString (encode_rune r @ s) \<longleftrightarrow> ValidString s"
  using ValidString_encode_rune_append [of "if valid_rune r then r else RuneError" s]
  by (simp add: encode_rune_RuneError_subst split: if_splits)

lemma simple_escape_ascii: "simple_escape e = Some x \<Longrightarrow> code_of x < 0x80"
  by (auto simp: simple_escape_def split: if_splits)

lemma str_body_utf8: "str_body s = Some (v, t) \<Longrightarrow> ValidString v"
proof (induction s arbitrary: v rule: str_body.induct)
  case (2 c s)
  consider "c = CHR 0x22" | e s1 where "c = CHR 0x5C" "s = e # s1" | "c = CHR 0x5C" "s = []"
    | "c \<noteq> CHR 0x22" "c \<noteq> CHR 0x5C" "code_of c < 0x80" | "c \<noteq> CHR 0x22" "c \<noteq> CHR 0x5C" "\<not> code_of c < 0x80"
    by (cases s) auto
  then show ?case
  proof cases
    case 4
    with 2 show ?thesis
      by (auto simp: str_body.simps(2) ValidString_Cons_ascii simp del: ValidString.simps(2) split: if_splits)
  next
    case 5
    with 2 show ?thesis
      by (auto simp: str_body.simps(2) ValidString_encode_rune split: if_splits prod.splits)
  next
    case 2
    show ?thesis
    proof (cases "e = CHR ''u''")
      case True
      with 2 "2.prems" "2.IH"(1) [OF _ 2 True] show ?thesis
        by (auto simp: str_body.simps(2) ValidString_encode_rune split: option.splits)
    next
      case False
      with 2 "2.prems" "2.IH"(2) [OF _ 2 False] show ?thesis
        by (auto simp: str_body.simps(2) ValidString_Cons_ascii simple_escape_ascii simp del: ValidString.simps(2)
            split: option.splits)
    qed
  qed (use "2.prems" in \<open>simp_all add: str_body.simps(2)\<close>)
qed simp

lemma parser_utf8:
  "(\<forall>d s v t. pval n d s = Some (v, t) \<longrightarrow> all_utf8 v) \<and>
   (\<forall>d s vs t. pelems n d s = Some (vs, t) \<longrightarrow> list_all all_utf8 vs) \<and>
   (\<forall>d s ms t. pmembers n d s = Some (ms, t) \<longrightarrow> list_all (\<lambda>(k, v). ValidString k \<and> all_utf8 v) ms)"
proof (induction n)
  case (Suc n)
  note IH = Suc [THEN conjunct1, rule_format] Suc [THEN conjunct2, THEN conjunct1, rule_format]
    Suc [THEN conjunct2, THEN conjunct2, rule_format]
  have "all_utf8 v" if "pval (Suc n) d s = Some (v, t)" for d s v t
    using that by (cases "skip_ws s") (auto split: if_splits dest: str_body_utf8 intro: IH)
  moreover have "list_all all_utf8 vs" if "pelems (Suc n) d s = Some (vs, t)" for d s vs t
    using that by (auto split: option.splits list.splits if_splits) (blast intro: IH)+
  moreover have "list_all (\<lambda>(k, v). ValidString k \<and> all_utf8 v) ms" if "pmembers (Suc n) d s = Some (ms, t)" for d s ms t
    using that by (auto split: option.splits list.splits if_splits) (blast intro: IH str_body_utf8)+
  ultimately show ?case by blast
qed simp

lemma parse_json_utf8: "parse_json s = Some v \<Longrightarrow> all_utf8 v"
  using parser_utf8 [THEN conjunct1, rule_format]
  by (auto simp: parse_json_def simp del: pval.simps split: option.splits if_splits)

definition json_decode :: "gostring \<Rightarrow> json result" where
  "json_decode s = (case parse_json s of None \<Rightarrow> Inl (BadJSON s) | Some v \<Rightarrow> Inr v)"

definition json_ok :: "json \<Rightarrow> bool" where
  "json_ok v \<longleftrightarrow> printable v \<and> depth v \<le> maxNestingDepth \<and> all_utf8 v"

interpretation json: codec print_json json_decode json_ok
  by unfold_locales (simp add: json_decode_def json_ok_def parse_print coerce_json_utf8)

section \<open>Lengths of printed strings\<close>

lemma length_json_escape: "length (json_escape_ascii b) \<le> 6"
  by (simp add: json_escape_ascii_def)

lemma ascii_json_body: "list_all (\<lambda>c. code_of c < 0x80) s \<Longrightarrow> length (json_body s) \<le> 6 * length s"
proof (induction s)
  case (Cons c s)
  then show ?case using length_json_escape[of c] by simp
qed simp

lemma ascii_json_string: "list_all (\<lambda>c. code_of c < 0x80) s \<Longrightarrow> length (json_string s) \<le> 6 * length s + 2"
  using ascii_json_body[of s] by (simp add: json_string_def)

section \<open>Storing into Go values\<close>

text \<open>
  Object keys are matched to struct fields by \<^verbatim>\<open>foldName\<close>: ASCII letters without case,
  and the two non-ASCII runes whose case folding is an ASCII letter.  All field names here
  are ASCII, so how other runes fold does not matter.
\<close>

definition fold_rune :: "rune \<Rightarrow> rune" where
  "fold_rune r =
     (if 97 \<le> r \<and> r \<le> 122 then r - 32 else if r = 0x17F then 83 else if r = 0x212A then 75 else r)"

definition key_matches :: "gostring \<Rightarrow> gostring \<Rightarrow> bool" where
  "key_matches name k \<longleftrightarrow> map fold_rune (runes k) = map fold_rune (runes name)"

text \<open>
  Storing a value into a string field: a string replaces it, \<^verbatim>\<open>null\<close> leaves it, anything
  else is a type error (\<open>None\<close>), which fails the whole \<^verbatim>\<open>Unmarshal\<close>.
\<close>

fun store_string :: "json \<Rightarrow> gostring \<Rightarrow> gostring option" where
  "store_string (JStr s) old = Some s"
| "store_string JNull old = Some old"
| "store_string _ old = None"

text \<open>
  Decoding an object into a struct: the members are stored in order, so a repeated key
  overwrites; a \<^verbatim>\<open>null\<close> leaves the struct alone; any other value, or a member of the
  wrong type, makes \<^verbatim>\<open>Unmarshal\<close> fail.
\<close>

fun decode_members :: "(gostring \<Rightarrow> json \<Rightarrow> 'a \<Rightarrow> 'a option) \<Rightarrow> (gostring \<times> json) list \<Rightarrow> 'a \<Rightarrow> 'a option" where
  "decode_members store [] x = Some x"
| "decode_members store ((k, v) # ms) x = Option.bind (store k v x) (decode_members store ms)"

fun decode_struct :: "(gostring \<Rightarrow> json \<Rightarrow> 'a \<Rightarrow> 'a option) \<Rightarrow> json \<Rightarrow> 'a \<Rightarrow> 'a option" where
  "decode_struct store (JObj ms) x = decode_members store ms x"
| "decode_struct store JNull x = Some x"
| "decode_struct store _ x = None"

end
