(* ===== verification/Paths.thy ===== *)
theory Paths
  imports World
begin

text \<open>
  \<^verbatim>\<open>paths.go\<close>, as built for Unix: where the configuration, the registry and the sockets
  live, and the canonical form of a socket path that the auth-key file name hashes.  The
  functions of \<^verbatim>\<open>path/filepath\<close> that the file calls come first.  The lemmas show that
  canonical paths are absolute, free of dot segments and fixed by canonicalization, and
  that the default socket path always names the given process.
\<close>

section \<open>\<^verbatim>\<open>path/filepath\<close> on Unix\<close>

text \<open>
  \<^verbatim>\<open>filepath.Clean\<close> segment by segment: empty and \<^verbatim>\<open>.\<close> segments vanish, \<^verbatim>\<open>..\<close>
  removes the segment before it, vanishes at the root, and is kept at the front of a
  relative path.  The second argument is the output so far, reversed.
\<close>

fun clean_segs :: "bool \<Rightarrow> gostring list \<Rightarrow> gostring list \<Rightarrow> gostring list" where
  "clean_segs rooted out [] = rev out"
| "clean_segs rooted out (seg # segs) =
     (if seg = [] \<or> seg = ''.'' then clean_segs rooted out segs
      else if seg = ''..'' then
        (if out \<noteq> [] \<and> hd out \<noteq> ''..'' then clean_segs rooted (tl out) segs
         else if rooted then clean_segs rooted out segs
         else clean_segs rooted (seg # out) segs)
      else clean_segs rooted (seg # out) segs)"

definition IsAbs :: "gostring \<Rightarrow> bool" where
  "IsAbs p \<longleftrightarrow> HasPrefix p ''/''"

definition segments :: "gostring \<Rightarrow> gostring list" where
  "segments p = split_at (CHR ''/'') p"

definition Clean :: "gostring \<Rightarrow> gostring" where
  "Clean p =
     (let body = join_with ''/'' (clean_segs (IsAbs p) [] (segments p)) in
      if IsAbs p then ''/'' @ body else if body = [] then ''.'' else body)"

definition Join :: "gostring list \<Rightarrow> gostring" where
  "Join elems =
     (case dropWhile (\<lambda>e. e = []) elems of
        [] \<Rightarrow> []
      | es \<Rightarrow> Clean (join_with ''/'' es))"

definition Abs :: "world \<Rightarrow> gostring \<Rightarrow> oserror + gostring" where
  "Abs w p =
     (if IsAbs p then Inr (Clean p)
      else (case getwd w of Inl e \<Rightarrow> Inl e | Inr wd \<Rightarrow> Inr (Join [wd, p])))"

text \<open>\<^verbatim>\<open>filepath.Dir\<close>: everything up to the last separator, cleaned.\<close>

definition Dir :: "gostring \<Rightarrow> gostring" where
  "Dir p = Clean (rev (dropWhile (\<lambda>c. c \<noteq> CHR ''/'') (rev p)))"

section \<open>Locations\<close>

definition maxSocketPathBytes :: nat where
  "maxSocketPathBytes = 103"

definition ConfigDir :: "world \<Rightarrow> gostring result" where
  "ConfigDir w =
     (if Getenv w ''CLAUDE_CONFIG_DIR'' \<noteq> [] then Inr (Getenv w ''CLAUDE_CONFIG_DIR'')
      else and_then (UserHomeDir w) (\<lambda>home. Inr (Join [home, ''.claude''])))"

definition SessionsDir :: "world \<Rightarrow> gostring result" where
  "SessionsDir w = and_then (ConfigDir w) (\<lambda>cfg. Inr (Join [cfg, ''sessions'']))"

definition SocketsDir :: "world \<Rightarrow> gostring" where
  "SocketsDir w =
     (let base0 = Getenv w ''XDG_RUNTIME_DIR'';
          base1 = (if base0 = [] then Getenv w ''CLAUDE_CODE_TMPDIR'' else base0);
          base = (if base1 = [] then TempDir w else base1)
      in Join [base, ''cc-socks''])"

definition sock_name :: "int \<Rightarrow> gostring" where
  "sock_name pid = Itoa pid @ ''.sock''"

definition fallback_socket_path :: "world \<Rightarrow> int \<Rightarrow> gostring" where
  "fallback_socket_path w pid =
     (let prefix = Getenv w ''PREFIX'';
          fallback = (if Getenv w ''TERMUX_VERSION'' \<noteq> [] \<and> prefix \<noteq> [] then Join [prefix, ''tmp'']
                      else ''/tmp'')
      in Join [fallback, ''cc-socks-'' @ Itoa (int (getuid w)), sock_name pid])"

definition DefaultSocketPath :: "world \<Rightarrow> int \<Rightarrow> gostring" where
  "DefaultSocketPath w pid =
     (case Abs w (Join [SocketsDir w, sock_name pid]) of
        Inr p \<Rightarrow> if length p \<le> maxSocketPathBytes then p else fallback_socket_path w pid
      | Inl e \<Rightarrow> fallback_socket_path w pid)"

definition canonicalSocketPath :: "world \<Rightarrow> gostring \<Rightarrow> gostring result" where
  "canonicalSocketPath w socketPath =
     and_then (ensure (socketPath \<noteq> []) EmptySocketPath) (\<lambda>_.
     and_then (ensure (\<not> List.member (segments socketPath) ''..'') (DotDotSegment socketPath)) (\<lambda>_.
       (case Abs w socketPath of
          Inl e \<Rightarrow> Inl (ResolveFailed socketPath e)
        | Inr p \<Rightarrow> Inr p)))"

section \<open>Cleaning\<close>

definition plain_seg :: "gostring \<Rightarrow> bool" where
  "plain_seg s \<longleftrightarrow> s \<noteq> [] \<and> s \<noteq> ''.'' \<and> s \<noteq> ''..'' \<and> CHR ''/'' \<notin> set s"

lemma segments_append: "segments (a @ CHR ''/'' # b) = segments a @ segments b"
  unfolding segments_def
proof (induction a)
  case (Cons d a)
  then show ?case by (cases "split_at (CHR ''/'') a") auto
qed simp

lemma segments_plain: "CHR ''/'' \<notin> set s \<Longrightarrow> segments s = [s]"
  by (simp add: segments_def split_at_single)

lemma segments_join:
  "segs \<noteq> [] \<Longrightarrow> list_all (\<lambda>s. CHR ''/'' \<notin> set s) segs \<Longrightarrow> segments (join_with ''/'' segs) = segs"
  by (induction "''/''" segs rule: join_with.induct)
    (auto simp: segments_plain segments_append)

lemma segments_no_slash: "list_all (\<lambda>s. CHR ''/'' \<notin> set s) (segments p)"
  using split_at_no_sep[of "CHR ''/''" p] by (simp add: segments_def list_all_iff)

lemma segments_abs: "segments (''/'' @ p) = [] # segments p"
  by (simp add: segments_def)

text \<open>Rooted cleaning yields plain segments; on plain segments it changes nothing.\<close>

lemma clean_segs_plain:
  "list_all plain_seg out \<Longrightarrow> list_all (\<lambda>s. CHR ''/'' \<notin> set s) segs \<Longrightarrow>
     list_all plain_seg (clean_segs True out segs)"
proof (induction "True" out segs rule: clean_segs.induct)
  case (2 out seg segs)
  have "list_all plain_seg (tl out)" using "2.prems" by (cases out) auto
  with 2 show ?case by (auto simp: plain_seg_def)
qed simp

lemma clean_segs_id:
  "list_all plain_seg segs \<Longrightarrow> clean_segs r out segs = rev out @ segs"
  by (induction segs arbitrary: out) (auto simp: plain_seg_def)

lemma clean_segs_snoc:
  "plain_seg s \<Longrightarrow> clean_segs r out (segs @ [s]) = clean_segs r out segs @ [s]"
  by (induction r out segs rule: clean_segs.induct) (auto simp: plain_seg_def)

lemma Clean_abs:
  assumes "IsAbs p"
  obtains segs where "Clean p = ''/'' @ join_with ''/'' segs" "list_all plain_seg segs"
proof -
  have "list_all plain_seg (clean_segs True [] (segments p))"
    by (rule clean_segs_plain) (simp_all add: segments_no_slash)
  with assms that show thesis by (auto simp: Clean_def Let_def)
qed

lemma plain_no_slash: "list_all plain_seg segs \<Longrightarrow> list_all (\<lambda>s. CHR ''/'' \<notin> set s) segs"
  by (auto simp: list_all_iff plain_seg_def)

lemma segments_rooted:
  assumes "list_all plain_seg segs"
  shows "segments (''/'' @ join_with ''/'' segs) = [] # (if segs = [] then [[]] else segs)"
proof (cases "segs = []")
  case True
  then show ?thesis by (simp add: segments_def)
next
  case False
  from segments_join[OF False plain_no_slash[OF assms]] False show ?thesis
    by (simp only: segments_abs if_False)
qed

lemma Clean_rooted:
  assumes "list_all plain_seg segs"
  shows "Clean (''/'' @ join_with ''/'' segs) = ''/'' @ join_with ''/'' segs"
  using clean_segs_id[OF assms, of True "[]"]
  by (simp add: Clean_def IsAbs_def segments_rooted[OF assms, simplified])

lemma Clean_idem_abs: "IsAbs p \<Longrightarrow> Clean (Clean p) = Clean p"
  by (metis Clean_abs Clean_rooted)

lemma IsAbs_Clean: "IsAbs p \<Longrightarrow> IsAbs (Clean p)"
  by (simp add: Clean_def IsAbs_def Let_def)

lemma join_with_hd: "es \<noteq> [] \<Longrightarrow> IsAbs (hd es) \<Longrightarrow> IsAbs (join_with ''/'' es)"
  by (cases es; cases "tl es") (auto simp: IsAbs_def HasPrefix_prefix prefix_def)

lemma Join_abs: "IsAbs d \<Longrightarrow> Join (d # es) = Clean (join_with ''/'' (d # es)) \<and> IsAbs (join_with ''/'' (d # es))"
  using join_with_hd[of "d # es"] by (auto simp: Join_def IsAbs_def)

text \<open>
  The working directory the system reports is an absolute path (\<^verbatim>\<open>getwd(3)\<close>,
  \<^verbatim>\<open>os.Getwd\<close>).
\<close>

definition cwd_absolute :: "world \<Rightarrow> bool" where
  "cwd_absolute w \<longleftrightarrow> (case getwd w of Inl e \<Rightarrow> True | Inr d \<Rightarrow> IsAbs d)"

lemma Abs_clean:
  assumes "Abs w p = Inr q" "cwd_absolute w"
  shows "\<exists>x. IsAbs x \<and> q = Clean x"
proof (cases "IsAbs p")
  case True
  with assms(1) show ?thesis by (auto simp: Abs_def)
next
  case False
  with assms obtain d where "getwd w = Inr d" "IsAbs d" "q = Join [d, p]"
    by (auto simp: Abs_def cwd_absolute_def split: sum.splits)
  with Join_abs[of d "[p]"] show ?thesis by blast
qed

lemma Abs_fixed: "IsAbs x \<Longrightarrow> Abs w (Clean x) = Inr (Clean x)"
  by (simp add: Abs_def IsAbs_Clean Clean_idem_abs)

lemma Clean_no_dotdot:
  assumes "IsAbs x"
  shows "''..'' \<notin> set (segments (Clean x))"
proof -
  obtain segs where "Clean x = ''/'' @ join_with ''/'' segs" "list_all plain_seg segs"
    using Clean_abs[OF assms] .
  then show ?thesis using segments_rooted[of segs] by (auto simp: list_all_iff plain_seg_def)
qed

section \<open>The last segment of a path\<close>

lemma clean_segs_last:
  assumes "segments p = segs @ [s]" "plain_seg s"
  shows "last (segments (Clean p)) = s"
proof -
  define out where "out = clean_segs (IsAbs p) [] segs"
  have slash: "list_all (\<lambda>s. CHR ''/'' \<notin> set s) (out @ [s])"
  proof -
    have "list_all (\<lambda>s. CHR ''/'' \<notin> set s) (clean_segs r o' ss)"
      if "list_all (\<lambda>s. CHR ''/'' \<notin> set s) o'" "list_all (\<lambda>s. CHR ''/'' \<notin> set s) ss" for r o' ss
      using that
    proof (induction r o' ss rule: clean_segs.induct)
      case (2 r out seg segs)
      have "list_all (\<lambda>s. CHR ''/'' \<notin> set s) (tl out)" using "2.prems" by (cases out) auto
      with 2 show ?case by auto
    qed simp
    from this[of "[]" segs "IsAbs p"] show ?thesis
      using segments_no_slash[of p] assms by (simp add: out_def plain_seg_def)
  qed
  have c: "clean_segs (IsAbs p) [] (segments p) = out @ [s]"
    using clean_segs_snoc[OF assms(2)] by (simp add: assms(1) out_def)
  have j: "segments (join_with ''/'' (out @ [s])) = out @ [s]"
    using slash by (intro segments_join) auto
  then have "join_with ''/'' (out @ [s]) \<noteq> []"
    using assms(2) by (auto simp: segments_def plain_seg_def append_eq_Cons_conv)
  then show ?thesis using j by (simp add: Clean_def Let_def c segments_abs[simplified])
qed

lemma Join_last:
  assumes "d \<noteq> []" "plain_seg s"
  shows "last (segments (Join [d, s])) = s"
proof -
  have "segments (d @ CHR ''/'' # s) = segments d @ [s]"
    using assms(2) by (simp add: segments_append segments_plain plain_seg_def)
  from clean_segs_last[OF this assms(2)] assms(1) show ?thesis by (simp add: Join_def)
qed

lemma segments_last: "segments p \<noteq> [] \<and> segments p = butlast (segments p) @ [last (segments p)]"
  by (simp add: segments_def)

lemma Join_last_segment:
  assumes "p \<noteq> []" "plain_seg (last (segments p))"
  shows "last (segments (Join [d, p])) = last (segments p)"
proof (cases "d = []")
  case True
  with assms show ?thesis
    using clean_segs_last[of p "butlast (segments p)" "last (segments p)"] segments_last[of p]
    by (simp add: Join_def)
next
  case False
  have "segments (d @ CHR ''/'' # p) = (segments d @ butlast (segments p)) @ [last (segments p)]"
    using segments_last[of p] by (simp add: segments_append)
  from clean_segs_last[OF this assms(2)] False show ?thesis by (simp add: Join_def)
qed

lemma last_segment_not_Nil: "plain_seg (last (segments p)) \<Longrightarrow> p \<noteq> []"
  by (auto simp: segments_def plain_seg_def)

lemma digit_chars_plain:
  assumes "c \<in> set (Itoa n)"
  shows "c \<noteq> CHR ''/'' \<and> c \<noteq> CHR ''.''"
  using assms nat_str_digits[of "nat n"] nat_str_digits[of "nat (- n)"]
  by (auto simp: Itoa_def is_digit_def split: if_splits)

lemma plain_sock_name: "plain_seg (sock_name pid)"
  using digit_chars_plain[of _ pid] by (auto simp: plain_seg_def sock_name_def append_eq_Cons_conv)

lemma SocketsDir_not_Nil: "SocketsDir w \<noteq> []"
proof -
  define base where "base = (let base0 = Getenv w ''XDG_RUNTIME_DIR'';
          base1 = (if base0 = [] then Getenv w ''CLAUDE_CODE_TMPDIR'' else base0)
      in if base1 = [] then TempDir w else base1)"
  have "SocketsDir w = Join [base, ''cc-socks'']" by (simp add: SocketsDir_def base_def Let_def)
  moreover have "base \<noteq> []" by (simp add: base_def TempDir_def Let_def)
  ultimately show ?thesis
    using Join_last[of base "''cc-socks''"] last_segment_not_Nil[of "SocketsDir w"] by (simp add: plain_seg_def)
qed

lemma Abs_last_segment:
  assumes "Abs w p = Inr q" "plain_seg (last (segments p))"
  shows "last (segments q) = last (segments p)"
proof (cases "IsAbs p")
  case True
  with assms show ?thesis
    using clean_segs_last[of p "butlast (segments p)" "last (segments p)"] segments_last[of p]
    by (simp add: Abs_def)
next
  case False
  with assms(1) obtain d where "q = Join [d, p]" by (auto simp: Abs_def split: sum.splits)
  with Join_last_segment[OF last_segment_not_Nil[OF assms(2)] assms(2)] show ?thesis by simp
qed

lemma Join3_last:
  assumes "d \<noteq> []" "plain_seg s"
  shows "last (segments (Join [d, e, s])) = s"
proof -
  have "segments (d @ CHR ''/'' # e @ CHR ''/'' # s) = (segments d @ segments e) @ [s]"
    using assms(2) by (simp add: segments_append segments_plain plain_seg_def)
  from clean_segs_last[OF this assms(2)] assms(1) show ?thesis by (simp add: Join_def)
qed

lemma fallback_last: "last (segments (fallback_socket_path w pid)) = sock_name pid"
proof -
  define fb where "fb = (if Getenv w ''TERMUX_VERSION'' \<noteq> [] \<and> Getenv w ''PREFIX'' \<noteq> []
      then Join [Getenv w ''PREFIX'', ''tmp''] else ''/tmp'')"
  have "plain_seg ''tmp''" by (simp add: plain_seg_def)
  then have "fb \<noteq> []"
    using Join_last[of "Getenv w ''PREFIX''" "''tmp''"] last_segment_not_Nil[of fb] by (auto simp: fb_def)
  from Join3_last[OF this plain_sock_name] show ?thesis
    by (simp add: fallback_socket_path_def Let_def fb_def)
qed

lemma DefaultSocketPath_last: "last (segments (DefaultSocketPath w pid)) = sock_name pid"
proof -
  have l: "last (segments (Join [SocketsDir w, sock_name pid])) = sock_name pid"
    by (rule Join_last[OF SocketsDir_not_Nil plain_sock_name])
  then have "last (segments q) = sock_name pid"
    if "Abs w (Join [SocketsDir w, sock_name pid]) = Inr q" for q
    using Abs_last_segment[OF that] plain_sock_name by simp
  then show ?thesis
    by (auto simp: DefaultSocketPath_def fallback_last split: sum.splits)
qed

lemma length_nat_str: "n < 10 ^ k \<Longrightarrow> 1 \<le> k \<Longrightarrow> length (nat_str n) \<le> k"
proof (induction k arbitrary: n)
  case (Suc k)
  show ?case
  proof (cases "n < 10")
    case True
    then show ?thesis by (simp add: nat_str.simps[of n])
  next
    case False
    then have "k \<noteq> 0" using Suc.prems(1) by (intro notI) simp
    moreover have "n div 10 < 10 ^ k" using Suc.prems(1) by (simp add: less_mult_imp_div_less mult.commute)
    ultimately have "length (nat_str (n div 10)) \<le> k" using Suc.IH by simp
    with False show ?thesis by (simp add: nat_str.simps[of n])
  qed
qed simp

lemma length_fallback:
  assumes "Getenv w ''TERMUX_VERSION'' = [] \<or> Getenv w ''PREFIX'' = []"
    and "getuid w < 2 ^ 32" "0 \<le> pid" "pid \<le> max_int"
  shows "length (fallback_socket_path w pid) \<le> maxSocketPathBytes"
proof -
  define dir where "dir = ''cc-socks-'' @ Itoa (int (getuid w))"
  have d: "plain_seg dir"
    using digit_chars_plain[of _ "int (getuid w)"] by (auto simp: plain_seg_def dir_def)
  have "fallback_socket_path w pid = Clean (''/'' @ join_with ''/'' [''tmp'', dir, sock_name pid])"
    using assms(1) by (auto simp: fallback_socket_path_def Join_def Let_def dir_def)
  also have "\<dots> = ''/'' @ join_with ''/'' [''tmp'', dir, sock_name pid]"
    by (rule Clean_rooted) (use d plain_sock_name in \<open>simp add: plain_seg_def\<close>)
  finally have "length (fallback_socket_path w pid) = 6 + length dir + length (sock_name pid)" by simp
  moreover have "length (nat_str (getuid w)) \<le> 10" using assms(2) by (intro length_nat_str) simp_all
  moreover have "length (nat_str (nat pid)) \<le> 19"
    using assms(3,4) by (intro length_nat_str) (simp_all add: max_int_def nat_less_iff)
  ultimately show ?thesis
    using assms(3) by (simp add: dir_def sock_name_def Itoa_def maxSocketPathBytes_def)
qed

text \<open>Spellings of a path that differ in empty and dot segments only.\<close>

definition significant :: "gostring \<Rightarrow> gostring list" where
  "significant p = filter (\<lambda>s. s \<noteq> [] \<and> s \<noteq> ''.'') (segments p)"

lemma clean_segs_filter: "clean_segs r out (filter (\<lambda>s. s \<noteq> [] \<and> s \<noteq> ''.'') segs) = clean_segs r out segs"
  by (induction r out segs rule: clean_segs.induct) auto

lemma Clean_significant:
  "IsAbs p = IsAbs q \<Longrightarrow> significant p = significant q \<Longrightarrow> Clean p = Clean q"
proof -
  assume abs: "IsAbs p = IsAbs q" and sig: "significant p = significant q"
  have "clean_segs r [] (segments p) = clean_segs r [] (segments q)" for r
    using clean_segs_filter[of r "[]" "segments p"] clean_segs_filter[of r "[]" "segments q"] sig
    unfolding significant_def by argo
  with abs show ?thesis by (simp add: Clean_def)
qed

lemma dotdot_significant: "''..'' \<in> set (segments p) \<longleftrightarrow> ''..'' \<in> set (significant p)"
  by (simp add: significant_def)

lemma canonical_significant:
  assumes "IsAbs p" "IsAbs q" "significant p = significant q"
  shows "canonicalSocketPath w p = Inr c \<longleftrightarrow> canonicalSocketPath w q = Inr c"
proof -
  have "Clean p = Clean q" using assms by (intro Clean_significant) simp_all
  moreover have "''..'' \<in> set (segments p) \<longleftrightarrow> ''..'' \<in> set (segments q)"
    by (simp add: dotdot_significant assms(3))
  moreover have "p \<noteq> []" "q \<noteq> []" using assms(1,2) by (auto simp: IsAbs_def)
  ultimately show ?thesis
    using assms(1,2) by (simp add: canonicalSocketPath_def Abs_def error_simps)
qed

section \<open>Properties\<close>

text \<open>
  A canonical socket path is absolute, contains no \<^verbatim>\<open>..\<close> segment and is its
  own canonical form, so hashing it into a key-file name does not depend on how often it was
  canonicalized before.
\<close>

theorem canonical_normal_form:
  assumes "canonicalSocketPath w p = Inr c" "cwd_absolute w"
  shows "IsAbs c \<and> ''..'' \<notin> set (segments c) \<and> canonicalSocketPath w c = Inr c"
proof -
  from assms(1) have "Abs w p = Inr c"
    by (auto simp: canonicalSocketPath_def error_simps split: sum.splits)
  from Abs_clean[OF this assms(2)] obtain x where x: "IsAbs x" "c = Clean x" by blast
  have c: "IsAbs c" "''..'' \<notin> set (segments c)" "Abs w c = Inr c"
    using x by (simp_all add: IsAbs_Clean Clean_no_dotdot Abs_fixed)
  then have "c \<noteq> []" by (auto simp: IsAbs_def)
  with c show ?thesis by (simp add: canonicalSocketPath_def)
qed

text \<open>
  Canonicalization refuses exactly the empty path, a path with a \<^verbatim>\<open>..\<close>
  segment, and a relative path when the working directory is unknown; nothing is refused
  for any other reason and no \<^verbatim>\<open>..\<close> path is ever cleaned.
\<close>

theorem canonical_refuses:
  "isl (canonicalSocketPath w p) \<longleftrightarrow>
     p = [] \<or> ''..'' \<in> set (segments p) \<or> (\<not> IsAbs p \<and> isl (getwd w))"
  by (cases "p = []"; cases "''..'' \<in> set (segments p)"; cases "IsAbs p"; cases "getwd w")
    (simp_all add: canonicalSocketPath_def Abs_def)

text \<open>
  Spellings of an absolute path that differ only in repeated slashes and
  \<^verbatim>\<open>.\<close> segments have the same canonical form (or are refused alike), so they share one
  key-file name.
\<close>

theorem canonical_spelling:
  assumes "IsAbs p" "IsAbs q" "significant p = significant q"
  shows "canonicalSocketPath w p = Inr c \<longleftrightarrow> canonicalSocketPath w q = Inr c"
  using canonical_significant[OF assms, of w] by blast

text \<open>
  The default socket path is named after the process: whatever the environment,
  its last segment is \<^verbatim>\<open><pid>.sock\<close>, so different processes get different paths.
\<close>

theorem default_path_names_process:
  "last (segments (DefaultSocketPath w pid)) = Itoa pid @ ''.sock''"
  using DefaultSocketPath_last[of w pid] by (simp add: sock_name_def)

text \<open>
  Outside Termux the default socket path is never longer than the 103 bytes the
  socket address can hold, for every 32-bit user id and every process id.
\<close>

theorem default_path_fits:
  assumes "Getenv w ''TERMUX_VERSION'' = [] \<or> Getenv w ''PREFIX'' = []"
    and "getuid w < 2 ^ 32" "0 \<le> pid" "pid \<le> max_int"
  shows "length (DefaultSocketPath w pid) \<le> maxSocketPathBytes"
  using length_fallback[OF assms] by (simp add: DefaultSocketPath_def split: sum.split)

end
