(* ===== verification/Procstart.thy ===== *)
theory Procstart
  imports Utf8 World
begin

text \<open>
  Which processes are alive, and the start token that tells a process from a later one with
  the same PID: \<^verbatim>\<open>processAlive\<close> of \<^verbatim>\<open>platform_unix.go\<close> and
  \<^verbatim>\<open>platform_windows.go\<close>, and the four \<^verbatim>\<open>procstart_*.go\<close>, selected by the build's
  operating system.  The lemmas show which field of \<^verbatim>\<open>/proc/<pid>/stat\<close> the Linux
  reader returns, however the command name is written.
\<close>

section \<open>Liveness\<close>

definition processAlive_unix :: "world \<Rightarrow> int \<Rightarrow> bool" where
  "processAlive_unix w pid = (case kill0 w pid of KillOK \<Rightarrow> True | KillEPERM \<Rightarrow> True | KillOther \<Rightarrow> False)"

definition processAlive_windows :: "world \<Rightarrow> int \<Rightarrow> bool" where
  "processAlive_windows w pid = open_process w (of_int pid)"

definition processAlive :: "world \<Rightarrow> int \<Rightarrow> bool" where
  "processAlive w pid =
     (if goos w = Windows then processAlive_windows w pid else processAlive_unix w pid)"

section \<open>Start tokens\<close>

definition stat_path :: "int \<Rightarrow> gostring" where
  "stat_path pid = ''/proc/'' @ Itoa pid @ ''/stat''"

definition parse_stat :: "int \<Rightarrow> gostring \<Rightarrow> gostring result" where
  "parse_stat pid s =
     (case LastIndexByte s (CHR '')'') of
        None \<Rightarrow> Inl (UnparseableStat pid)
      | Some commEnd \<Rightarrow>
          if commEnd + 2 > length s then Inl (UnparseableStat pid)
          else let fs = split_at (CHR '' '') (drop (commEnd + 2) s) in
            if length fs < 20 then Inl (ShortStat pid (length fs))
            else Inr (fs ! 19))"

definition processStartToken_linux :: "world \<Rightarrow> int \<Rightarrow> gostring result" where
  "processStartToken_linux w pid =
     (case readfile w (stat_path pid) of
        Inl e \<Rightarrow> Inl (OSErr e)
      | Inr s \<Rightarrow> parse_stat pid s)"

definition processStartToken_darwin :: "world \<Rightarrow> int \<Rightarrow> gostring result" where
  "processStartToken_darwin w pid =
     (case ps_lstart w pid of
        Inl e \<Rightarrow> Inl (OSErr e)
      | Inr out \<Rightarrow> if TrimSpace out = [] then Inl (NoStartTime pid) else Inr (TrimSpace out))"

definition processStartToken_other :: "world \<Rightarrow> int \<Rightarrow> gostring result" where
  "processStartToken_other w pid = Inl NoStartTokenOnPlatform"

definition processStartToken_windows :: "world \<Rightarrow> int \<Rightarrow> gostring result" where
  "processStartToken_windows w pid = Inl NoStartTokenOnPlatform"

definition processStartToken :: "world \<Rightarrow> int \<Rightarrow> gostring result" where
  "processStartToken w pid =
     (case goos w of
        Linux \<Rightarrow> processStartToken_linux w pid
      | Darwin \<Rightarrow> processStartToken_darwin w pid
      | OtherUnix \<Rightarrow> processStartToken_other w pid
      | Windows \<Rightarrow> processStartToken_windows w pid)"

definition ProcessStartToken :: "world \<Rightarrow> int \<Rightarrow> gostring result" where
  "ProcessStartToken w pid = processStartToken w pid"

section \<open>Lemmas\<close>

lemma split_at_join:
  "segs \<noteq> [] \<Longrightarrow> list_all (\<lambda>s. c \<notin> set s) segs \<Longrightarrow> split_at c (join_with [c] segs) = segs"
proof (induction "[c]" segs rule: join_with.induct)
  case (2 s)
  then show ?case by (simp add: split_at_single)
next
  case (3 s t ts)
  then show ?case by (simp add: split_at_append)
qed simp

text \<open>
  The layout proc(5) documents: the PID, the command name in parentheses (any bytes, spaces
  and closing parentheses included), a space, and the other fields, separated by single
  spaces; the fields after the name are the state and numbers, so none holds a parenthesis.
\<close>

definition stat_line :: "int \<Rightarrow> gostring \<Rightarrow> gostring list \<Rightarrow> gostring" where
  "stat_line pid comm fs = Itoa pid @ '' ('' @ comm @ '') '' @ join_with '' '' fs"

definition stat_field :: "gostring \<Rightarrow> bool" where
  "stat_field f \<longleftrightarrow> CHR '' '' \<notin> set f \<and> CHR '')'' \<notin> set f"

lemma join_with_no_paren:
  "list_all stat_field fs \<Longrightarrow> CHR '')'' \<notin> set (join_with '' '' fs)"
  by (induction "'' ''" fs rule: join_with.induct) (auto simp: stat_field_def)

lemma parse_stat_line:
  assumes "list_all stat_field fs" "fs \<noteq> []"
  shows "parse_stat pid' (stat_line pid comm fs) =
    (if length fs < 20 then Inl (ShortStat pid' (length fs)) else Inr (fs ! 19))"
proof -
  define pre where "pre = Itoa pid @ '' ('' @ comm"
  define post where "post = join_with '' '' fs"
  have s: "stat_line pid comm fs = pre @ CHR '')'' # CHR '' '' # post"
    by (simp add: stat_line_def pre_def post_def)
  have "CHR '')'' \<notin> set (CHR '' '' # post)"
    using join_with_no_paren[OF assms(1)] by (simp add: post_def)
  then have i: "LastIndexByte (stat_line pid comm fs) (CHR '')'') = Some (length pre)"
    unfolding s by (rule LastIndexByte_append)
  have d: "drop (length pre + 2) (stat_line pid comm fs) = post" by (simp add: s)
  have l: "\<not> length pre + 2 > length (stat_line pid comm fs)" by (simp add: s)
  have "split_at (CHR '' '') post = fs"
    unfolding post_def using assms by (intro split_at_join) (auto simp: list_all_iff stat_field_def)
  then show ?thesis by (simp only: parse_stat_def i option.case d l if_False Let_def)
qed

section \<open>Properties\<close>

text \<open>
  Property C28: On Linux the start token is field 22 of \<^verbatim>\<open>/proc/<pid>/stat\<close>, the process
  start time, whatever bytes the command name holds: spaces or closing parentheses in it
  cannot shift the field.
\<close>

theorem start_token_field_22:
  assumes "goos w = Linux"
    and "readfile w (''/proc/'' @ Itoa pid @ ''/stat'') = Inr (stat_line pid comm fs)"
    and "list_all stat_field fs" "20 \<le> length fs"
  shows "ProcessStartToken w pid = Inr (fs ! (22 - 3))"
proof -
  have "fs \<noteq> []" using assms(4) by auto
  from parse_stat_line[OF assms(3) this] assms show ?thesis
    by (simp add: ProcessStartToken_def processStartToken_def processStartToken_linux_def stat_path_def)
qed

end
