(* ===== verification/Sha256.thy ===== *)
theory Sha256
  imports Prelude
begin

text \<open>
  SHA-256 (FIPS 180-4), the hash \<^verbatim>\<open>crypto/sha256.Sum256\<close> computes, on lists of bytes and
  32-bit words.  The key-file names are built from its hex form; what they rely on is that
  the digest always has 32 bytes.
\<close>

unbundle bit_operations_syntax

type_synonym w32 = "32 word"

text \<open>
  The constants of the standard are the leading 32 fraction bits of the square and cube roots
  of the first primes.  They are computed here: the integer \<open>k\<close>-th root is built bit by bit
  from the top, and the root of \<open>p * 2 ^ (32 * k)\<close> has the fraction bits as its low word.
\<close>

fun root_bits :: "nat \<Rightarrow> int \<Rightarrow> nat \<Rightarrow> int \<Rightarrow> int" where
  "root_bits k n 0 acc = acc"
| "root_bits k n (Suc b) acc =
     root_bits k n b (if (acc + 2 ^ b) ^ k \<le> n then acc + 2 ^ b else acc)"

definition root_fraction :: "nat \<Rightarrow> int \<Rightarrow> w32" where
  "root_fraction k p = of_int (root_bits k (p * 2 ^ (32 * k)) 40 0)"

definition primes_below :: "nat \<Rightarrow> nat list" where
  "primes_below n = filter (\<lambda>p. 2 \<le> p \<and> list_all (\<lambda>d. p mod d \<noteq> 0) [2..<p]) [0..<n]"

definition round_constants :: "w32 list" where
  "round_constants = map (\<lambda>p. root_fraction 3 (int p)) (primes_below 312)"

type_synonym sha_state = "w32 \<times> w32 \<times> w32 \<times> w32 \<times> w32 \<times> w32 \<times> w32 \<times> w32"

definition initial_state :: sha_state where
  "initial_state =
     (root_fraction 2 2, root_fraction 2 3, root_fraction 2 5, root_fraction 2 7,
      root_fraction 2 11, root_fraction 2 13, root_fraction 2 17, root_fraction 2 19)"

definition rotr :: "nat \<Rightarrow> w32 \<Rightarrow> w32" where
  "rotr n x = drop_bit n x OR push_bit (32 - n) x"

definition big_sigma0 :: "w32 \<Rightarrow> w32" where
  "big_sigma0 x = rotr 2 x XOR rotr 13 x XOR rotr 22 x"

definition big_sigma1 :: "w32 \<Rightarrow> w32" where
  "big_sigma1 x = rotr 6 x XOR rotr 11 x XOR rotr 25 x"

definition small_sigma0 :: "w32 \<Rightarrow> w32" where
  "small_sigma0 x = rotr 7 x XOR rotr 18 x XOR drop_bit 3 x"

definition small_sigma1 :: "w32 \<Rightarrow> w32" where
  "small_sigma1 x = rotr 17 x XOR rotr 19 x XOR drop_bit 10 x"

definition sha_ch :: "w32 \<Rightarrow> w32 \<Rightarrow> w32 \<Rightarrow> w32" where
  "sha_ch x y z = (x AND y) XOR (NOT x AND z)"

definition sha_maj :: "w32 \<Rightarrow> w32 \<Rightarrow> w32 \<Rightarrow> w32" where
  "sha_maj x y z = (x AND y) XOR (x AND z) XOR (y AND z)"

fun sha_round :: "sha_state \<Rightarrow> w32 \<times> w32 \<Rightarrow> sha_state" where
  "sha_round (a, b, c, d, e, f, g, h) (k, w) =
     (let t1 = h + big_sigma1 e + sha_ch e f g + k + w;
          t2 = big_sigma0 a + sha_maj a b c
      in (t1 + t2, a, b, c, d + t1, e, f, g))"

text \<open>The message schedule, most recent word first.\<close>

fun schedule :: "nat \<Rightarrow> w32 list \<Rightarrow> w32 list" where
  "schedule 0 ws = ws"
| "schedule (Suc n) ws =
     schedule n ((small_sigma1 (ws ! 1) + ws ! 6 + small_sigma0 (ws ! 14) + ws ! 15) # ws)"

fun add_states :: "sha_state \<Rightarrow> sha_state \<Rightarrow> sha_state" where
  "add_states (a, b, c, d, e, f, g, h) (a', b', c', d', e', f', g', h') =
     (a + a', b + b', c + c', d + d', e + e', f + f', g + g', h + h')"

definition compress :: "sha_state \<Rightarrow> w32 list \<Rightarrow> sha_state" where
  "compress st block =
     add_states st (foldl sha_round st (zip round_constants (rev (schedule 48 (rev block)))))"

fun be_words :: "byte list \<Rightarrow> w32 list" where
  "be_words (a # b # c # d # bs) =
     (push_bit 24 (ucast a) OR push_bit 16 (ucast b) OR push_bit 8 (ucast c) OR ucast d) # be_words bs"
| "be_words _ = []"

definition word_bytes :: "w32 \<Rightarrow> byte list" where
  "word_bytes x = [ucast (drop_bit 24 x), ucast (drop_bit 16 x), ucast (drop_bit 8 x), ucast x]"

text \<open>The message length in bits, as a 64-bit big-endian number.\<close>

definition length_bytes :: "nat \<Rightarrow> byte list" where
  "length_bytes n =
     (let bits = push_bit 3 (of_nat n :: 64 word)
      in map (\<lambda>k. ucast (drop_bit k bits)) [56, 48, 40, 32, 24, 16, 8, 0])"

definition pad :: "byte list \<Rightarrow> byte list" where
  "pad msg = msg @ [0x80] @ replicate ((119 - length msg mod 64) mod 64) 0
      @ length_bytes (length msg)"

fun blocks :: "nat \<Rightarrow> sha_state \<Rightarrow> w32 list \<Rightarrow> sha_state" where
  "blocks 0 st ws = st"
| "blocks (Suc n) st ws = blocks n (compress st (take 16 ws)) (drop 16 ws)"

fun digest :: "sha_state \<Rightarrow> byte list" where
  "digest (a, b, c, d, e, f, g, h) =
     concat (map word_bytes [a, b, c, d, e, f, g, h])"

definition Sum256 :: "gostring \<Rightarrow> byte list" where
  "Sum256 s =
     (let padded = pad (map byte_of s) in
      digest (blocks (length padded div 64) initial_state (be_words padded)))"

lemma length_word_bytes [simp]: "length (word_bytes x) = 4"
  by (simp add: word_bytes_def)

lemma length_length_bytes [simp]: "length (length_bytes n) = 8"
  by (simp add: length_bytes_def Let_def)

lemma length_digest [simp]: "length (digest st) = 32"
  by (cases st rule: digest.cases) simp

lemma length_Sum256 [simp]: "length (Sum256 s) = 32"
  by (simp add: Sum256_def Let_def)

lemma pad_blocks: "length (pad msg) mod 64 = 0"
proof -
  have "length (pad msg) = length msg + 9 + (119 - length msg mod 64) mod 64"
    by (simp add: pad_def)
  moreover have "(n + 9 + (119 - n mod 64) mod 64) mod 64 = 0" for n :: nat
  proof -
    define q m where "q = n div 64" and "m = n mod 64"
    have n: "n = 64 * q + m" and m: "m < 64" by (simp_all add: q_def m_def)
    have "(119 - m) mod 64 = (if m \<le> 55 then 55 - m else 119 - m)"
      using m by (auto simp: mod_if)
    then have "n + 9 + (119 - m) mod 64 = 64 * (q + (if m \<le> 55 then 1 else 2))"
      using m by (auto simp: n)
    then show ?thesis by (simp only: m_def [symmetric]) simp
  qed
  ultimately show ?thesis by simp
qed


end
