(* ===== verification/Auth.thy ===== *)
theory Auth
  imports Json Paths Procstart Sha256
begin

text \<open>
  \<^verbatim>\<open>auth.go\<close> and the file reading of \<^verbatim>\<open>session.go\<close> it shares: the name of the key
  file a session publishes for its inbox, reading such a file, and the choice among
  several.  The lemmas show that the reader recognises the published names, that only
  well-formed tokens are ever used, and that the owner that is best corroborated wins.
\<close>

section \<open>Reading small files\<close>

text \<open>\<^verbatim>\<open>O_NOFOLLOW\<close> makes opening a symlink fail with \<^verbatim>\<open>ELOOP\<close>.\<close>

definition openNoFollow_unix :: "world \<Rightarrow> gostring \<Rightarrow> oserror + open_file" where
  "openNoFollow_unix w path =
     (case entry_at w path of EntryError e \<Rightarrow> Inl e | SymlinkEntry \<Rightarrow> Inl TooManySymlinks | Entry f \<Rightarrow> Inr f)"

definition openNoFollow_windows :: "world \<Rightarrow> gostring \<Rightarrow> oserror + open_file" where
  "openNoFollow_windows w path = open_follow w path"

definition openNoFollow :: "world \<Rightarrow> gostring \<Rightarrow> oserror + open_file" where
  "openNoFollow w path =
     (if goos w = Windows then openNoFollow_windows w path else openNoFollow_unix w path)"

lemma openNoFollow_entry:
  "goos w \<noteq> Windows \<Longrightarrow> openNoFollow w path = Inr f \<longleftrightarrow> entry_at w path = Entry f"
  by (simp add: openNoFollow_def openNoFollow_unix_def split: fs_entry.split)

text \<open>
  \<^verbatim>\<open>io.ReadAll(io.LimitReader(f, max))\<close>: at most \<open>max\<close> bytes; an error that comes after
  them is never seen.
\<close>

definition read_limited :: "nat \<Rightarrow> open_file \<Rightarrow> oserror + gostring" where
  "read_limited limit f =
     (case read_error f of
        Some e \<Rightarrow> if length (contents f) < limit then Inl e else Inr (take limit (contents f))
      | None \<Rightarrow> Inr (take limit (contents f)))"

definition readSmallFile :: "world \<Rightarrow> gostring \<Rightarrow> nat \<Rightarrow> gostring result" where
  "readSmallFile w path limit =
     (case openNoFollow w path of
        Inl e \<Rightarrow> Inl (OSErr e)
      | Inr f \<Rightarrow>
          (case fstat f of
             Inl e \<Rightarrow> Inl (OSErr e)
           | Inr (regular, size') \<Rightarrow>
               if \<not> regular \<or> size' > int limit then Inl NotSmallFile
               else (case read_limited limit f of
                       Inl e \<Rightarrow> Inl (OSErr e)
                     | Inr data \<Rightarrow> Inr data)))"

section \<open>Key files\<close>

definition maxKeyFileBytes :: nat where
  "maxKeyFileBytes = 4096"

text \<open>\<^verbatim>\<open>^(\d+)\.[0-9a-f]{64}\.key$\<close>: the digits, when the name matches.\<close>

definition keyFileRe :: "gostring \<Rightarrow> gostring option" where
  "keyFileRe name =
     (let ds = takeWhile is_digit name; rest = drop (length ds) name in
      if ds \<noteq> [] \<and> length rest = 69 \<and> hd rest = CHR ''.'' \<and>
         list_all is_lower_hex (take 64 (tl rest)) \<and> drop 65 rest = ''.key''
      then Some ds else None)"

definition peerTokenRe :: "gostring \<Rightarrow> bool" where
  "peerTokenRe s \<longleftrightarrow> length s = 32 \<and> list_all is_lower_hex s"

definition keyFileSuffix :: "world \<Rightarrow> gostring \<Rightarrow> gostring result" where
  "keyFileSuffix w socketPath =
     and_then (canonicalSocketPath w socketPath) (\<lambda>canonical.
       Inr (''.'' @ EncodeToString (Sum256 canonical) @ ''.key''))"

definition KeyFileName :: "world \<Rightarrow> int \<Rightarrow> gostring \<Rightarrow> gostring result" where
  "KeyFileName w pid socketPath =
     and_then (keyFileSuffix w socketPath) (\<lambda>suff. Inr (Itoa pid @ suff))"

record keyFile =
  PeerToken :: gostring
  ProcStart :: gostring

definition store_keyFile :: "gostring \<Rightarrow> json \<Rightarrow> keyFile \<Rightarrow> keyFile option" where
  "store_keyFile k v kf =
     (if key_matches ''peerToken'' k then
        map_option (\<lambda>s. kf\<lparr>PeerToken := s\<rparr>) (store_string v (PeerToken kf))
      else if key_matches ''procStart'' k then
        map_option (\<lambda>s. kf\<lparr>ProcStart := s\<rparr>) (store_string v (ProcStart kf))
      else Some kf)"

definition readKeyFile :: "world \<Rightarrow> gostring \<Rightarrow> keyFile result" where
  "readKeyFile w path =
     (case readSmallFile w path maxKeyFileBytes of
        Inl NotSmallFile \<Rightarrow> Inl (NotReadableFile path)
      | Inl e \<Rightarrow> Inl e
      | Inr data \<Rightarrow>
          and_then (json_decode data) (\<lambda>v.
          (case decode_struct store_keyFile v \<lparr>PeerToken = [], ProcStart = []\<rparr> of
             None \<Rightarrow> Inl (BadJSON data)
           | Some kf \<Rightarrow>
               and_then (ensure (peerTokenRe (PeerToken kf)) (NoPeerToken path)) (\<lambda>_. Inr kf))))"

section \<open>Ranking\<close>

definition rankKeyOwner :: "world \<Rightarrow> int \<Rightarrow> gostring \<Rightarrow> int" where
  "rankKeyOwner w pid procStart =
     (if pid \<le> 1 \<or> \<not> processAlive w pid then 0
      else if procStart = [] then 1
      else (case processStartToken w pid of
              Inl e \<Rightarrow> 1
            | Inr actual \<Rightarrow> if actual = procStart then 2 else 0))"

text \<open>
  The body of the loop over the directory: what one name contributes, if anything, and the
  update of the best token so far.
\<close>

definition key_candidate :: "world \<Rightarrow> gostring \<Rightarrow> gostring \<Rightarrow> gostring \<Rightarrow> (gostring \<times> int) option" where
  "key_candidate w dir suff name =
     (if \<not> HasSuffix name suff then None
      else (case keyFileRe name of
          None \<Rightarrow> None
        | Some ds \<Rightarrow>
            (case Atoi_digits ds of
               None \<Rightarrow> None
             | Some ownerPID \<Rightarrow>
                 (case readKeyFile w (Join [dir, name]) of
                    Inl e \<Rightarrow> None
                  | Inr kf \<Rightarrow> Some (PeerToken kf, rankKeyOwner w ownerPID (ProcStart kf))))))"

definition lookup_step :: "world \<Rightarrow> gostring \<Rightarrow> gostring \<Rightarrow> gostring \<times> int \<Rightarrow> gostring \<Rightarrow> gostring \<times> int" where
  "lookup_step w dir suff best name =
     (case key_candidate w dir suff name of
        None \<Rightarrow> best
      | Some (token, rank) \<Rightarrow> if rank > snd best then (token, rank) else best)"

definition LookupToken :: "world \<Rightarrow> gostring \<Rightarrow> gostring result" where
  "LookupToken w socketPath =
     and_then (SessionsDir w) (\<lambda>dir.
     and_then (keyFileSuffix w socketPath) (\<lambda>suff.
       (case readdir w dir of
          Inl NotExist \<Rightarrow> Inr []
        | Inl e \<Rightarrow> Inl (ReadDirFailed dir e)
        | Inr names \<Rightarrow> Inr (fst (foldl (lookup_step w dir suff) ([], - 1) names)))))"

section \<open>Choosing among ranked candidates\<close>

text \<open>
  The interface of the loop: each name contributes at most one candidate, and no candidate
  ranks below zero.  Whatever the candidates are, keeping the first strictly better one ends
  with the earliest of the best.
\<close>

definition choose_step :: "('n \<Rightarrow> ('t \<times> int) option) \<Rightarrow> 't \<times> int \<Rightarrow> 'n \<Rightarrow> 't \<times> int" where
  "choose_step cand best n =
     (case cand n of None \<Rightarrow> best | Some (t, r) \<Rightarrow> if r > snd best then (t, r) else best)"

definition ranked_below :: "('n \<Rightarrow> ('t \<times> int) option) \<Rightarrow> int \<Rightarrow> 'n \<Rightarrow> bool" where
  "ranked_below cand r n \<longleftrightarrow> (case cand n of None \<Rightarrow> True | Some (t, s) \<Rightarrow> s < r)"

lemma choose_step_below: "ranked_below cand (snd best + 1) n \<Longrightarrow> choose_step cand best n = best"
  by (auto simp: choose_step_def ranked_below_def split: option.splits)

lemma ranked_below_mono: "ranked_below cand r n \<Longrightarrow> r \<le> s \<Longrightarrow> ranked_below cand s n"
  by (auto simp: ranked_below_def split: option.splits)

lemma foldl_choose_below:
  "\<forall>n \<in> set names. ranked_below cand (snd best + 1) n \<Longrightarrow> foldl (choose_step cand) best names = best"
  by (induction names) (auto simp: choose_step_below)

lemma foldl_choose_cases:
  obtains (keep) "foldl (choose_step cand) best names = best"
      "\<forall>n \<in> set names. ranked_below cand (snd best + 1) n"
  | (take) before n after t r where "names = before @ n # after" "cand n = Some (t, r)"
      "snd best < r" "\<forall>m \<in> set before. ranked_below cand r m"
      "\<forall>m \<in> set after. ranked_below cand (r + 1) m" "foldl (choose_step cand) best names = (t, r)"
proof (induction names arbitrary: best thesis)
  case Nil
  then show ?case by simp
next
  case (Cons n names)
  show ?case
  proof (rule Cons.IH[of "choose_step cand best n"])
    assume keep: "foldl (choose_step cand) (choose_step cand best n) names = choose_step cand best n"
      "\<forall>m \<in> set names. ranked_below cand (snd (choose_step cand best n) + 1) m"
    show thesis
    proof (cases "ranked_below cand (snd best + 1) n")
      case True
      with keep show thesis by (intro Cons.prems(1)) (auto simp: choose_step_below)
    next
      case False
      then obtain t r where c: "cand n = Some (t, r)" "snd best < r"
        by (auto simp: ranked_below_def split: option.splits)
      then have "choose_step cand best n = (t, r)" by (simp add: choose_step_def)
      with keep c show thesis by (intro Cons.prems(2)[of "[]" n names t r]) auto
    qed
  next
    fix before m after t r
    assume a: "names = before @ m # after" "cand m = Some (t, r)" "snd (choose_step cand best n) < r"
      "\<forall>m \<in> set before. ranked_below cand r m" "\<forall>m \<in> set after. ranked_below cand (r + 1) m"
      "foldl (choose_step cand) (choose_step cand best n) names = (t, r)"
    then have "ranked_below cand r n" "snd best < r"
      by (auto simp: choose_step_def ranked_below_def split: option.splits if_splits)
    with a show thesis by (intro Cons.prems(2)[of "n # before" m after t r]) auto
  qed
qed

locale ranking =
  fixes cand :: "'n \<Rightarrow> ('t \<times> int) option"
  assumes rank_nonneg: "cand n = Some (t, r) \<Longrightarrow> 0 \<le> r"
begin

lemma none_iff: "ranked_below cand 0 n \<longleftrightarrow> cand n = None"
  using rank_nonneg by (fastforce simp: ranked_below_def split: option.splits)

lemma chosen_iff:
  "fst (foldl (choose_step cand) (t0, - 1) names) = t \<longleftrightarrow>
     (t = t0 \<and> (\<forall>n \<in> set names. cand n = None)) \<or>
     (\<exists>before n after r. names = before @ n # after \<and> cand n = Some (t, r) \<and>
        (\<forall>m \<in> set before. ranked_below cand r m) \<and> (\<forall>m \<in> set after. ranked_below cand (r + 1) m))"
  (is "?l \<longleftrightarrow> ?none \<or> ?some")
proof
  assume l: ?l
  show "?none \<or> ?some"
  proof (rule foldl_choose_cases[of cand "(t0, - 1)" names])
    assume "foldl (choose_step cand) (t0, - 1) names = (t0, - 1)"
      "\<forall>n \<in> set names. ranked_below cand (snd (t0, - 1 :: int) + 1) n"
    with l show ?thesis by (simp add: none_iff)
  next
    fix before n after t' r
    assume "names = before @ n # after" "cand n = Some (t', r)"
      "\<forall>m \<in> set before. ranked_below cand r m" "\<forall>m \<in> set after. ranked_below cand (r + 1) m"
      "foldl (choose_step cand) (t0, - 1) names = (t', r)"
    with l show ?thesis by auto
  qed
next
  assume "?none \<or> ?some"
  then show ?l
  proof
    assume n: ?none
    then have "foldl (choose_step cand) (t0, - 1) names = (t0, - 1)"
      by (intro foldl_choose_below) (simp add: none_iff)
    with n show ?l by simp
  next
    assume ?some
    then obtain before n after r where s: "names = before @ n # after" "cand n = Some (t, r)"
      "\<forall>m \<in> set before. ranked_below cand r m" "\<forall>m \<in> set after. ranked_below cand (r + 1) m"
      by blast
    define b where "b = foldl (choose_step cand) (t0, - 1) before"
    have "snd b < r"
    proof (rule foldl_choose_cases[of cand "(t0, - 1)" before])
      assume "foldl (choose_step cand) (t0, - 1) before = (t0, - 1)"
      with rank_nonneg[OF s(2)] show ?thesis by (simp add: b_def)
    next
      fix be m af t' r'
      assume "before = be @ m # af" "cand m = Some (t', r')"
        "foldl (choose_step cand) (t0, - 1) before = (t', r')"
      with s(3) show ?thesis by (auto simp: b_def ranked_below_def)
    qed
    then have "choose_step cand b n = (t, r)" using s(2) by (simp add: choose_step_def)
    moreover have "foldl (choose_step cand) (t, r) after = (t, r)"
      using s(4) by (intro foldl_choose_below) simp
    ultimately show ?l by (simp add: s(1) b_def [symmetric])
  qed
qed

lemma chosen_in:
  assumes "fst (foldl (choose_step cand) (t0, - 1) names) = t" "n \<in> set names" "cand n = Some (u, s)"
  obtains m r where "m \<in> set names" "cand m = Some (t, r)" "s \<le> r"
proof -
  from assms(1) consider "\<forall>n \<in> set names. cand n = None"
    | before m after r where "names = before @ m # after" "cand m = Some (t, r)"
        "\<forall>m \<in> set before. ranked_below cand r m" "\<forall>m \<in> set after. ranked_below cand (r + 1) m"
    unfolding chosen_iff by blast
  then show thesis
  proof cases
    case 2
    with assms(2,3) have "s \<le> r" by (fastforce simp: ranked_below_def)
    with 2 show thesis by (intro that[of m r]) auto
  qed (use assms in simp)
qed

lemma chosen_only:
  assumes "n \<in> set names" "cand n = Some (t, r)" "\<forall>m \<in> set names. m \<noteq> n \<longrightarrow> cand m = None"
  shows "fst (foldl (choose_step cand) (t0, - 1) names) = t"
proof -
  obtain before after where n: "names = before @ n # after" "n \<notin> set before"
    using assms(1) by (meson split_list_first)
  have "\<forall>m \<in> set before. ranked_below cand r m"
    using assms(3) n by (auto simp: ranked_below_def)
  moreover have "\<forall>m \<in> set after. ranked_below cand (r + 1) m"
  proof
    fix m
    assume "m \<in> set after"
    with assms(2,3) n show "ranked_below cand (r + 1) m"
      by (cases "m = n") (auto simp: ranked_below_def)
  qed
  ultimately show ?thesis using n assms(2) unfolding chosen_iff by blast
qed

end

lemma rankKeyOwner_cases: "rankKeyOwner w pid ps = 0 \<or> rankKeyOwner w pid ps = 1 \<or> rankKeyOwner w pid ps = 2"
  by (simp add: rankKeyOwner_def split: sum.splits)

lemma key_candidate_Some:
  "key_candidate w dir suff name = Some (t, r) \<longleftrightarrow>
     (\<exists>ds pid kf. HasSuffix name suff \<and> keyFileRe name = Some ds \<and> Atoi_digits ds = Some pid \<and>
        readKeyFile w (Join [dir, name]) = Inr kf \<and> t = PeerToken kf \<and> r = rankKeyOwner w pid (ProcStart kf))"
  by (auto simp: key_candidate_def split: option.splits sum.splits)

interpretation keys: ranking "key_candidate w dir suff" for w dir suff
proof
  fix n t r
  assume "key_candidate w dir suff n = Some (t, r)"
  then obtain pid and kf :: keyFile where "r = rankKeyOwner w pid (ProcStart kf)"
    unfolding key_candidate_Some by blast
  then show "0 \<le> r" using rankKeyOwner_cases[of w pid "ProcStart kf"] by auto
qed

lemma lookup_step_choose: "lookup_step w dir suff = choose_step (key_candidate w dir suff)"
  by (intro ext) (simp add: lookup_step_def choose_step_def)

lemma LookupToken_listing:
  assumes "SessionsDir w = Inr dir" "keyFileSuffix w p = Inr suff" "readdir w dir = Inr names"
  shows "LookupToken w p = Inr (fst (foldl (choose_step (key_candidate w dir suff)) ([], - 1) names))"
  by (simp add: LookupToken_def assms lookup_step_choose)

lemma LookupToken_cases:
  assumes "LookupToken w p = Inr t" "t \<noteq> []"
  obtains dir suff names name ds pid kf where "SessionsDir w = Inr dir" "keyFileSuffix w p = Inr suff"
    "readdir w dir = Inr names" "name \<in> set names" "HasSuffix name suff" "keyFileRe name = Some ds"
    "Atoi_digits ds = Some pid" "readKeyFile w (Join [dir, name]) = Inr kf" "t = PeerToken kf"
proof -
  from assms obtain dir suff where d: "SessionsDir w = Inr dir" "keyFileSuffix w p = Inr suff"
    by (auto simp: LookupToken_def error_simps)
  with assms obtain names where "readdir w dir = Inr names"
    by (cases "readdir w dir") (auto simp: LookupToken_def split: oserror.splits)
  with d have l: "SessionsDir w = Inr dir" "keyFileSuffix w p = Inr suff" "readdir w dir = Inr names"
    by simp_all
  from LookupToken_listing[OF l] assms have
    "fst (foldl (choose_step (key_candidate w dir suff)) ([], - 1) names) = t" by simp
  with assms(2) obtain n r where "n \<in> set names" "key_candidate w dir suff n = Some (t, r)"
    unfolding keys.chosen_iff by fastforce
  with l show thesis using that unfolding key_candidate_Some by blast
qed

section \<open>Names and contents of key files\<close>

lemma takeWhile_digits_Itoa:
  assumes "0 \<le> pid" "\<not> is_digit c"
  shows "takeWhile is_digit (Itoa pid @ c # s) = Itoa pid"
proof -
  have "\<forall>x \<in> set (Itoa pid). is_digit x"
    using assms(1) nat_str_digits[of "nat pid"] by (simp add: Itoa_def)
  with assms(2) show ?thesis by (simp add: takeWhile_append2)
qed

lemma Itoa_not_Nil [simp]: "Itoa n \<noteq> []"
  by (simp add: Itoa_def)

lemma keyFileRe_name:
  assumes "0 \<le> pid" "length h = 64" "list_all is_lower_hex h"
  shows "keyFileRe (Itoa pid @ ''.'' @ h @ ''.key'') = Some (Itoa pid)"
proof -
  have t: "takeWhile is_digit (Itoa pid @ ''.'' @ h @ ''.key'') = Itoa pid"
    using takeWhile_digits_Itoa[of pid "CHR ''.''" "h @ ''.key''"] assms(1) by (simp add: is_digit_def)
  have "take 64 (h @ ''.key'') = h" "drop 64 (h @ ''.key'') = ''.key''"
    using assms(2) by simp_all
  with assms show ?thesis unfolding keyFileRe_def Let_def t by simp
qed

lemma keyFileSuffix_shape:
  assumes "keyFileSuffix w p = Inr suff"
  obtains h where "suff = ''.'' @ h @ ''.key''" "length h = 64" "list_all is_lower_hex h"
proof -
  from assms obtain c where "suff = ''.'' @ EncodeToString (Sum256 c) @ ''.key''"
    by (auto simp: keyFileSuffix_def error_simps)
  moreover have "list_all is_lower_hex (EncodeToString (Sum256 c))"
    using EncodeToString_lower_hex by (simp add: list_all_iff)
  ultimately show thesis by (intro that[of "EncodeToString (Sum256 c)"]) simp_all
qed

lemma HasSuffix_append [simp]: "HasSuffix (a @ b) b"
  by (simp add: HasSuffix_def)

lemma KeyFileName_recognised:
  assumes "KeyFileName w pid p = Inr name" "keyFileSuffix w p = Inr suff" "0 \<le> pid" "pid \<le> max_int"
  shows "HasSuffix name suff \<and> keyFileRe name = Some (Itoa pid) \<and> Atoi_digits (Itoa pid) = Some pid"
proof -
  have n: "name = Itoa pid @ suff" using assms(1,2) by (simp add: KeyFileName_def)
  obtain h where "suff = ''.'' @ h @ ''.key''" "length h = 64" "list_all is_lower_hex h"
    using keyFileSuffix_shape[OF assms(2)] .
  with keyFileRe_name[OF assms(3)] n Atoi_Itoa[OF assms(3,4)] show ?thesis by simp
qed

lemma ValidString_ascii: "\<forall>c \<in> set s. code_of c < 0x80 \<Longrightarrow> ValidString s"
  using runes_ascii[of s] by (simp add: list_all_iff)

text \<open>The content a session publishes: its token and, optionally, its start token.\<close>

definition key_json :: "gostring \<Rightarrow> gostring \<Rightarrow> json" where
  "key_json token procStart = JObj [(''peerToken'', JStr token), (''procStart'', JStr procStart)]"

definition key_file :: "gostring \<Rightarrow> gostring \<Rightarrow> open_file" where
  "key_file token procStart =
     (let s = print_json (key_json token procStart)
      in \<lparr>fstat = Inr (True, int (length s)), contents = s, read_error = None\<rparr>)"

lemma key_matches_refl [simp]: "key_matches k k"
  by (simp add: key_matches_def)

lemma peerToken_not_procStart: "\<not> key_matches ''peerToken'' ''procStart''"
  by (simp add: key_matches_def decode_rune.simps(2) fold_rune_def)

lemma decode_key_json:
  "decode_struct store_keyFile (key_json t ps) kf = Some (kf\<lparr>PeerToken := t, ProcStart := ps\<rparr>)"
  by (simp add: key_json_def store_keyFile_def peerToken_not_procStart)

lemma peerTokenRe_valid: "peerTokenRe t \<Longrightarrow> ValidString t"
  by (rule ValidString_ascii) (auto simp: peerTokenRe_def list_all_iff is_lower_hex_code)

lemma readKeyFile_key_file:
  assumes "openNoFollow w path = Inr (key_file t ps)" "peerTokenRe t" "ValidString ps"
    and "length (print_json (key_json t ps)) \<le> maxKeyFileBytes"
  shows "readKeyFile w path = Inr \<lparr>PeerToken = t, ProcStart = ps\<rparr>"
proof -
  have "json_ok (key_json t ps)"
    using assms(2,3) peerTokenRe_valid ValidString_ascii[of "''peerToken''"] ValidString_ascii[of "''procStart''"]
    by (simp add: json_ok_def key_json_def maxNestingDepth_def)
  then have "json_decode (print_json (key_json t ps)) = Inr (key_json t ps)"
    by (rule json.dec_enc)
  with assms show ?thesis
    by (simp add: readKeyFile_def readSmallFile_def key_file_def Let_def
        read_limited_def decode_key_json ensure_def)
qed

lemma keyFileRe_split:
  assumes "keyFileRe name = Some ds" "HasSuffix name suff" "keyFileSuffix w p = Inr suff"
  shows "name = ds @ suff \<and> ds \<noteq> [] \<and> list_all is_digit ds"
proof -
  have ds: "ds = takeWhile is_digit name" "ds \<noteq> []" "length (drop (length ds) name) = 69"
    using assms(1) by (auto simp: keyFileRe_def Let_def split: if_splits)
  have "length suff = 69"
    using assms(3) by (auto simp: keyFileSuffix_def error_simps length_EncodeToString length_Sum256)
  moreover have "length name = length ds + 69" using ds(3) by simp
  ultimately have "suff = drop (length ds) name" using assms(2) by (simp add: HasSuffix_def)
  moreover have "name = ds @ drop (length ds) name"
    unfolding ds(1) by (metis append_take_drop_id takeWhile_eq_take)
  moreover have "list_all is_digit ds" unfolding ds(1) by (auto simp: list_all_iff dest: set_takeWhileD)
  ultimately show ?thesis using ds(2) by simp
qed

lemma readKeyFile_cases:
  assumes "readKeyFile w path = Inr kf"
  obtains f n v where "openNoFollow w path = Inr f" "fstat f = Inr (True, n)" "n \<le> 4096"
    "json_decode (take 4096 (contents f)) = Inr v"
    "decode_struct store_keyFile v \<lparr>PeerToken = [], ProcStart = []\<rparr> = Some kf" "peerTokenRe (PeerToken kf)"
proof -
  obtain data v where d: "readSmallFile w path maxKeyFileBytes = Inr data" "json_decode data = Inr v"
    "decode_struct store_keyFile v \<lparr>PeerToken = [], ProcStart = []\<rparr> = Some kf" "peerTokenRe (PeerToken kf)"
    using assms by (auto simp: readKeyFile_def error_simps split: sum.splits goerror.splits option.splits)
  from d(1) obtain f n where "openNoFollow w path = Inr f" "fstat f = Inr (True, n)" "n \<le> 4096"
    "data = take 4096 (contents f)"
    by (auto simp: readSmallFile_def read_limited_def maxKeyFileBytes_def split: sum.splits option.splits if_splits)
  with d that show thesis by simp
qed

lemma published_lookup:
  assumes "SessionsDir w = Inr dir" "readdir w dir = Inr names"
    and "KeyFileName w pid p = Inr name" "0 \<le> pid" "pid \<le> max_int" "name \<in> set names"
    and "keyFileSuffix w p = Inr suff" "\<forall>n \<in> set names. HasSuffix n suff \<longrightarrow> n = name"
    and "openNoFollow w (Join [dir, name]) = Inr (key_file token procStart)"
    and "peerTokenRe token" "ValidString procStart"
    and "length (print_json (key_json token procStart)) \<le> maxKeyFileBytes"
  shows "LookupToken w p = Inr token"
proof -
  have "key_candidate w dir suff name = Some (token, rankKeyOwner w pid procStart)"
    using KeyFileName_recognised[OF assms(3,7,4,5)] readKeyFile_key_file[OF assms(9-12)]
    by (simp add: key_candidate_def)
  moreover have "key_candidate w dir suff m = None" if "m \<in> set names" "m \<noteq> name" for m
    using assms(8) that by (auto simp: key_candidate_def)
  ultimately show ?thesis
    using LookupToken_listing[OF assms(1,7,2)] keys.chosen_only[OF assms(6)] by auto
qed

section \<open>Properties\<close>

text \<open>
  Property C14: of the key files in the sessions directory that name the socket, the token
  returned is the one of the earliest file among those whose owner ranks highest; without
  any, the token is empty.
\<close>

theorem lookup_token_best:
  assumes "SessionsDir w = Inr dir" "keyFileSuffix w p = Inr suff" "readdir w dir = Inr names"
  shows "LookupToken w p = Inr t \<longleftrightarrow>
     (t = [] \<and> (\<forall>n \<in> set names. key_candidate w dir suff n = None)) \<or>
     (\<exists>before n after r. names = before @ n # after \<and> key_candidate w dir suff n = Some (t, r) \<and>
        (\<forall>m \<in> set before. ranked_below (key_candidate w dir suff) r m) \<and>
        (\<forall>m \<in> set after. ranked_below (key_candidate w dir suff) (r + 1) m))"
  by (simp only: LookupToken_listing[OF assms] sum.inject keys.chosen_iff)

text \<open>
  Property C39: where a token comes from.  A token that is used was read from a file of the
  sessions directory whose name is a decimal number followed by the hash of the canonical
  socket path; on Unix that file is not a symlink; it was regular and at most 4096 bytes when
  opened, no more than that was read, and it decodes to an object with this token, which has
  the published form of 32 lower-case hexadecimal digits.
\<close>

theorem token_provenance:
  assumes "LookupToken w p = Inr t" "t \<noteq> []"
  shows "\<exists>dir names ds canonical name f n v kf. SessionsDir w = Inr dir \<and> readdir w dir = Inr names \<and>
    name \<in> set names \<and> canonicalSocketPath w p = Inr canonical \<and>
    name = ds @ ''.'' @ EncodeToString (Sum256 canonical) @ ''.key'' \<and> ds \<noteq> [] \<and> list_all is_digit ds \<and>
    openNoFollow w (Join [dir, name]) = Inr f \<and> (goos w \<noteq> Windows \<longrightarrow> entry_at w (Join [dir, name]) = Entry f) \<and>
    fstat f = Inr (True, n) \<and> n \<le> 4096 \<and> json_decode (take 4096 (contents f)) = Inr v \<and>
    decode_struct store_keyFile v \<lparr>PeerToken = [], ProcStart = []\<rparr> = Some kf \<and> PeerToken kf = t \<and> peerTokenRe t"
proof -
  obtain dir suff names name ds pid kf where l: "SessionsDir w = Inr dir" "keyFileSuffix w p = Inr suff"
    "readdir w dir = Inr names" "name \<in> set names" "HasSuffix name suff" "keyFileRe name = Some ds"
    "readKeyFile w (Join [dir, name]) = Inr kf" "t = PeerToken kf"
    by (rule LookupToken_cases [OF assms])
  obtain canonical where c: "canonicalSocketPath w p = Inr canonical"
    "suff = ''.'' @ EncodeToString (Sum256 canonical) @ ''.key''"
    using l(2) by (auto simp: keyFileSuffix_def error_simps)
  have name: "name = ds @ suff" "ds \<noteq> []" "list_all is_digit ds"
    using keyFileRe_split [OF l(6,5)] l(2) by blast+
  obtain f n v where "openNoFollow w (Join [dir, name]) = Inr f" "fstat f = Inr (True, n)" "n \<le> 4096"
    "json_decode (take 4096 (contents f)) = Inr v"
    "decode_struct store_keyFile v \<lparr>PeerToken = [], ProcStart = []\<rparr> = Some kf" "peerTokenRe (PeerToken kf)"
    by (rule readKeyFile_cases [OF l(7)])
  moreover from this(1) have "goos w \<noteq> Windows \<longrightarrow> entry_at w (Join [dir, name]) = Entry f"
    using openNoFollow_entry by blast
  ultimately show ?thesis using l c name by blast
qed

text \<open>In particular a malformed token is never used.\<close>

theorem lookup_token_wellformed:
  assumes "LookupToken w p = Inr t"
  shows "t = [] \<or> peerTokenRe t"
proof (cases "t = []")
  case False
  from LookupToken_cases[OF assms this] obtain name dir kf
    where "readKeyFile w (Join [dir, name]) = Inr kf" "t = PeerToken kf" by metis
  then show ?thesis by (auto simp: readKeyFile_def error_simps split: sum.splits goerror.splits option.splits)
qed simp

text \<open>
  Property C3: what a session publishes is what a client finds: when the sessions directory
  holds the file \<^verbatim>\<open>KeyFileName\<close> names for the session's PID and socket, with its token
  in it, and no other file for that socket, \<^verbatim>\<open>LookupToken\<close> returns that token, whether or
  not the owner can be corroborated.
\<close>

theorem published_token_found:
  assumes "SessionsDir w = Inr dir" "readdir w dir = Inr names"
    and "KeyFileName w pid p = Inr name" "0 \<le> pid" "pid \<le> max_int" "name \<in> set names"
    and "keyFileSuffix w p = Inr suff" "\<forall>n \<in> set names. HasSuffix n suff \<longrightarrow> n = name"
    and "openNoFollow w (Join [dir, name]) = Inr (key_file token procStart)"
    and "peerTokenRe token" "ValidString procStart"
    and "length (print_json (key_json token procStart)) \<le> maxKeyFileBytes"
  shows "LookupToken w p = Inr token"
  using assms by (rule published_lookup)

text \<open>
  When some key file's owner is alive and its start token matches, the token
  returned is one such owner's: it is never a dead owner's and never one that could not be
  corroborated.
\<close>

theorem corroborated_owner_wins:
  assumes "SessionsDir w = Inr dir" "keyFileSuffix w p = Inr suff" "readdir w dir = Inr names"
    and "n \<in> set names" "key_candidate w dir suff n = Some (u, 2)"
  shows "\<exists>t name ds pid kf. LookupToken w p = Inr t \<and> name \<in> set names \<and> keyFileRe name = Some ds \<and>
    Atoi_digits ds = Some pid \<and> readKeyFile w (Join [dir, name]) = Inr kf \<and> t = PeerToken kf \<and>
    pid > 1 \<and> processAlive w pid \<and> ProcStart kf \<noteq> [] \<and> processStartToken w pid = Inr (ProcStart kf)"
proof -
  let ?t = "fst (foldl (choose_step (key_candidate w dir suff)) ([], - 1) names)"
  obtain m r where m: "m \<in> set names" "key_candidate w dir suff m = Some (?t, r)" "2 \<le> r"
    by (rule keys.chosen_in[OF refl assms(4,5)])
  from m(2) obtain ds pid kf where c: "keyFileRe m = Some ds" "Atoi_digits ds = Some pid"
    "readKeyFile w (Join [dir, m]) = Inr kf" "?t = PeerToken kf" "r = rankKeyOwner w pid (ProcStart kf)"
    unfolding key_candidate_Some by blast
  with m(3) have "rankKeyOwner w pid (ProcStart kf) = 2"
    using rankKeyOwner_cases[of w pid "ProcStart kf"] by simp
  then have "pid > 1 \<and> processAlive w pid \<and> ProcStart kf \<noteq> [] \<and> processStartToken w pid = Inr (ProcStart kf)"
    by (auto simp: rankKeyOwner_def split: if_splits sum.splits)
  with m(1) c LookupToken_listing[OF assms(1-3)] show ?thesis by blast
qed

text \<open>
  The spelling of the socket path does not matter to the key lookup: repeated
  slashes and \<^verbatim>\<open>.\<close> segments in an absolute path change neither the file name a session
  publishes nor the token a client finds.
\<close>

theorem lookup_spelling:
  assumes "IsAbs p" "IsAbs q" "significant p = significant q"
  shows "(KeyFileName w pid p = Inr name \<longleftrightarrow> KeyFileName w pid q = Inr name) \<and>
    (LookupToken w p = Inr token \<longleftrightarrow> LookupToken w q = Inr token)"
proof -
  have "keyFileSuffix w p = Inr suff \<longleftrightarrow> keyFileSuffix w q = Inr suff" for suff
    using canonical_significant[OF assms, of w] by (simp add: keyFileSuffix_def error_simps)
  then show ?thesis
    by (simp_all add: KeyFileName_def LookupToken_def error_simps)
qed

end
