(* ===== verification/Float64.thy ===== *)
theory Float64
  imports Main
begin

text \<open>
  The IEEE 754 double-precision values \<^verbatim>\<open>strconv.ParseFloat\<close> produces for the number
  literals of a JSON text, which is what \<^verbatim>\<open>json.Unmarshal\<close> stores into an
  \<^verbatim>\<open>any\<close>: a finite value is a mantissa times a power of two, rounded to nearest, ties
  to even.  The lemmas show that rounding is exact on every integer up to \<open>2 ^ 53\<close>, so the
  integers the registry holds (PIDs, protocol versions, millisecond timestamps) survive the
  detour through floating point.
\<close>

text \<open>The value \<open>mant * 2 ^ expo\<close>.  The sign of zero plays no role here.\<close>

record float64 =
  mant :: int
  expo :: int

fun ilog2 :: "nat \<Rightarrow> nat" where
  "ilog2 n = (if n < 2 then 0 else Suc (ilog2 (n div 2)))"

declare ilog2.simps [simp del]

text \<open>\<open>2 ^ e * d \<le> n\<close> for an integer \<open>e\<close>, without fractions.\<close>

definition scaled :: "int \<Rightarrow> nat \<Rightarrow> nat \<Rightarrow> nat \<times> nat" where
  "scaled e n d = (if 0 \<le> e then (n, d * 2 ^ nat e) else (n * 2 ^ nat (- e), d))"

definition round_half_even :: "nat \<Rightarrow> nat \<Rightarrow> nat" where
  "round_half_even n d =
     (let q = n div d; r = n mod d in
      if 2 * r < d then q else if 2 * r > d then q + 1 else if even q then q else q + 1)"

text \<open>
  The quotient \<open>n / d\<close> rounded to a double: the exponent of the last place is 52 below that
  of the leading bit, but at least -1074.  \<open>None\<close> is overflow.
\<close>

definition lead_exponent :: "nat \<Rightarrow> nat \<Rightarrow> int" where
  "lead_exponent n d =
     (let e = int (ilog2 n) - int (ilog2 d); (n', d') = scaled e n d
      in if d' \<le> n' then e else e - 1)"

definition round64 :: "nat \<Rightarrow> nat \<Rightarrow> (nat \<times> int) option" where
  "round64 n d =
     (if n = 0 then Some (0, 0)
      else let e = max (lead_exponent n d - 52) (- 1074);
               (n', d') = scaled e n d;
               m = round_half_even n' d'
           in if e \<ge> 971 \<and> (e > 971 \<or> m \<ge> 2 ^ 53) then None else Some (m, e))"

text \<open>Comparison with an integer and truncation toward zero.\<close>

definition float_neg :: "float64 \<Rightarrow> bool" where
  "float_neg v \<longleftrightarrow> mant v < 0"

definition float_greater :: "float64 \<Rightarrow> int \<Rightarrow> bool" where
  "float_greater v k \<longleftrightarrow>
     (if 0 \<le> expo v then mant v * 2 ^ nat (expo v) > k else mant v > k * 2 ^ nat (- expo v))"

definition float_trunc :: "float64 \<Rightarrow> int" where
  "float_trunc v =
     (if 0 \<le> expo v then mant v * 2 ^ nat (expo v)
      else sgn (mant v) * (\<bar>mant v\<bar> div 2 ^ nat (- expo v)))"

section \<open>Integers up to \<open>2 ^ 53\<close> are exact\<close>

lemma ilog2_bounds: "0 < n \<Longrightarrow> 2 ^ ilog2 n \<le> n \<and> n < 2 ^ Suc (ilog2 n)"
proof (induction n rule: ilog2.induct)
  case (1 n)
  show ?case
  proof (cases "n < 2")
    case True
    with 1 show ?thesis by (simp add: ilog2.simps[of n])
  next
    case False
    with 1 have "2 ^ ilog2 (n div 2) \<le> n div 2 \<and> n div 2 < 2 ^ Suc (ilog2 (n div 2))" by simp
    with False show ?thesis by (simp add: ilog2.simps[of n]) linarith
  qed
qed

lemma ilog2_1 [simp]: "ilog2 (Suc 0) = 0"
  by (simp add: ilog2.simps)

lemma ilog2_less: "0 < n \<Longrightarrow> n < 2 ^ k \<Longrightarrow> ilog2 n < k"
  using ilog2_bounds[of n] by (metis leD le_less_trans not_less power_increasing_iff one_less_numeral_iff semiring_norm(76))

lemma lead_exponent_int:
  assumes "0 < n"
  shows "lead_exponent n 1 = int (ilog2 n)"
  using ilog2_bounds[OF assms] by (simp add: lead_exponent_def scaled_def Let_def)

text \<open>A value that lies on the grid of the last place is not changed by rounding.\<close>

lemma round_half_even_exact: "0 < d \<Longrightarrow> round_half_even (q * d) d = q"
  by (simp add: round_half_even_def Let_def)

lemma round64_int:
  assumes "n < 2 ^ 53" "0 < n"
  obtains m e where "round64 n 1 = Some (m, e)" "e \<le> 0" "m = n * 2 ^ nat (- e)"
proof -
  define e where "e = int (ilog2 n) - 52"
  have le: "ilog2 n < 53" using assms by (intro ilog2_less) simp_all
  then have e: "e \<le> 0" "- 52 \<le> e" by (simp_all add: e_def)
  have s: "fst (scaled e n 1) = n * 2 ^ nat (- e)" "snd (scaled e n 1) = 1"
    using e by (simp_all add: scaled_def)
  have "round64 n 1 = Some (round_half_even (n * 2 ^ nat (- e)) 1, e)"
    using assms e s lead_exponent_int[OF assms(2)]
    by (simp add: round64_def Let_def case_prod_beta e_def [symmetric] del: One_nat_def)
  with e show thesis
    using round_half_even_exact[of 1 "n * 2 ^ nat (- e)"] by (intro that) simp_all
qed

end
