(* ===== verification/Session.thy ===== *)
theory Session
  imports Auth Message Float64 "HOL-Library.Multiset"
begin

text \<open>
  \<^verbatim>\<open>session.go\<close>: the session registry.  Reading one registry file into a \<open>session\<close>,
  listing the directory, and the lookups by PID, session id and name, with the liveness
  tie-break of \<^verbatim>\<open>pickOne\<close>.  The lemmas show that the listing is sorted, has one entry per
  PID and does not depend on the order of the directory, that looking up a PID amounts to
  reading that PID's file, and when a lookup is refused as missing or ambiguous.
\<close>

section \<open>Decoded values\<close>

text \<open>
  A number literal of the JSON grammar as \<^verbatim>\<open>strconv.ParseFloat\<close> reads it: sign, digits
  and decimal exponent; the exponent's digits stop counting once it has reached 10000.
\<close>

definition exp_digits :: "gostring \<Rightarrow> nat" where
  "exp_digits s = foldl (\<lambda>e c. if e < 10000 then 10 * e + digit_val c else e) 0 s"

definition literal_exponent :: "gostring \<Rightarrow> int" where
  "literal_exponent s =
     (case s of
        _ # c # t \<Rightarrow>
          if c = CHR ''-'' then - int (exp_digits t)
          else if c = CHR ''+'' then int (exp_digits t) else int (exp_digits (c # t))
      | _ \<Rightarrow> 0)"

definition ParseFloat :: "gostring \<Rightarrow> float64 option" where
  "ParseFloat lit =
     (let neg = HasPrefix lit ''-'';
          body = (if neg then tl lit else lit);
          ip = takeWhile is_digit body;
          rest = drop (length ip) body;
          fp = (if HasPrefix rest ''.'' then takeWhile is_digit (tl rest) else []);
          ex = (if HasPrefix rest ''.'' then drop (Suc (length fp)) rest else rest);
          e = literal_exponent ex - int (length fp);
          n = dec_val (ip @ fp)
      in map_option (\<lambda>(m, k). \<lparr>mant = (if neg then - int m else int m), expo = k\<rparr>)
           (if 0 \<le> e then round64 (n * 10 ^ nat e) 1 else round64 n (10 ^ nat (- e))))"

text \<open>
  \<^verbatim>\<open>json.Unmarshal\<close> into \<^verbatim>\<open>map[string]any\<close>: an object, or \<^verbatim>\<open>null\<close> (the nil map);
  every number in it, at any depth, must be in the range of a double.  The members stay in
  textual order with their literals; in the map the last of equal keys counts.
\<close>

fun numbers_ok :: "json \<Rightarrow> bool" where
  "numbers_ok (JNum lit) \<longleftrightarrow> ParseFloat lit \<noteq> None"
| "numbers_ok (JArr vs) \<longleftrightarrow> list_all numbers_ok vs"
| "numbers_ok (JObj ms) \<longleftrightarrow> list_all (\<lambda>(k, v). numbers_ok v) ms"
| "numbers_ok _ \<longleftrightarrow> True"

type_synonym rawmap = "(gostring \<times> json) list"

definition decode_map :: "json \<Rightarrow> rawmap option" where
  "decode_map v =
     (if \<not> numbers_ok v then None
      else (case v of JObj ms \<Rightarrow> Some ms | JNull \<Rightarrow> Some [] | _ \<Rightarrow> None))"

definition map_get :: "rawmap \<Rightarrow> gostring \<Rightarrow> json option" where
  "map_get m k = map_of (rev m) k"

definition str :: "rawmap \<Rightarrow> gostring \<Rightarrow> gostring" where
  "str m k = (case map_get m k of Some (JStr s) \<Rightarrow> s | _ \<Rightarrow> [])"

definition float_of :: "rawmap \<Rightarrow> gostring \<Rightarrow> float64 option" where
  "float_of m k = (case map_get m k of Some (JNum lit) \<Rightarrow> ParseFloat lit | _ \<Rightarrow> None)"

text \<open>\<^verbatim>\<open>int(v)\<close>: truncation inside the 64-bit range, the platform's choice outside.\<close>

definition float_to_int :: "world \<Rightarrow> float64 \<Rightarrow> int" where
  "float_to_int w v =
     (if - (max_int + 1) \<le> float_trunc v \<and> float_trunc v \<le> max_int then float_trunc v
      else float_overflow w (mant v) (expo v))"

definition intOf :: "world \<Rightarrow> rawmap \<Rightarrow> gostring \<Rightarrow> int" where
  "intOf w m k = (case float_of m k of Some v \<Rightarrow> float_to_int w v | None \<Rightarrow> 0)"

text \<open>Instants are counted in milliseconds since the Unix epoch; the zero \<^verbatim>\<open>time.Time\<close> is
  the first instant of year 1.\<close>

type_synonym gotime = int

definition zero_time :: gotime where
  "zero_time = - 62135596800000"

definition maxSaneEpochMS :: int where
  "maxSaneEpochMS = 4000000000000000"

definition epochMS :: "world \<Rightarrow> rawmap \<Rightarrow> gostring \<Rightarrow> gotime" where
  "epochMS w m k =
     (case float_of m k of
        None \<Rightarrow> zero_time
      | Some v \<Rightarrow> if float_neg v \<or> float_greater v maxSaneEpochMS then zero_time
                  else float_to_int w v)"

section \<open>Sessions\<close>

record session =
  s_PID :: int
  s_SessionID :: gostring
  s_SocketPath :: gostring
  s_Name :: gostring
  s_NameSource :: gostring
  s_CWD :: gostring
  s_Kind :: gostring
  s_Status :: gostring
  s_WaitingFor :: gostring
  s_Entrypoint :: gostring
  s_Agent :: gostring
  s_JobID :: gostring
  s_LogPath :: gostring
  s_Tmux :: gostring
  s_ProcStart :: gostring
  s_PeerProtocol :: int
  s_StartedAt :: gotime
  s_UpdatedAt :: gotime
  s_StatusUpdatedAt :: gotime
  s_File :: gostring
  s_Raw :: rawmap

definition maxRegistryFileBytes :: nat where
  "maxRegistryFileBytes = 256 * 1024"

definition session_of :: "world \<Rightarrow> gostring \<Rightarrow> int \<Rightarrow> rawmap \<Rightarrow> session" where
  "session_of w path pid raw =
     \<lparr>s_PID = pid,
      s_SessionID = str raw ''sessionId'',
      s_SocketPath = str raw ''messagingSocketPath'',
      s_Name = str raw ''name'',
      s_NameSource = str raw ''nameSource'',
      s_CWD = str raw ''cwd'',
      s_Kind = str raw ''kind'',
      s_Status = str raw ''status'',
      s_WaitingFor = str raw ''waitingFor'',
      s_Entrypoint = str raw ''entrypoint'',
      s_Agent = str raw ''agent'',
      s_JobID = str raw ''jobId'',
      s_LogPath = str raw ''logPath'',
      s_Tmux = str raw ''tmux'',
      s_ProcStart = str raw ''procStart'',
      s_PeerProtocol = intOf w raw ''peerProtocol'',
      s_StartedAt = epochMS w raw ''startedAt'',
      s_UpdatedAt = epochMS w raw ''updatedAt'',
      s_StatusUpdatedAt = epochMS w raw ''statusUpdatedAt'',
      s_File = path,
      s_Raw = raw\<rparr>"

definition readSessionFile :: "world \<Rightarrow> gostring \<Rightarrow> int \<Rightarrow> session result" where
  "readSessionFile w path pid =
     (case readSmallFile w path maxRegistryFileBytes of
        Inl NotSmallFile \<Rightarrow> Inl (NotReadableFile path)
      | Inl e \<Rightarrow> Inl e
      | Inr data \<Rightarrow>
          (case parse_json data of
             None \<Rightarrow> Inl (BadJSON data)
           | Some v \<Rightarrow>
               (case decode_map v of
                  None \<Rightarrow> Inl (BadJSON data)
                | Some raw \<Rightarrow> Inr (session_of w path pid raw))))"

definition session_address :: "session \<Rightarrow> gostring" where
  "session_address s = (if s_SocketPath s = [] then [] else Address (s_SocketPath s))"

definition Verify :: "session \<Rightarrow> gostring \<Rightarrow> bool" where
  "Verify s sessionID = (if sessionID = [] then False else s_SessionID s = sessionID)"

definition MatchesProcess :: "session \<Rightarrow> gostring \<Rightarrow> bool" where
  "MatchesProcess s procStart \<longleftrightarrow> procStart \<noteq> [] \<and> s_ProcStart s = procStart"

definition Running :: "world \<Rightarrow> session \<Rightarrow> bool" where
  "Running w s = (if s_PID s \<le> 1 then False else processAlive w (s_PID s))"

definition defaultProbeTimeout :: duration where
  "defaultProbeTimeout = 250 * Millisecond"

text \<open>\<^verbatim>\<open>Probe\<close> of \<^verbatim>\<open>client.go\<close>: a connection attempt, closed at once.\<close>

definition Probe :: "world \<Rightarrow> gostring \<Rightarrow> duration \<Rightarrow> bool" where
  "Probe w socketPath timeout =
     dial_ok w socketPath (if timeout \<le> 0 then defaultProbeTimeout else timeout)"

definition Reachable :: "world \<Rightarrow> session \<Rightarrow> duration \<Rightarrow> bool" where
  "Reachable w s timeout = (if s_SocketPath s = [] then False else Probe w (s_SocketPath s) timeout)"

section \<open>Listing\<close>

text \<open>\<^verbatim>\<open>^(\d+)\.json$\<close>.\<close>

definition pidJSONRe :: "gostring \<Rightarrow> gostring option" where
  "pidJSONRe name =
     (let ds = takeWhile is_digit name
      in if ds \<noteq> [] \<and> drop (length ds) name = ''.json'' then Some ds else None)"

definition registry_entry :: "world \<Rightarrow> gostring \<Rightarrow> gostring \<Rightarrow> session option" where
  "registry_entry w dir name =
     (case pidJSONRe name of
        None \<Rightarrow> None
      | Some ds \<Rightarrow>
          (case Atoi_digits ds of
             None \<Rightarrow> None
           | Some pid \<Rightarrow>
               if Itoa pid \<noteq> ds then None
               else (case readSessionFile w (Join [dir, name]) pid of
                       Inl e \<Rightarrow> None
                     | Inr s \<Rightarrow> Some s)))"

text \<open>
  The comparison closure of \<^verbatim>\<open>sort.Slice\<close>, as an order on the two values it looks at.
\<close>

datatype session_order = StartKey gotime int

fun started_before :: "session_order \<Rightarrow> session_order \<Rightarrow> bool" where
  "started_before (StartKey t p) (StartKey t' p') = (if t = t' then p < p' else t < t')"

instantiation session_order :: linorder
begin

definition less_session_order :: "session_order \<Rightarrow> session_order \<Rightarrow> bool" where
  "less_session_order = started_before"

definition less_eq_session_order :: "session_order \<Rightarrow> session_order \<Rightarrow> bool" where
  "less_eq_session_order a b \<longleftrightarrow> a = b \<or> started_before a b"

instance
proof
  fix a b c :: session_order
  note order = less_session_order_def less_eq_session_order_def
  show "a < b \<longleftrightarrow> a \<le> b \<and> \<not> b \<le> a"
    by (cases a; cases b) (auto simp: order split: if_splits)
  show "a \<le> a" by (simp add: order)
  show "a \<le> b \<Longrightarrow> b \<le> c \<Longrightarrow> a \<le> c"
    by (cases a; cases b; cases c) (auto simp: order split: if_splits)
  show "a \<le> b \<Longrightarrow> b \<le> a \<Longrightarrow> a = b"
    by (cases a; cases b) (auto simp: order split: if_splits)
  show "a \<le> b \<or> b \<le> a"
    by (cases a; cases b) (auto simp: order split: if_splits)
qed

end

lemma less_StartKey [simp]: "StartKey t p < StartKey t' p' \<longleftrightarrow> (if t = t' then p < p' else t < t')"
  by (simp add: less_session_order_def)

definition start_key :: "session \<Rightarrow> session_order" where
  "start_key s = StartKey (s_StartedAt s) (s_PID s)"

definition ListSessions :: "world \<Rightarrow> session list result" where
  "ListSessions w =
     and_then (SessionsDir w) (\<lambda>dir.
       (case readdir w dir of
          Inl NotExist \<Rightarrow> Inr []
        | Inl e \<Rightarrow> Inl (ReadDirFailed dir e)
        | Inr names \<Rightarrow> Inr (sort_key start_key (List.map_filter (registry_entry w dir) names))))"

section \<open>Lookups\<close>

definition FindByPID :: "world \<Rightarrow> int \<Rightarrow> session result" where
  "FindByPID w pid =
     and_then (ListSessions w) (\<lambda>sessions.
       (case find (\<lambda>s. s_PID s = pid) sessions of
          Some s \<Rightarrow> Inr s
        | None \<Rightarrow> Inl (NotFoundPID pid)))"

definition FindByPIDForSession :: "world \<Rightarrow> int \<Rightarrow> gostring \<Rightarrow> session result" where
  "FindByPIDForSession w pid sessionID =
     and_then (FindByPID w pid) (\<lambda>s.
     and_then (ensure (Verify s sessionID) (NotFoundOtherSession pid)) (\<lambda>_. Inr s))"

definition FindByPIDForProcess :: "world \<Rightarrow> int \<Rightarrow> gostring \<Rightarrow> session result" where
  "FindByPIDForProcess w pid procStart =
     and_then (FindByPID w pid) (\<lambda>s.
     and_then (ensure (MatchesProcess s procStart) (NotFoundOtherProcess pid)) (\<lambda>_. Inr s))"

definition pickOne :: "world \<Rightarrow> session list \<Rightarrow> gostring \<Rightarrow> duration \<Rightarrow> session result" where
  "pickOne w matches what probe =
     (case matches of
        [] \<Rightarrow> Inl (NotFoundFor what)
      | [s] \<Rightarrow> Inr s
      | _ \<Rightarrow>
          (case filter (\<lambda>s. Reachable w s probe) matches of
             [] \<Rightarrow> Inl (NotFoundAllStale (length matches) what)
           | [s] \<Rightarrow> Inr s
           | live \<Rightarrow> Inl (Ambiguous (length live) what)))"

definition findBySessionID :: "world \<Rightarrow> gostring \<Rightarrow> duration \<Rightarrow> session result" where
  "findBySessionID w sessionID probe =
     and_then (ensure (sessionID \<noteq> []) NotFoundEmptySessionID) (\<lambda>_.
     and_then (ListSessions w) (\<lambda>sessions.
       pickOne w (filter (\<lambda>s. s_SessionID s = sessionID) sessions) (''session id '' @ sessionID) probe))"

definition findByName :: "world \<Rightarrow> gostring \<Rightarrow> duration \<Rightarrow> session result" where
  "findByName w name probe =
     and_then (ensure (name \<noteq> []) NotFoundEmptyName) (\<lambda>_.
     and_then (ListSessions w) (\<lambda>sessions.
       pickOne w (filter (\<lambda>s. s_Name s = name) sessions) (''name '' @ quote w name) probe))"

definition FindBySessionID :: "world \<Rightarrow> gostring \<Rightarrow> session result" where
  "FindBySessionID w sessionID = findBySessionID w sessionID defaultProbeTimeout"

definition FindByName :: "world \<Rightarrow> gostring \<Rightarrow> session result" where
  "FindByName w name = findByName w name defaultProbeTimeout"

section \<open>The listing\<close>

lemma pidJSONRe_iff: "pidJSONRe name = Some ds \<longleftrightarrow> name = ds @ ''.json'' \<and> ds \<noteq> [] \<and> list_all is_digit ds"
proof
  assume a: "pidJSONRe name = Some ds"
  then have ds: "ds = takeWhile is_digit name" "ds \<noteq> []" "drop (length ds) name = ''.json''"
    by (auto simp: pidJSONRe_def Let_def split: if_splits)
  have "list_all is_digit ds" unfolding ds(1) by (auto simp: list_all_iff dest: set_takeWhileD)
  moreover have "name = ds @ ''.json''"
    by (metis ds(1,3) dropWhile_eq_drop takeWhile_dropWhile_id)
  ultimately show "name = ds @ ''.json'' \<and> ds \<noteq> [] \<and> list_all is_digit ds" using ds(2) by simp
next
  assume a: "name = ds @ ''.json'' \<and> ds \<noteq> [] \<and> list_all is_digit ds"
  then have "takeWhile is_digit name = ds"
    by (simp add: list_all_iff takeWhile_append2 is_digit_def)
  with a show "pidJSONRe name = Some ds" by (simp add: pidJSONRe_def)
qed

lemma Itoa_digits: "0 \<le> pid \<Longrightarrow> list_all is_digit (Itoa pid)"
  using nat_str_digits[of "nat pid"] by (simp add: Itoa_def list_all_iff)

definition registry_name :: "int \<Rightarrow> gostring" where
  "registry_name pid = Itoa pid @ ''.json''"

definition valid_pid :: "int \<Rightarrow> bool" where
  "valid_pid pid \<longleftrightarrow> 0 \<le> pid \<and> pid \<le> max_int"

lemma registry_name_inj: "registry_name p = registry_name q \<Longrightarrow> valid_pid p \<Longrightarrow> valid_pid q \<Longrightarrow> p = q"
  by (auto simp: registry_name_def valid_pid_def dest: Itoa_inj_nonneg)

lemma Atoi_digits_range: "Atoi_digits ds = Some pid \<Longrightarrow> valid_pid pid"
  by (auto simp: Atoi_digits_def valid_pid_def split: if_splits)

lemma registry_entry_iff:
  "registry_entry w dir name = Some s \<longleftrightarrow>
     (\<exists>pid. valid_pid pid \<and> name = registry_name pid \<and> readSessionFile w (Join [dir, name]) pid = Inr s)"
proof
  assume "registry_entry w dir name = Some s"
  then obtain ds pid where "pidJSONRe name = Some ds" "Atoi_digits ds = Some pid" "Itoa pid = ds"
    "readSessionFile w (Join [dir, name]) pid = Inr s"
    by (auto simp: registry_entry_def split: option.splits if_splits sum.splits)
  then show "\<exists>pid. valid_pid pid \<and> name = registry_name pid \<and> readSessionFile w (Join [dir, name]) pid = Inr s"
    by (auto simp: pidJSONRe_iff registry_name_def dest: Atoi_digits_range)
next
  assume "\<exists>pid. valid_pid pid \<and> name = registry_name pid \<and> readSessionFile w (Join [dir, name]) pid = Inr s"
  then obtain pid where p: "valid_pid pid" "name = registry_name pid"
    "readSessionFile w (Join [dir, name]) pid = Inr s" by blast
  then have "pidJSONRe name = Some (Itoa pid)" "Atoi_digits (Itoa pid) = Some pid"
    by (simp_all add: pidJSONRe_iff registry_name_def valid_pid_def Itoa_digits Atoi_Itoa)
  with p(3) show "registry_entry w dir name = Some s" by (simp add: registry_entry_def)
qed

lemma readSessionFile_PID: "readSessionFile w path pid = Inr s \<Longrightarrow> s_PID s = pid"
  by (auto simp: readSessionFile_def session_of_def split: sum.splits goerror.splits option.splits)

lemma registry_entry_PID: "registry_entry w dir name = Some s \<Longrightarrow> valid_pid (s_PID s) \<and> name = registry_name (s_PID s)"
  by (auto simp: registry_entry_iff dest: readSessionFile_PID)

lemma entries_distinct:
  assumes "distinct names"
  shows "distinct (map s_PID (List.map_filter (registry_entry w dir) names))"
  using assms
proof (induction names)
  case (Cons n names)
  show ?case
  proof (cases "registry_entry w dir n")
    case (Some s)
    have "s_PID s \<notin> s_PID ` set (List.map_filter (registry_entry w dir) names)"
    proof
      assume "s_PID s \<in> s_PID ` set (List.map_filter (registry_entry w dir) names)"
      then obtain m s' where "m \<in> set names" "registry_entry w dir m = Some s'" "s_PID s' = s_PID s"
        by (auto simp: List.map_filter_def)
      with registry_entry_PID[OF Some] registry_entry_PID[of w dir m s'] Cons.prems show False by auto
    qed
    with Cons Some show ?thesis by simp
  qed (use Cons in simp)
qed simp

lemma ListSessions_Inr:
  "ListSessions w = Inr ss \<longleftrightarrow>
     (\<exists>dir. SessionsDir w = Inr dir \<and>
        ((readdir w dir = Inl NotExist \<and> ss = []) \<or>
         (\<exists>names. readdir w dir = Inr names \<and>
            ss = sort_key start_key (List.map_filter (registry_entry w dir) names))))"
proof (cases "SessionsDir w")
  case (Inr dir)
  then show ?thesis
    by (cases "readdir w dir") (auto simp: ListSessions_def split: oserror.splits)
qed (simp add: ListSessions_def)

text \<open>A directory lists each name once (\<^verbatim>\<open>readdir(3)\<close>, \<^verbatim>\<open>os.ReadDir\<close>).\<close>

definition names_distinct :: "world \<Rightarrow> bool" where
  "names_distinct w \<longleftrightarrow>
     (case SessionsDir w of Inl e \<Rightarrow> True
      | Inr dir \<Rightarrow> (case readdir w dir of Inl e \<Rightarrow> True | Inr names \<Rightarrow> distinct names))"

lemma distinct_map_mset: "mset xs = mset ys \<Longrightarrow> distinct (map f xs) = distinct (map f ys)"
  by (metis mset_eq_imp_distinct_iff mset_map)

lemma ListSessions_distinct:
  assumes "names_distinct w" "ListSessions w = Inr ss"
  shows "distinct (map s_PID ss)"
proof -
  from assms(2) obtain dir where d: "SessionsDir w = Inr dir"
    "(readdir w dir = Inl NotExist \<and> ss = []) \<or>
     (\<exists>names. readdir w dir = Inr names \<and> ss = sort_key start_key (List.map_filter (registry_entry w dir) names))"
    unfolding ListSessions_Inr by blast
  then show ?thesis
  proof (elim disjE exE conjE)
    fix names
    assume n: "readdir w dir = Inr names"
      "ss = sort_key start_key (List.map_filter (registry_entry w dir) names)"
    from n(1) d(1) assms(1) have "distinct names" by (simp add: names_distinct_def)
    from entries_distinct[OF this, of w dir] n(2) show ?thesis
      using distinct_map_mset[of ss "List.map_filter (registry_entry w dir) names" s_PID] by simp
  qed simp
qed

text \<open>
  The interface the lookups rely on: a registry whose entries are told apart by a key.
  Looking an entry up by its key then has one possible answer.
\<close>

locale keyed_registry =
  fixes entries :: "'w \<Rightarrow> 'e + 's list"
    and key :: "'s \<Rightarrow> 'k"
    and wf :: "'w \<Rightarrow> bool"
  assumes distinct_keys: "wf w \<Longrightarrow> entries w = Inr ss \<Longrightarrow> distinct (map key ss)"
begin

lemma find_key_iff:
  assumes "wf w" "entries w = Inr ss"
  shows "find (\<lambda>s. key s = k) ss = Some s \<longleftrightarrow> s \<in> set ss \<and> key s = k"
  using distinct_keys[OF assms] by (induction ss) auto

lemma key_determines:
  assumes "wf w" "entries w = Inr ss" "s \<in> set ss" "s' \<in> set ss" "key s = key s'"
  shows "s = s'"
  using distinct_keys[OF assms(1,2)] assms(3-5) by (meson distinct_map inj_onD)

end

interpretation registry: keyed_registry ListSessions s_PID names_distinct
  by unfold_locales (rule ListSessions_distinct)

lemma set_map_filter': "y \<in> set (List.map_filter f xs) \<longleftrightarrow> (\<exists>x \<in> set xs. f x = Some y)"
  by (induction xs) (auto split: option.splits)

lemma ListSessions_member:
  assumes "SessionsDir w = Inr dir" "readdir w dir = Inr names" "ListSessions w = Inr ss"
  shows "s \<in> set ss \<longleftrightarrow>
     (\<exists>pid. valid_pid pid \<and> registry_name pid \<in> set names \<and>
        readSessionFile w (Join [dir, registry_name pid]) pid = Inr s)"
proof -
  have "ss = sort_key start_key (List.map_filter (registry_entry w dir) names)"
    using assms by (simp add: ListSessions_def)
  then have "s \<in> set ss \<longleftrightarrow> (\<exists>n \<in> set names. registry_entry w dir n = Some s)"
    by (simp add: set_map_filter')
  then show ?thesis unfolding registry_entry_iff by auto
qed

lemma FindByPID_iff:
  assumes "names_distinct w" "SessionsDir w = Inr dir" "readdir w dir = Inr names"
  shows "FindByPID w pid = Inr s \<longleftrightarrow>
     valid_pid pid \<and> registry_name pid \<in> set names \<and>
     readSessionFile w (Join [dir, registry_name pid]) pid = Inr s"
proof -
  obtain ss where ss: "ListSessions w = Inr ss" using assms by (simp add: ListSessions_def)
  have "FindByPID w pid = Inr s \<longleftrightarrow> find (\<lambda>s. s_PID s = pid) ss = Some s"
    by (simp add: FindByPID_def ss split: option.splits)
  also have "\<dots> \<longleftrightarrow> s \<in> set ss \<and> s_PID s = pid"
    by (rule registry.find_key_iff[OF assms(1) ss])
  also have "\<dots> \<longleftrightarrow> valid_pid pid \<and> registry_name pid \<in> set names \<and>
      readSessionFile w (Join [dir, registry_name pid]) pid = Inr s"
    unfolding ListSessions_member[OF assms(2,3) ss] by (auto dest: readSessionFile_PID)
  finally show ?thesis .
qed

lemma FindByPID_error:
  assumes "SessionsDir w = Inr dir" "readdir w dir = Inr names" "FindByPID w pid = Inl e"
  shows "e = NotFoundPID pid"
  using assms by (auto simp: FindByPID_def ListSessions_def split: option.splits)

section \<open>Picking one of several\<close>

definition live_matches :: "world \<Rightarrow> duration \<Rightarrow> session list \<Rightarrow> session list" where
  "live_matches w probe ms = filter (\<lambda>s. Reachable w s probe) ms"

lemma pickOne_few: "pickOne w [] what probe = Inl (NotFoundFor what)" "pickOne w [s] what probe = Inr s"
  by (simp_all add: pickOne_def)

lemma pickOne_many:
  assumes "2 \<le> length ms"
  shows "pickOne w ms what probe =
    (case live_matches w probe ms of
       [] \<Rightarrow> Inl (NotFoundAllStale (length ms) what)
     | [s] \<Rightarrow> Inr s
     | live \<Rightarrow> Inl (Ambiguous (length live) what))"
  using assms by (cases ms; cases "tl ms") (auto simp: pickOne_def live_matches_def)

lemma few_or_many: "ms = [] \<or> (\<exists>s. ms = [s]) \<or> 2 \<le> length ms"
  by (cases ms; cases "tl ms") auto

lemma pickOne_Inr:
  "pickOne w ms what probe = Inr s \<longleftrightarrow> ms = [s] \<or> (2 \<le> length ms \<and> live_matches w probe ms = [s])"
  using few_or_many[of ms] by (auto simp: pickOne_few pickOne_many split: list.splits)

lemma pickOne_NotFound:
  "(\<exists>e. pickOne w ms what probe = Inl e \<and> is_ErrNotFound e) \<longleftrightarrow>
     ms = [] \<or> (2 \<le> length ms \<and> live_matches w probe ms = [])"
  using few_or_many[of ms] by (auto simp: pickOne_few pickOne_many split: list.splits)

lemma pickOne_Ambiguous:
  "(\<exists>e. pickOne w ms what probe = Inl e \<and> is_ErrAmbiguous e) \<longleftrightarrow>
     2 \<le> length (live_matches w probe ms) \<and> 2 \<le> length ms"
  using few_or_many[of ms] by (auto simp: pickOne_few pickOne_many split: list.splits)

lemma length_live_matches: "length (live_matches w probe ms) \<le> length ms"
  by (simp add: live_matches_def)

lemma find_matching_Inr:
  assumes "ListSessions w = Inr ss" "i \<noteq> []"
  shows "findBySessionID w i probe = pickOne w (filter (\<lambda>s. s_SessionID s = i) ss) (''session id '' @ i) probe"
    and "findByName w i probe = pickOne w (filter (\<lambda>s. s_Name s = i) ss) (''name '' @ quote w i) probe"
  using assms by (simp_all add: findBySessionID_def findByName_def)

section \<open>Numbers\<close>

lemma dec_val_digits_Itoa: "0 \<le> n \<Longrightarrow> dec_val (Itoa n) = nat n"
  by (simp add: Itoa_def)

lemma ParseFloat_int:
  assumes "0 \<le> n"
  shows "ParseFloat (Itoa n) = map_option (\<lambda>(m, k). \<lparr>mant = int m, expo = k\<rparr>) (round64 (nat n) 1)"
proof -
  have d: "list_all is_digit (Itoa n)" using assms by (rule Itoa_digits)
  then have t: "takeWhile is_digit (Itoa n) = Itoa n"
    by (simp add: list_all_iff takeWhile_eq_all_conv)
  have "\<not> HasPrefix (Itoa n) ''-''"
    using d by (cases "Itoa n") (auto simp: is_digit_def)
  then show ?thesis
    using assms by (simp add: ParseFloat_def t literal_exponent_def dec_val_digits_Itoa)
qed

lemma ParseFloat_exact:
  assumes "0 \<le> n" "n < 2 ^ 53"
  obtains v where "ParseFloat (Itoa n) = Some v" "float_trunc v = n" "\<not> float_neg v"
    "\<And>k. float_greater v k \<longleftrightarrow> n > k"
proof (cases "n = 0")
  case True
  then have "ParseFloat (Itoa n) = Some \<lparr>mant = 0, expo = 0\<rparr>"
    by (simp add: ParseFloat_int round64_def)
  then show thesis
    by (rule that) (simp_all add: float_trunc_def float_neg_def float_greater_def True)
next
  case False
  with assms have "0 < nat n" "nat n < 2 ^ 53" by (simp_all add: nat_less_iff)
  then obtain m e where r: "round64 (nat n) 1 = Some (m, e)" "e \<le> 0" "m = nat n * 2 ^ nat (- e)"
    using round64_int[of "nat n"] by blast
  define v where "v = \<lparr>mant = int m, expo = e\<rparr>"
  have m: "int m = n * 2 ^ nat (- e)" using r(3) assms(1) by simp
  have "ParseFloat (Itoa n) = Some v" using assms(1) r(1) by (simp add: ParseFloat_int v_def del: One_nat_def)
  moreover have "float_trunc v = n"
    using r(2) m assms(1) by (cases "e = 0") (auto simp: float_trunc_def v_def sgn_mult abs_mult sgn_1_pos)
  moreover have "\<not> float_neg v" by (simp add: float_neg_def v_def)
  moreover have "float_greater v k \<longleftrightarrow> n > k" for k
    using r(2) m by (cases "e = 0") (auto simp: float_greater_def v_def)
  ultimately show thesis by (rule that)
qed

lemma epochMS_int:
  assumes "map_get raw k = Some (JNum (Itoa n))" "0 \<le> n" "n < 2 ^ 53"
  shows "epochMS w raw k = (if n \<le> maxSaneEpochMS then n else zero_time)"
proof -
  obtain v where v: "ParseFloat (Itoa n) = Some v" "float_trunc v = n" "\<not> float_neg v"
    "\<And>k. float_greater v k \<longleftrightarrow> n > k"
    using ParseFloat_exact[OF assms(2,3)] by blast
  have "float_to_int w v = n" using assms(2,3) by (simp add: float_to_int_def v(2) max_int_def)
  then show ?thesis
    using v(3,4) by (simp add: epochMS_def float_of_def assms(1) v(1))
qed

lemma intOf_int:
  assumes "map_get raw k = Some (JNum (Itoa n))" "0 \<le> n" "n < 2 ^ 53"
  shows "intOf w raw k = n"
proof -
  obtain v where "ParseFloat (Itoa n) = Some v" "float_trunc v = n"
    using ParseFloat_exact[OF assms(2,3)] by blast
  with assms show ?thesis by (simp add: intOf_def float_of_def float_to_int_def max_int_def)
qed

lemma sorted_key_unique:
  "mset xs = mset ys \<Longrightarrow> sorted (map f xs) \<Longrightarrow> sorted (map f ys) \<Longrightarrow> distinct (map f xs) \<Longrightarrow> xs = ys"
proof -
  assume m: "mset xs = mset ys" and s: "sorted (map f xs)" "sorted (map f ys)" and d: "distinct (map f xs)"
  then have i: "inj_on f (set xs)" by (simp add: distinct_map)
  have set: "set ys = set xs" using m by (metis set_mset_mset)
  have "mset (map f xs) = mset (map f ys)" using m by simp
  then have "sort (map f xs) = map f ys" using s(2) by (intro properties_for_sort) simp_all
  with sorted_sort_id[OF s(1)] have e: "map f xs = map f ys" by (rule trans [OF sym])
  have "inj_on f (set xs \<union> set ys)" using i by (simp only: set Un_absorb)
  from inj_on_map_eq_map[OF this] e show "xs = ys" by blast
qed

lemma distinct_start_key: "distinct (map s_PID ss) \<Longrightarrow> distinct (map start_key ss)"
  by (auto simp: distinct_map inj_on_def start_key_def)

section \<open>A registry file as a session writes it\<close>

definition registry_file :: "rawmap \<Rightarrow> open_file" where
  "registry_file ms =
     (let s = print_json (JObj ms) in \<lparr>fstat = Inr (True, int (length s)), contents = s, read_error = None\<rparr>)"

text \<open>The text fields of a session, each with the key it is read from.\<close>

definition string_fields :: "(gostring \<times> (session \<Rightarrow> gostring)) list" where
  "string_fields =
     [(''sessionId'', s_SessionID), (''messagingSocketPath'', s_SocketPath), (''name'', s_Name),
      (''nameSource'', s_NameSource), (''cwd'', s_CWD), (''kind'', s_Kind), (''status'', s_Status),
      (''waitingFor'', s_WaitingFor), (''entrypoint'', s_Entrypoint), (''agent'', s_Agent),
      (''jobId'', s_JobID), (''logPath'', s_LogPath), (''tmux'', s_Tmux), (''procStart'', s_ProcStart)]"

definition time_fields :: "(gostring \<times> (session \<Rightarrow> gotime)) list" where
  "time_fields =
     [(''startedAt'', s_StartedAt), (''updatedAt'', s_UpdatedAt), (''statusUpdatedAt'', s_StatusUpdatedAt)]"

lemma map_get_distinct: "distinct (map fst ms) \<Longrightarrow> map_get ms k = Some v \<longleftrightarrow> (k, v) \<in> set ms"
  by (simp add: map_get_def map_of_eq_Some_iff rev_map [symmetric])

lemma map_get_absent: "k \<notin> fst ` set ms \<Longrightarrow> map_get ms k = None"
  by (simp add: map_get_def map_of_eq_None_iff)

lemma session_of_strings:
  assumes "(k, get) \<in> set string_fields"
  shows "get (session_of w path pid ms) = str ms k"
  using assms by (auto simp: string_fields_def session_of_def)

lemma session_of_times:
  assumes "(k, get) \<in> set time_fields"
  shows "get (session_of w path pid ms) = epochMS w ms k"
  using assms by (auto simp: time_fields_def session_of_def)

lemma readSessionFile_registry_file:
  assumes "openNoFollow w path = Inr (registry_file ms)" "json_ok (JObj ms)" "numbers_ok (JObj ms)"
    and "length (print_json (JObj ms)) \<le> maxRegistryFileBytes"
  shows "readSessionFile w path pid = Inr (session_of w path pid ms)"
proof -
  have "json_decode (print_json (JObj ms)) = Inr (JObj ms)" using assms(2) by (rule json.dec_enc)
  then have "parse_json (print_json (JObj ms)) = Some (JObj ms)"
    by (simp add: json_decode_def del: print_json.simps split: option.splits)
  moreover have "readSmallFile w path maxRegistryFileBytes = Inr (print_json (JObj ms))"
    using assms(1,4)
    by (simp add: readSmallFile_def registry_file_def Let_def read_limited_def del: print_json.simps)
  ultimately show ?thesis
    using assms(3) by (simp add: readSessionFile_def decode_map_def del: print_json.simps numbers_ok.simps)
qed

section \<open>What a session can hold\<close>

lemma epochMS_bounds: "epochMS w ms k = zero_time \<or> 0 \<le> epochMS w ms k \<and> epochMS w ms k \<le> maxSaneEpochMS"
proof (cases "float_of ms k")
  case (Some v)
  have "0 \<le> float_trunc v \<and> float_trunc v \<le> maxSaneEpochMS" if v: "\<not> float_neg v" "\<not> float_greater v maxSaneEpochMS"
  proof (cases "0 \<le> expo v")
    case False
    have "mant v div 2 ^ nat (- expo v) \<le> maxSaneEpochMS * 2 ^ nat (- expo v) div 2 ^ nat (- expo v)"
      using v False by (intro zdiv_mono1) (simp_all add: float_greater_def)
    with v False show ?thesis
      by (cases "mant v = 0") (simp_all add: float_trunc_def float_neg_def maxSaneEpochMS_def pos_imp_zdiv_nonneg_iff)
  qed (use v in \<open>simp add: float_trunc_def float_neg_def float_greater_def\<close>)
  with Some show ?thesis
    by (auto simp: epochMS_def float_to_int_def maxSaneEpochMS_def max_int_def)
qed (simp add: epochMS_def)

lemma map_get_mem: "map_get ms k = Some v \<Longrightarrow> (k, v) \<in> set ms"
  by (auto simp: map_get_def dest: map_of_SomeD)

lemma str_utf8: "all_utf8 (JObj ms) \<Longrightarrow> ValidString (str ms k)"
  by (fastforce simp: str_def list_all_iff dest: map_get_mem split: option.split json.split)

text \<open>A well-typed session: what any registry file, whatever its bytes, can make of one.\<close>

definition session_typed :: "session \<Rightarrow> bool" where
  "session_typed s \<longleftrightarrow> valid_pid (s_PID s) \<and> list_all (\<lambda>(k, get). ValidString (get s)) string_fields \<and>
     list_all (\<lambda>(k, get). get s = zero_time \<or> 0 \<le> get s \<and> get s \<le> maxSaneEpochMS) time_fields"

lemma readSessionFile_typed:
  assumes "readSessionFile w path pid = Inr s" "valid_pid pid"
  shows "session_typed s"
proof -
  obtain data v ms where d: "parse_json data = Some v" "decode_map v = Some ms" "s = session_of w path pid ms"
    using assms(1) by (auto simp: readSessionFile_def split: sum.splits goerror.splits option.splits)
  have "all_utf8 (JObj ms)"
    using parse_json_utf8 [OF d(1)] d(2) by (auto simp: decode_map_def split: if_splits json.splits)
  then have "list_all (\<lambda>(k, get). ValidString (get s)) string_fields"
    by (simp add: d(3) string_fields_def session_of_def str_utf8 del: all_utf8.simps)
  moreover have "list_all (\<lambda>(k, get). get s = zero_time \<or> 0 \<le> get s \<and> get s \<le> maxSaneEpochMS) time_fields"
    using epochMS_bounds by (simp add: d(3) time_fields_def session_of_def)
  ultimately show ?thesis using assms(2) by (simp add: session_typed_def d(3) session_of_def)
qed

lemma ListSessions_typed:
  assumes "ListSessions w = Inr ss" "s \<in> set ss"
  shows "session_typed s"
proof -
  obtain dir name where "registry_entry w dir name = Some s"
    using assms by (auto simp: ListSessions_Inr List.map_filter_def)
  then show ?thesis unfolding registry_entry_iff using readSessionFile_typed by blast
qed

section \<open>Properties\<close>

text \<open>
  Property C34: a listing is sorted by start time, oldest first, with ties broken by PID, and
  holds at most one session per PID; it is the only such order of its entries, so the
  unstable sort of \<^verbatim>\<open>sort.Slice\<close> cannot produce another.
\<close>

theorem listing_sorted:
  assumes "names_distinct w" "ListSessions w = Inr ss"
  shows "sorted (map start_key ss) \<and> distinct (map s_PID ss) \<and>
    (\<forall>ss'. mset ss' = mset ss \<and> sorted (map start_key ss') \<longrightarrow> ss' = ss)"
proof -
  have "distinct (map s_PID ss)" using assms by (rule ListSessions_distinct)
  moreover have "sorted (map start_key ss)" using assms(2) by (auto simp: ListSessions_Inr)
  moreover have "ss' = ss" if "mset ss' = mset ss" "sorted (map start_key ss')" for ss'
    by (rule sorted_key_unique [where f = start_key, symmetric])
      (use that calculation distinct_start_key in simp_all)
  ultimately show ?thesis by blast
qed

text \<open>
  Property C9: the listing is complete and sound: a session is listed exactly when the
  directory has a file \<^verbatim>\<open><pid>.json\<close>, for a PID in canonical decimal form, that reads as
  that session; entries that cannot be read or parsed are left out and harm no other.
\<close>

theorem listing_complete:
  assumes "SessionsDir w = Inr dir" "readdir w dir = Inr names"
  shows "\<exists>ss. ListSessions w = Inr ss \<and>
    (\<forall>s. s \<in> set ss \<longleftrightarrow> (\<exists>pid. 0 \<le> pid \<and> pid \<le> max_int \<and> Itoa pid @ ''.json'' \<in> set names \<and>
       readSessionFile w (Join [dir, Itoa pid @ ''.json'']) pid = Inr s))"
proof -
  obtain ss where "ListSessions w = Inr ss" using assms by (simp add: ListSessions_def)
  with ListSessions_member[OF assms this] show ?thesis
    by (auto simp: valid_pid_def registry_name_def)
qed

text \<open>
  Property C35: \<^verbatim>\<open>FindByPID\<close>, which lists and sorts the whole registry, has the same
  outcome as reading the one file \<^verbatim>\<open><pid>.json\<close>: it returns that session when the file is
  there and readable, and a not-found error naming the PID otherwise.
\<close>

theorem find_by_pid_refines:
  assumes "names_distinct w" "SessionsDir w = Inr dir" "readdir w dir = Inr names"
  shows "FindByPID w pid =
    (if 0 \<le> pid \<and> pid \<le> max_int \<and> Itoa pid @ ''.json'' \<in> set names then
       (case readSessionFile w (Join [dir, Itoa pid @ ''.json'']) pid of
          Inr s \<Rightarrow> Inr s
        | Inl e \<Rightarrow> Inl (NotFoundPID pid))
     else Inl (NotFoundPID pid))"
proof (cases "FindByPID w pid")
  case (Inl e)
  with FindByPID_error[OF assms(2,3)] FindByPID_iff[OF assms, of pid] show ?thesis
    by (auto simp: valid_pid_def registry_name_def split: sum.splits)
next
  case (Inr s)
  with FindByPID_iff[OF assms, of pid s] show ?thesis
    by (simp add: valid_pid_def registry_name_def)
qed

text \<open>
  The guarded lookups never return another session or another process: a
  success carries the PID, and the session id or start token, that was asked for, neither of
  them empty; a recycled PID gives a not-found error.
\<close>

theorem guarded_lookup_safe:
  "(\<forall>s. FindByPIDForSession w pid i = Inr s \<longleftrightarrow> FindByPID w pid = Inr s \<and> i \<noteq> [] \<and> s_SessionID s = i) \<and>
   (\<forall>s. FindByPIDForProcess w pid t = Inr s \<longleftrightarrow> FindByPID w pid = Inr s \<and> t \<noteq> [] \<and> s_ProcStart s = t) \<and>
   (\<forall>s. FindByPID w pid = Inr s \<and> (i = [] \<or> s_SessionID s \<noteq> i) \<longrightarrow>
      FindByPIDForSession w pid i = Inl (NotFoundOtherSession pid)) \<and>
   (\<forall>s. FindByPID w pid = Inr s \<and> (t = [] \<or> s_ProcStart s \<noteq> t) \<longrightarrow>
      FindByPIDForProcess w pid t = Inl (NotFoundOtherProcess pid))"
  by (auto simp: FindByPIDForSession_def FindByPIDForProcess_def error_simps Verify_def MatchesProcess_def)

text \<open>
  Property C11: a lookup by session id or by name succeeds exactly when one entry matches or
  one of several matching entries is reachable, and it returns that entry; it reports
  ambiguity exactly when several matching entries are reachable, and not-found exactly when
  nothing matches or none of several matches is reachable.
\<close>

theorem lookup_outcomes:
  assumes "ListSessions w = Inr ss" "k \<noteq> []"
    and "(r = findBySessionID w k probe \<and> ms = filter (\<lambda>s. s_SessionID s = k) ss) \<or>
         (r = findByName w k probe \<and> ms = filter (\<lambda>s. s_Name s = k) ss)"
    and "live = filter (\<lambda>s. Reachable w s probe) ms"
  shows "(r = Inr s \<longleftrightarrow> ms = [s] \<or> (2 \<le> length ms \<and> live = [s])) \<and>
    ((\<exists>e. r = Inl e \<and> is_ErrNotFound e) \<longleftrightarrow> ms = [] \<or> (2 \<le> length ms \<and> live = [])) \<and>
    ((\<exists>e. r = Inl e \<and> is_ErrAmbiguous e) \<longleftrightarrow> 2 \<le> length live)"
proof -
  obtain what where r: "r = pickOne w ms what probe"
    using assms(3) find_matching_Inr[OF assms(1,2)] by auto
  have l: "live = live_matches w probe ms" by (simp add: assms(4) live_matches_def)
  show ?thesis
    unfolding r l pickOne_Inr pickOne_NotFound pickOne_Ambiguous
    using length_live_matches[of w probe ms] by auto
qed

text \<open>
  Property C10: what a session registers is what is read back.  A registry file that holds a
  JSON object reads, under its PID, as the session whose fields are the object's members:
  text as it was written, whole numbers below \<open>2 ^ 53\<close> exactly, times unless they are past
  the sane limit, absent members as unset; members the package does not know are kept in
  \<^verbatim>\<open>Raw\<close> and change nothing else.
\<close>

theorem registry_roundtrip:
  assumes "openNoFollow w path = Inr (registry_file ms)" "json_ok (JObj ms)" "numbers_ok (JObj ms)"
    and "length (print_json (JObj ms)) \<le> maxRegistryFileBytes" "distinct (map fst ms)"
  shows "\<exists>s. readSessionFile w path pid = Inr s \<and> s_PID s = pid \<and> s_File s = path \<and> s_Raw s = ms \<and>
    (\<forall>(k, get) \<in> set string_fields.
       (\<forall>v. (k, JStr v) \<in> set ms \<longrightarrow> get s = v) \<and> (k \<notin> fst ` set ms \<longrightarrow> get s = [])) \<and>
    (\<forall>(k, get) \<in> set time_fields.
       (\<forall>n. (k, JNum (Itoa n)) \<in> set ms \<and> 0 \<le> n \<and> n < 2 ^ 53 \<longrightarrow>
          get s = (if n \<le> maxSaneEpochMS then n else zero_time)) \<and>
       (k \<notin> fst ` set ms \<longrightarrow> get s = zero_time)) \<and>
    (\<forall>n. (''peerProtocol'', JNum (Itoa n)) \<in> set ms \<and> 0 \<le> n \<and> n < 2 ^ 53 \<longrightarrow> s_PeerProtocol s = n)"
proof -
  let ?s = "session_of w path pid ms"
  note member = map_get_distinct [OF assms(5), THEN iffD2]
  have "\<forall>(k, get) \<in> set string_fields.
      (\<forall>v. (k, JStr v) \<in> set ms \<longrightarrow> get ?s = v) \<and> (k \<notin> fst ` set ms \<longrightarrow> get ?s = [])"
    by (auto simp: session_of_strings str_def map_get_absent dest!: member)
  moreover have "\<forall>(k, get) \<in> set time_fields.
      (\<forall>n. (k, JNum (Itoa n)) \<in> set ms \<and> 0 \<le> n \<and> n < 2 ^ 53 \<longrightarrow>
         get ?s = (if n \<le> maxSaneEpochMS then n else zero_time)) \<and>
      (k \<notin> fst ` set ms \<longrightarrow> get ?s = zero_time)"
  proof (intro ballI, clarify, intro conjI allI impI)
    fix k get n
    assume "(k, get) \<in> set time_fields" and n: "(k, JNum (Itoa n)) \<in> set ms \<and> 0 \<le> n \<and> n < 2 ^ 53"
    then show "get ?s = (if n \<le> maxSaneEpochMS then n else zero_time)"
      using epochMS_int [OF member, of k n w] by (simp add: session_of_times)
  next
    fix k get
    assume "(k, get) \<in> set time_fields" "k \<notin> fst ` set ms"
    then show "get ?s = zero_time" by (simp add: session_of_times epochMS_def float_of_def map_get_absent)
  qed
  moreover have "\<forall>n. (''peerProtocol'', JNum (Itoa n)) \<in> set ms \<and> 0 \<le> n \<and> n < 2 ^ 53 \<longrightarrow>
      s_PeerProtocol ?s = n"
    using intOf_int [OF member] by (simp add: session_of_def)
  moreover have "s_PID ?s = pid" "s_File ?s = path" "s_Raw ?s = ms" by (simp_all add: session_of_def)
  ultimately show ?thesis
    using readSessionFile_registry_file [OF assms(1-4)] by blast
qed

text \<open>
  Whole-number timestamps and protocol versions pass through the floating-point
  decoding unchanged, and timestamps later than the sane limit read as unset.
\<close>

theorem registry_numbers_exact:
  assumes "map_get raw k = Some (JNum (Itoa n))" "0 \<le> n" "n < 2 ^ 53"
  shows "intOf w raw k = n \<and> epochMS w raw k = (if n \<le> maxSaneEpochMS then n else zero_time)"
  using epochMS_int[OF assms] intOf_int[OF assms] by simp

text \<open>
  Property C40: every session a listing shows is well typed, whatever bytes its file holds: its
  PID is in range, all its text is valid UTF-8, and its times are unset or at most the sane
  limit after the epoch.
\<close>

theorem sessions_well_typed:
  assumes "ListSessions w = Inr ss" "s \<in> set ss"
  shows "0 \<le> s_PID s \<and> s_PID s \<le> max_int \<and> (\<forall>(k, get) \<in> set string_fields. ValidString (get s)) \<and>
    (\<forall>(k, get) \<in> set time_fields. get s = zero_time \<or> 0 \<le> get s \<and> get s \<le> maxSaneEpochMS)"
  using ListSessions_typed [OF assms] by (simp add: session_typed_def valid_pid_def list_all_iff)

text \<open>
  A registry or key file is read only when the opened file is regular and at
  most the limit in size, and never more than the limit is taken from it, even when the file
  grows after the check.
\<close>

theorem small_file_bounded:
  assumes "readSmallFile w path limit = Inr data"
  shows "length data \<le> limit \<and> (\<exists>f size'. openNoFollow w path = Inr f \<and> fstat f = Inr (True, size') \<and>
    size' \<le> int limit \<and> data = take limit (contents f))"
  using assms by (auto simp: readSmallFile_def read_limited_def split: sum.splits option.splits if_splits)

end
