(* ===== verification/Client.thy ===== *)
theory Client
  imports Session
begin

text \<open>
  \<^verbatim>\<open>client.go\<close>: sending a frame to an inbox socket.  The file's functions are modelled
  as producing what they did on the network, in order, together with their result; the
  outcomes of the calls into the kernel are given by a \<open>net\<close> record.  The lemmas show the
  exact bytes on the wire and their framing into lines, which failures happen before any
  connection is made, and that every connection is closed exactly once and last.
\<close>

section \<open>Frames as JSON\<close>

text \<open>The struct tags: \<^verbatim>\<open>omitempty\<close> drops an empty string.\<close>

definition omitempty :: "gostring \<Rightarrow> gostring \<Rightarrow> (gostring \<times> json) list" where
  "omitempty k v = (if v = [] then [] else [(k, JStr v)])"

definition user_json :: "userFrame \<Rightarrow> json" where
  "user_json f = JObj
     ([(''msgV'', JNum (Itoa (uf_MsgV f))),
       (''msg_id'', JStr (uf_MsgID f)),
       (''type'', JStr (uf_Type f)),
       (''message'', JObj [(''role'', JStr (fp_Role (uf_Message f))),
                           (''content'', JStr (fp_Content (uf_Message f)))]),
       (''priority'', JStr (uf_Priority f))]
      @ omitempty ''from'' (uf_From f)
      @ omitempty ''session_id'' (uf_SessionID f)
      @ omitempty ''uuid'' (uf_UUID f))"

definition control_json :: "controlFrame \<Rightarrow> json" where
  "control_json f = JObj
     ([(''msgV'', JNum (Itoa (cf_MsgV f))),
       (''msg_id'', JStr (cf_MsgID f)),
       (''type'', JStr (cf_Type f)),
       (''action'', JStr (cf_Action f))]
      @ omitempty ''name'' (cf_Name f)
      @ omitempty ''session_id'' (cf_SessionID f))"

definition auth_json :: "authFrame \<Rightarrow> json" where
  "auth_json f = JObj [(''type'', JStr (af_Type f)), (''token'', JStr (af_Token f))]"

section \<open>The client\<close>

definition defaultTimeout :: duration where
  "defaultTimeout = 5 * Second"

definition maxFrameBytes :: nat where
  "maxFrameBytes = 2 ^ 20"

record client =
  c_Timeout :: duration
  c_ProbeTimeout :: duration
  c_Token :: gostring
  c_NoAuth :: bool

definition New :: client where
  "New = \<lparr>c_Timeout = 0, c_ProbeTimeout = 0, c_Token = [], c_NoAuth = False\<rparr>"

definition client_timeout :: "client \<Rightarrow> duration" where
  "client_timeout c = (if c_Timeout c > 0 then c_Timeout c else defaultTimeout)"

definition client_probeTimeout :: "client \<Rightarrow> duration" where
  "client_probeTimeout c = (if c_ProbeTimeout c > 0 then c_ProbeTimeout c else defaultProbeTimeout)"

definition resolveToken :: "world \<Rightarrow> client \<Rightarrow> gostring \<Rightarrow> gostring result" where
  "resolveToken w c socketPath =
     (if c_NoAuth c then Inr []
      else if c_Token c \<noteq> [] then Inr (c_Token c)
      else if SelfSocketPath w \<noteq> [] \<and> SelfSocketPath w = socketPath \<and> SelfToken w \<noteq> [] then Inr (SelfToken w)
      else LookupToken w socketPath)"

section \<open>The network\<close>

text \<open>
  What the calls of one send return: the clock and the caller's own deadline, the dial, the
  write (how many bytes were taken, and the error that stopped it), whether the connection
  is a Unix socket, on macOS whether the context ended during the wait, the half-close, and
  the final read (its error, and whether that is \<^verbatim>\<open>net.ErrClosed\<close>).
\<close>

record net =
  n_now :: int
  n_ctx_deadline :: "int option"
  n_dial :: "oserror option"
  n_write :: "nat \<times> oserror option"
  n_is_unix :: bool
  n_ctx_done :: "oserror option"
  n_close_write :: "oserror option"
  n_drain :: "(oserror \<times> bool) option"

datatype net_event =
    Dialed gostring
  | DeadlineSet int
  | Wrote gostring
  | Waited duration
  | HalfClosed
  | Drained
  | Closed

text \<open>A computation that may use the network: its events, then its result.\<close>

type_synonym 'a io = "net_event list \<times> 'a result"

definition io_fail :: "goerror \<Rightarrow> 'a io" where
  "io_fail e = ([], Inl e)"

fun io_of :: "'a result \<Rightarrow> ('a \<Rightarrow> 'b io) \<Rightarrow> 'b io" where
  "io_of (Inl e) f = io_fail e"
| "io_of (Inr x) f = f x"

text \<open>\<^verbatim>\<open>context.WithTimeout\<close>: the earlier of the two deadlines.\<close>

definition send_deadline :: "client \<Rightarrow> net \<Rightarrow> int" where
  "send_deadline c n =
     (case n_ctx_deadline n of
        None \<Rightarrow> n_now n + client_timeout c
      | Some d \<Rightarrow> min d (n_now n + client_timeout c))"

definition wire_line :: "gostring \<Rightarrow> gostring \<Rightarrow> gostring" where
  "wire_line token payload =
     (if token \<noteq> [] then print_json (auth_json \<lparr>af_Type = ''auth'', af_Token = token\<rparr>) @ [CHR 0x0A] else [])
     @ payload @ [CHR 0x0A]"

text \<open>
  The part of \<^verbatim>\<open>writeFrame\<close> between the dial and the deferred \<^verbatim>\<open>conn.Close\<close>.
\<close>

definition exchange :: "world \<Rightarrow> net \<Rightarrow> gostring \<Rightarrow> gostring \<Rightarrow> unit io" where
  "exchange w n socketPath line =
     (case n_write n of
        (k, Some e) \<Rightarrow> ([Wrote (take k line)], Inl (WriteFailed socketPath e))
      | (k, None) \<Rightarrow>
          if \<not> n_is_unix n then ([Wrote line], Inl (NotUnixSocket socketPath))
          else
            (case (if goos w = Darwin then n_ctx_done n else None) of
               Some e \<Rightarrow> ([Wrote line], Inl (SendInterrupted socketPath e))
             | None \<Rightarrow>
                 (let waited = [Wrote line] @ (if goos w = Darwin then [Waited (150 * Millisecond)] else []) in
                  case n_close_write n of
                    Some e \<Rightarrow> (waited, Inl (HalfCloseFailed socketPath e))
                  | None \<Rightarrow>
                      (case n_drain n of
                         Some (e, False) \<Rightarrow> (waited @ [HalfClosed, Drained], Inl (WaitCloseFailed socketPath e))
                       | _ \<Rightarrow> (waited @ [HalfClosed, Drained], Inr ())))))"

definition writeFrame :: "world \<Rightarrow> net \<Rightarrow> client \<Rightarrow> gostring \<Rightarrow> json \<Rightarrow> unit io" where
  "writeFrame w n c socketPath body =
     (let payload = print_json body in
      if length payload \<ge> maxFrameBytes then io_fail (FrameTooLong (length payload))
      else io_of (resolveToken w c socketPath) (\<lambda>token.
        (case n_dial n of
           Some e \<Rightarrow> io_fail (ConnectFailed socketPath e)
         | None \<Rightarrow>
             (case exchange w n socketPath (wire_line token payload) of
                (evs, r) \<Rightarrow>
                  ([Dialed socketPath, DeadlineSet (send_deadline c n)] @ evs @ [Closed], r)))))"

section \<open>Sending\<close>

text \<open>\<open>rnd\<close> is what \<^verbatim>\<open>rand.Read\<close> delivers when a message id is generated.\<close>

definition SendToSocket :: "world \<Rightarrow> net \<Rightarrow> oserror + byte list \<Rightarrow> client \<Rightarrow> gostring \<Rightarrow> message \<Rightarrow> gostring io" where
  "SendToSocket w n rnd c socketPath m =
     io_of (frame w rnd m) (\<lambda>f.
       (case writeFrame w n c socketPath (user_json f) of
          (evs, Inl e) \<Rightarrow> (evs, Inl e)
        | (evs, Inr _) \<Rightarrow> (evs, Inr (uf_MsgID f))))"

definition Send :: "world \<Rightarrow> net \<Rightarrow> oserror + byte list \<Rightarrow> client \<Rightarrow> session \<Rightarrow> message \<Rightarrow> gostring io" where
  "Send w n rnd c s m =
     (if s_SocketPath s = [] then io_fail (NoInboxSocket (s_PID s))
      else SendToSocket w n rnd c (s_SocketPath s)
             (if m_SessionID m = [] then m\<lparr>m_SessionID := s_SessionID s\<rparr> else m))"

definition SendToPID :: "world \<Rightarrow> net \<Rightarrow> oserror + byte list \<Rightarrow> client \<Rightarrow> int \<Rightarrow> message \<Rightarrow> gostring io" where
  "SendToPID w n rnd c pid m = io_of (FindByPID w pid) (\<lambda>s. Send w n rnd c s m)"

definition SendToSessionID :: "world \<Rightarrow> net \<Rightarrow> oserror + byte list \<Rightarrow> client \<Rightarrow> gostring \<Rightarrow> message \<Rightarrow> gostring io" where
  "SendToSessionID w n rnd c i m =
     io_of (findBySessionID w i (client_probeTimeout c)) (\<lambda>s. Send w n rnd c s m)"

definition SendToName :: "world \<Rightarrow> net \<Rightarrow> oserror + byte list \<Rightarrow> client \<Rightarrow> gostring \<Rightarrow> message \<Rightarrow> gostring io" where
  "SendToName w n rnd c name m =
     io_of (findByName w name (client_probeTimeout c)) (\<lambda>s. Send w n rnd c s m)"

definition SendToAddress :: "world \<Rightarrow> net \<Rightarrow> oserror + byte list \<Rightarrow> client \<Rightarrow> gostring \<Rightarrow> message \<Rightarrow> gostring io" where
  "SendToAddress w n rnd c addr m =
     io_of (ParseAddress addr) (\<lambda>path. SendToSocket w n rnd c path m)"

section \<open>Renaming\<close>

definition rename :: "world \<Rightarrow> net \<Rightarrow> oserror + byte list \<Rightarrow> client \<Rightarrow> gostring \<Rightarrow> gostring \<Rightarrow> gostring \<Rightarrow> unit io" where
  "rename w n rnd c socketPath sessionID name =
     (if name = [] then io_fail EmptyRename
      else io_of (newUUID rnd) (\<lambda>msgID.
        writeFrame w n c socketPath (control_json
          \<lparr>cf_MsgV = protocolVersion, cf_MsgID = msgID, cf_Type = ''control'', cf_Action = ''rename'',
           cf_Name = name, cf_SessionID = sessionID\<rparr>)))"

definition Rename :: "world \<Rightarrow> net \<Rightarrow> oserror + byte list \<Rightarrow> client \<Rightarrow> gostring \<Rightarrow> gostring \<Rightarrow> unit io" where
  "Rename w n rnd c socketPath name = rename w n rnd c socketPath [] name"

definition RenameSession :: "world \<Rightarrow> net \<Rightarrow> oserror + byte list \<Rightarrow> client \<Rightarrow> session \<Rightarrow> gostring \<Rightarrow> unit io" where
  "RenameSession w n rnd c s name =
     (if s_SocketPath s = [] then io_fail (NoInboxSocket (s_PID s))
      else rename w n rnd c (s_SocketPath s) (s_SessionID s) name)"

section \<open>The default client\<close>

text \<open>The package-level functions call the methods of a client with the zero settings.\<close>

definition defaultClient :: client where "defaultClient = New"

definition Send_default :: "world \<Rightarrow> net \<Rightarrow> oserror + byte list \<Rightarrow> session \<Rightarrow> message \<Rightarrow> gostring io" where
  "Send_default w n rnd s m = Send w n rnd defaultClient s m"

definition SendToPID_default :: "world \<Rightarrow> net \<Rightarrow> oserror + byte list \<Rightarrow> int \<Rightarrow> message \<Rightarrow> gostring io" where
  "SendToPID_default w n rnd pid m = SendToPID w n rnd defaultClient pid m"

definition SendToSessionID_default :: "world \<Rightarrow> net \<Rightarrow> oserror + byte list \<Rightarrow> gostring \<Rightarrow> message \<Rightarrow> gostring io" where
  "SendToSessionID_default w n rnd sessionID m = SendToSessionID w n rnd defaultClient sessionID m"

definition SendToName_default :: "world \<Rightarrow> net \<Rightarrow> oserror + byte list \<Rightarrow> gostring \<Rightarrow> message \<Rightarrow> gostring io" where
  "SendToName_default w n rnd name m = SendToName w n rnd defaultClient name m"

definition SendToAddress_default :: "world \<Rightarrow> net \<Rightarrow> oserror + byte list \<Rightarrow> gostring \<Rightarrow> message \<Rightarrow> gostring io" where
  "SendToAddress_default w n rnd addr m = SendToAddress w n rnd defaultClient addr m"

section \<open>Bytes on the wire\<close>

lemma json_string_bytes: "c \<in> set (json_string s) \<Longrightarrow> 0x20 \<le> code_of c"
  by (auto simp: json_string_def json_body_printable)

lemma nat_literal_bytes: "nat_literal lit \<Longrightarrow> c \<in> set lit \<Longrightarrow> 0x20 \<le> code_of c"
  by (auto simp: nat_literal_def list_all_iff is_digit_code)

lemma print_json_bytes:
  "printable v \<Longrightarrow> c \<in> set (print_json v) \<Longrightarrow> 0x20 \<le> code_of c"
  "list_all printable vs \<Longrightarrow> c \<in> set (print_elems vs) \<Longrightarrow> 0x20 \<le> code_of c"
  "list_all (\<lambda>(k, v). printable v) ms \<Longrightarrow> c \<in> set (print_members ms) \<Longrightarrow> 0x20 \<le> code_of c"
proof (induction v and vs and ms rule: print_json_print_elems_print_members.induct)
qed (auto simp: json_string_bytes nat_literal_bytes split: if_splits)

lemma print_json_no_newline: "printable v \<Longrightarrow> CHR 0x0A \<notin> set (print_json v)"
  using print_json_bytes(1) by fastforce

lemma nat_literal_version: "nat_literal (Itoa protocolVersion)"
  by (simp add: nat_literal_def Itoa_def protocolVersion_def nat_str.simps digit_char_def is_digit_code)

lemma printable_omitempty: "list_all (\<lambda>(k, v). printable v) (omitempty k s)"
  by (simp add: omitempty_def)

lemma printable_user: "uf_MsgV f = protocolVersion \<Longrightarrow> printable (user_json f)"
  using nat_literal_version by (simp add: user_json_def printable_omitempty)

lemma printable_control: "cf_MsgV f = protocolVersion \<Longrightarrow> printable (control_json f)"
  using nat_literal_version by (simp add: control_json_def printable_omitempty)

lemma printable_auth: "printable (auth_json f)"
  by (simp add: auth_json_def)

lemma frame_MsgV: "frame w rnd m = Inr f \<Longrightarrow> uf_MsgV f = protocolVersion"
  by (auto simp: frame_Inr_iff)

lemma split_wire_line:
  assumes "CHR 0x0A \<notin> set payload"
  shows "split_at (CHR 0x0A) (wire_line token payload) =
    (if token \<noteq> [] then [print_json (auth_json \<lparr>af_Type = ''auth'', af_Token = token\<rparr>)] else []) @ [payload, []]"
proof -
  have "CHR 0x0A \<notin> set (print_json (auth_json \<lparr>af_Type = ''auth'', af_Token = token\<rparr>))"
    by (intro print_json_no_newline printable_auth)
  then show ?thesis using assms by (simp add: wire_line_def split_at_append)
qed

section \<open>Traces\<close>

definition wait_events :: "world \<Rightarrow> net_event list" where
  "wait_events w = (if goos w = Darwin then [Waited (150 * Millisecond)] else [])"

text \<open>What the peer sees of an exchange: never another dial, never an early close.\<close>

lemma exchange_events:
  "Closed \<notin> set (fst (exchange w n p line)) \<and> Dialed q \<notin> set (fst (exchange w n p line)) \<and>
   (\<forall>bs. Wrote bs \<in> set (fst (exchange w n p line)) \<longrightarrow> prefix bs line)"
  by (auto simp: exchange_def Let_def take_is_prefix split: prod.splits option.splits bool.splits)

lemma exchange_Inr:
  "exchange w n p line = (evs, Inr u) \<Longrightarrow> evs = [Wrote line] @ wait_events w @ [HalfClosed, Drained]"
  by (auto simp: exchange_def Let_def wait_events_def split: prod.splits option.splits bool.splits if_splits)

lemma writeFrame_cases:
  obtains (refused) e where "writeFrame w n c p fr = ([], Inl e)"
  | (dialed) token evs r where "resolveToken w c p = Inr token" "n_dial n = None"
      "length (print_json fr) < maxFrameBytes"
      "exchange w n p (wire_line token (print_json fr)) = (evs, r)"
      "writeFrame w n c p fr = ([Dialed p, DeadlineSet (send_deadline c n)] @ evs @ [Closed], r)"
proof (cases "length (print_json fr) \<ge> maxFrameBytes \<or> isl (resolveToken w c p) \<or> n_dial n \<noteq> None")
  case True
  then have "\<exists>e. writeFrame w n c p fr = ([], Inl e)"
    by (cases "resolveToken w c p") (auto simp: writeFrame_def Let_def io_fail_def)
  with refused show thesis by blast
next
  case False
  then obtain token where t: "resolveToken w c p = Inr token" by (cases "resolveToken w c p") auto
  obtain evs r where x: "exchange w n p (wire_line token (print_json fr)) = (evs, r)" by fastforce
  with False t show thesis
    by (intro dialed[of token evs r]) (auto simp: writeFrame_def Let_def)
qed

lemma writeFrame_Inr:
  assumes "writeFrame w n c p fr = (evs, Inr u)"
  obtains token where "resolveToken w c p = Inr token" "length (print_json fr) < maxFrameBytes"
    "evs = [Dialed p, DeadlineSet (send_deadline c n), Wrote (wire_line token (print_json fr))]
       @ wait_events w @ [HalfClosed, Drained, Closed]"
proof (rule writeFrame_cases[of w n c p fr])
  fix e
  assume "writeFrame w n c p fr = ([], Inl e)"
  with assms show thesis by simp
next
  fix token evs' r
  assume t: "resolveToken w c p = Inr token" "length (print_json fr) < maxFrameBytes"
    and x: "exchange w n p (wire_line token (print_json fr)) = (evs', r)"
    and wf: "writeFrame w n c p fr = ([Dialed p, DeadlineSet (send_deadline c n)] @ evs' @ [Closed], r)"
  from wf assms have "r = Inr u" by simp
  with exchange_Inr[of w n p _ evs' u] x have
    "evs' = [Wrote (wire_line token (print_json fr))] @ wait_events w @ [HalfClosed, Drained]" by simp
  with wf assms t show thesis by (intro that[of token]) simp_all
qed

lemma SendToSocket_Inr:
  assumes "SendToSocket w n rnd c p m = (evs, Inr i)"
  obtains f where "frame w rnd m = Inr f" "i = uf_MsgID f" "writeFrame w n c p (user_json f) = (evs, Inr ())"
proof (cases "frame w rnd m")
  case (Inr f)
  then show thesis
    using assms by (intro that[of f]) (auto simp: SendToSocket_def split: prod.splits sum.splits)
qed (use assms in \<open>simp add: SendToSocket_def io_fail_def\<close>)

lemma io_of_Inr: "io_of r f = (evs, Inr x) \<Longrightarrow> \<exists>y. r = Inr y \<and> f y = (evs, Inr x)"
  by (cases r) (auto simp: io_fail_def)

lemma Send_Inr:
  assumes "Send w n rnd c s m = (evs, Inr i)"
  obtains f where "s_SocketPath s \<noteq> []"
    "frame w rnd (m\<lparr>m_SessionID := (if m_SessionID m = [] then s_SessionID s else m_SessionID m)\<rparr>) = Inr f"
    "uf_SessionID f = (if m_SessionID m = [] then s_SessionID s else m_SessionID m)"
    "i = uf_MsgID f" "writeFrame w n c (s_SocketPath s) (user_json f) = (evs, Inr ())"
proof -
  let ?m = "m\<lparr>m_SessionID := (if m_SessionID m = [] then s_SessionID s else m_SessionID m)\<rparr>"
  from assms have "s_SocketPath s \<noteq> []" "SendToSocket w n rnd c (s_SocketPath s) ?m = (evs, Inr i)"
    by (auto simp: Send_def io_fail_def split: if_splits)
  with that show thesis by (elim SendToSocket_Inr) (auto simp: frame_Inr_iff)
qed

lemma pickOne_mem: "pickOne w ms what probe = Inr s \<Longrightarrow> s \<in> set ms"
proof -
  assume "pickOne w ms what probe = Inr s"
  then consider "ms = [s]" | "live_matches w probe ms = [s]" unfolding pickOne_Inr by blast
  then show "s \<in> set ms"
  proof cases
    case 2
    then have "s \<in> set (live_matches w probe ms)" by simp
    then show ?thesis by (simp add: live_matches_def)
  qed simp
qed

text \<open>When every call on the connection succeeds.\<close>

definition net_ok :: "world \<Rightarrow> net \<Rightarrow> bool" where
  "net_ok w n \<longleftrightarrow> n_dial n = None \<and> snd (n_write n) = None \<and> n_is_unix n \<and>
     (goos w = Darwin \<longrightarrow> n_ctx_done n = None) \<and> n_close_write n = None \<and>
     (\<forall>e. n_drain n \<noteq> Some (e, False))"

lemma exchange_ok:
  "(\<exists>evs. exchange w n p line = (evs, Inr ())) \<longleftrightarrow> snd (n_write n) = None \<and> n_is_unix n \<and>
     (goos w = Darwin \<longrightarrow> n_ctx_done n = None) \<and> n_close_write n = None \<and> (\<forall>e. n_drain n \<noteq> Some (e, False))"
  by (cases "n_write n"; cases "snd (n_write n)"; cases "n_ctx_done n"; cases "n_close_write n"; cases "n_drain n")
    (auto simp: exchange_def Let_def split: bool.splits)

lemma writeFrame_ok:
  "(\<exists>evs. writeFrame w n c p fr = (evs, Inr ())) \<longleftrightarrow>
     length (print_json fr) < maxFrameBytes \<and> (\<exists>token. resolveToken w c p = Inr token) \<and> net_ok w n"
proof (cases "length (print_json fr) < maxFrameBytes \<and> (\<exists>token. resolveToken w c p = Inr token) \<and> n_dial n = None")
  case True
  then obtain token where t: "resolveToken w c p = Inr token" by blast
  have "(\<exists>evs. writeFrame w n c p fr = (evs, Inr ())) \<longleftrightarrow>
      (\<exists>evs. exchange w n p (wire_line token (print_json fr)) = (evs, Inr ()))"
    using True t by (auto simp: writeFrame_def Let_def split: prod.split)
  with True show ?thesis by (simp add: exchange_ok net_ok_def)
next
  case False
  have "writeFrame w n c p fr \<noteq> (evs, Inr ())" for evs
  proof
    assume w: "writeFrame w n c p fr = (evs, Inr ())"
    then have "n_dial n = None"
      by (cases "resolveToken w c p") (auto simp: writeFrame_def Let_def io_fail_def split: if_splits option.splits)
    with writeFrame_Inr [OF w] False show False by metis
  qed
  with False show ?thesis by (auto simp: net_ok_def)
qed

section \<open>Sending through the registry\<close>

text \<open>
  The interface between the client and the registry: a way of asking for one session, and
  what is promised of the session it answers with.  Whatever the way, a send that succeeds
  goes to the socket of a registered session with that promise, and carries its id.
\<close>

locale resolver =
  fixes ask :: "world \<Rightarrow> session result" and wanted :: "session \<Rightarrow> bool"
  assumes found: "ask w = Inr s \<Longrightarrow> \<exists>ss. ListSessions w = Inr ss \<and> s \<in> set ss \<and> wanted s"
begin

lemma send_resolved:
  assumes "io_of (ask w) (\<lambda>s. Send w n rnd c s m) = (evs, Inr i)"
  shows "\<exists>ss s f token. ListSessions w = Inr ss \<and> s \<in> set ss \<and> wanted s \<and>
    evs = [Dialed (s_SocketPath s), DeadlineSet (send_deadline c n),
      Wrote (wire_line token (print_json (user_json f)))] @ wait_events w @ [HalfClosed, Drained, Closed] \<and>
    i = uf_MsgID f \<and> uf_SessionID f = (if m_SessionID m = [] then s_SessionID s else m_SessionID m)"
proof -
  from io_of_Inr [OF assms] obtain s where s: "ask w = Inr s" "Send w n rnd c s m = (evs, Inr i)" by blast
  from found [OF s(1)] obtain ss where ss: "ListSessions w = Inr ss" "s \<in> set ss" "wanted s" by blast
  obtain f where f: "i = uf_MsgID f" "writeFrame w n c (s_SocketPath s) (user_json f) = (evs, Inr ())"
    "uf_SessionID f = (if m_SessionID m = [] then s_SessionID s else m_SessionID m)"
    using s(2) by (rule Send_Inr)
  obtain token where "evs = [Dialed (s_SocketPath s), DeadlineSet (send_deadline c n),
      Wrote (wire_line token (print_json (user_json f)))] @ wait_events w @ [HalfClosed, Drained, Closed]"
    using f(2) by (rule writeFrame_Inr)
  with ss f(1,3) show ?thesis by blast
qed

end

lemma find_matching_found:
  assumes "r = findBySessionID w k probe \<and> P = (\<lambda>s. s_SessionID s = k) \<or>
    r = findByName w k probe \<and> P = (\<lambda>s. s_Name s = k)" "r = Inr s"
  shows "\<exists>ss. ListSessions w = Inr ss \<and> s \<in> set ss \<and> P s"
proof -
  from assms have "findBySessionID w k probe = Inr s \<or> findByName w k probe = Inr s" by auto
  then obtain ss where ss: "ListSessions w = Inr ss" "k \<noteq> []"
    by (auto simp: findBySessionID_def findByName_def error_simps)
  obtain what where "r = pickOne w (filter P ss) what probe"
    using assms(1) find_matching_Inr [OF ss] by auto
  with assms(2) have "s \<in> set (filter P ss)" using pickOne_mem by metis
  with ss(1) show ?thesis by auto
qed

interpretation by_session_id: resolver "\<lambda>w. findBySessionID w k probe" "\<lambda>s. s_SessionID s = k" for k probe
  by unfold_locales (rule find_matching_found; blast)

interpretation by_name: resolver "\<lambda>w. findByName w k probe" "\<lambda>s. s_Name s = k" for k probe
  by unfold_locales (rule find_matching_found; blast)

lemma FindByPID_found:
  assumes "FindByPID w pid = Inr s"
  shows "\<exists>ss. ListSessions w = Inr ss \<and> s \<in> set ss \<and> s_PID s = pid"
proof -
  obtain ss where ss: "ListSessions w = Inr ss" using assms by (auto simp: FindByPID_def error_simps)
  with assms have "find (\<lambda>s. s_PID s = pid) ss = Some s" by (auto simp: FindByPID_def split: option.splits)
  then have "s \<in> set ss \<and> s_PID s = pid" unfolding find_Some_iff by (metis nth_mem)
  with ss show ?thesis by blast
qed

interpretation by_pid: resolver "\<lambda>w. FindByPID w pid" "\<lambda>s. s_PID s = pid" for pid
  by unfold_locales (rule FindByPID_found)

section \<open>Properties\<close>

text \<open>
  Property C2: the bytes of a successful send: one connection to the socket, on which the
  client writes, in one write, an auth line when it has a token and then the message's JSON
  line, waits on macOS, half-closes, reads to the end and closes.  Split at newlines the
  bytes are exactly those lines, whatever bytes text, names and ids contain, the payload
  line is below the receiver's limit, and the id returned is the one in the frame.
\<close>

theorem send_wire_format:
  assumes "SendToSocket w n rnd c p m = (evs, Inr i)"
  shows "\<exists>f token line. frame w rnd m = Inr f \<and> i = uf_MsgID f \<and> resolveToken w c p = Inr token \<and>
    evs = [Dialed p, DeadlineSet (send_deadline c n), Wrote line]
      @ (if goos w = Darwin then [Waited (150 * Millisecond)] else []) @ [HalfClosed, Drained, Closed] \<and>
    split_at (CHR 0x0A) line =
      (if token \<noteq> [] then [print_json (auth_json \<lparr>af_Type = ''auth'', af_Token = token\<rparr>)] else [])
      @ [print_json (user_json f), []] \<and>
    length (print_json (user_json f)) < 2 ^ 20"
proof -
  obtain f where f: "frame w rnd m = Inr f" "i = uf_MsgID f" "writeFrame w n c p (user_json f) = (evs, Inr ())"
    using assms by (rule SendToSocket_Inr)
  obtain token where t: "resolveToken w c p = Inr token"
    "length (print_json (user_json f)) < maxFrameBytes"
    "evs = [Dialed p, DeadlineSet (send_deadline c n), Wrote (wire_line token (print_json (user_json f)))]
       @ wait_events w @ [HalfClosed, Drained, Closed]"
    using f(3) by (rule writeFrame_Inr)
  have "CHR 0x0A \<notin> set (print_json (user_json f))"
    by (intro print_json_no_newline printable_user frame_MsgV[OF f(1)])
  from split_wire_line[OF this] f t show ?thesis
    by (intro exI[of _ f] exI[of _ token] exI[of _ "wire_line token (print_json (user_json f))"])
      (simp add: wait_events_def maxFrameBytes_def)
qed

text \<open>
  Property C17: exactly when a send succeeds.  The message must have text, a known priority, a
  well-formed return address or none, and an id or randomness to make one; its frame must be
  below the line limit; the token must be known or known to be absent; and every call on the
  connection must succeed, except that the connection may be found closed at the end.
\<close>

theorem send_succeeds_iff:
  "(\<exists>evs i. SendToSocket w n rnd c p m = (evs, Inr i)) \<longleftrightarrow>
     m_Text m \<noteq> [] \<and> m_Priority m \<in> {[], ''now'', ''next'', ''later''} \<and>
     (m_From m = [] \<or> validAddress (m_From m)) \<and> (m_MsgID m \<noteq> [] \<or> \<not> isl rnd) \<and>
     (\<forall>f. frame w rnd m = Inr f \<longrightarrow> length (print_json (user_json f)) < maxFrameBytes) \<and>
     \<not> isl (resolveToken w c p) \<and> net_ok w n"
proof -
  have "(\<exists>evs i. SendToSocket w n rnd c p m = (evs, Inr i)) \<longleftrightarrow>
      (\<exists>f. frame w rnd m = Inr f \<and> (\<exists>evs. writeFrame w n c p (user_json f) = (evs, Inr ())))"
    by (cases "frame w rnd m") (auto simp: SendToSocket_def io_fail_def split: prod.splits sum.splits)
  also have "\<dots> \<longleftrightarrow> (\<exists>f. frame w rnd m = Inr f) \<and>
      (\<forall>f. frame w rnd m = Inr f \<longrightarrow> length (print_json (user_json f)) < maxFrameBytes) \<and>
      \<not> isl (resolveToken w c p) \<and> net_ok w n"
    unfolding writeFrame_ok by (cases "resolveToken w c p") auto
  finally show ?thesis unfolding frame_accepted by blast
qed

text \<open>
  Property C19: no connection leaks: either the frame is refused before any connection is
  made, with an error, or the one connection made is closed exactly once, as the last
  event, whichever step fails; and what was written is a prefix of the intended bytes.
\<close>

theorem connection_closed:
  "(\<exists>e. writeFrame w n c p fr = ([], Inl e)) \<or>
   (\<exists>token mid r. writeFrame w n c p fr = ([Dialed p, DeadlineSet (send_deadline c n)] @ mid @ [Closed], r) \<and>
      Closed \<notin> set mid \<and> (\<forall>q. Dialed q \<notin> set mid) \<and> resolveToken w c p = Inr token \<and>
      (\<forall>bs \<in> {bs. Wrote bs \<in> set mid}. prefix bs (wire_line token (print_json fr))))"
proof (rule writeFrame_cases[of w n c p fr])
  fix token evs r
  assume "resolveToken w c p = Inr token" "exchange w n p (wire_line token (print_json fr)) = (evs, r)"
    "writeFrame w n c p fr = ([Dialed p, DeadlineSet (send_deadline c n)] @ evs @ [Closed], r)"
  then show ?thesis
    using exchange_events[of w n p "wire_line token (print_json fr)"] by auto
qed auto

text \<open>
  Property C20: with \<^verbatim>\<open>NoAuth\<close> no token leaves the process: whatever tokens are
  configured, inherited or published, and however the exchange ends, the bytes written are a
  prefix of the payload line alone.
\<close>

theorem no_auth_no_token:
  assumes "c_NoAuth c" "Wrote bs \<in> set (fst (writeFrame w n c p fr))"
  shows "prefix bs (print_json fr @ [CHR 0x0A])"
proof (rule writeFrame_cases[of w n c p fr])
  fix token evs r
  assume "resolveToken w c p = Inr token" "exchange w n p (wire_line token (print_json fr)) = (evs, r)"
    "writeFrame w n c p fr = ([Dialed p, DeadlineSet (send_deadline c n)] @ evs @ [Closed], r)"
  moreover from this assms(1) have "token = []" by (simp add: resolveToken_def)
  ultimately show ?thesis
    using assms(2) exchange_events[of w n p "wire_line token (print_json fr)"] by (auto simp: wire_line_def)
qed (use assms(2) in simp)

text \<open>
  Property C12: a message sent to a session id, a name or a PID goes, on one connection, to
  the socket of a registered session with that id, name or PID; its frame is stamped with
  that session's id unless the caller chose one, so that a receiver that checks it can tell
  a stale registry entry, and the id returned is the frame's.
\<close>

theorem sends_reach_registered:
  assumes "r = SendToSessionID w n rnd c k m \<and> wanted = (\<lambda>s. s_SessionID s = k) \<or>
      r = SendToName w n rnd c k m \<and> wanted = (\<lambda>s. s_Name s = k) \<or>
      r = SendToPID w n rnd c pid m \<and> wanted = (\<lambda>s. s_PID s = pid)"
    and "r = (evs, Inr i)"
  shows "\<exists>ss s f token. ListSessions w = Inr ss \<and> s \<in> set ss \<and> wanted s \<and>
    evs = [Dialed (s_SocketPath s), DeadlineSet (send_deadline c n),
      Wrote (wire_line token (print_json (user_json f)))] @ wait_events w @ [HalfClosed, Drained, Closed] \<and>
    i = uf_MsgID f \<and> uf_SessionID f = (if m_SessionID m = [] then s_SessionID s else m_SessionID m)"
  using assms(1)
proof (elim disjE conjE)
  assume "r = SendToSessionID w n rnd c k m" "wanted = (\<lambda>s. s_SessionID s = k)"
  with assms(2) show ?thesis
    using by_session_id.send_resolved [of w k "client_probeTimeout c"] by (simp add: SendToSessionID_def)
next
  assume "r = SendToName w n rnd c k m" "wanted = (\<lambda>s. s_Name s = k)"
  with assms(2) show ?thesis
    using by_name.send_resolved [of w k "client_probeTimeout c"] by (simp add: SendToName_def)
next
  assume "r = SendToPID w n rnd c pid m" "wanted = (\<lambda>s. s_PID s = pid)"
  with assms(2) show ?thesis
    using by_pid.send_resolved [of w pid] by (simp add: SendToPID_def)
qed

text \<open>In particular for a session id.\<close>

theorem send_by_session_id:
  assumes "SendToSessionID w n rnd c sid m = (evs, Inr i)"
  shows "\<exists>ss s f token. ListSessions w = Inr ss \<and> s \<in> set ss \<and> s_SessionID s = sid \<and>
    Dialed (s_SocketPath s) \<in> set evs \<and> Wrote (wire_line token (print_json (user_json f))) \<in> set evs \<and>
    i = uf_MsgID f \<and> uf_SessionID f = (if m_SessionID m = [] then sid else m_SessionID m)"
  using by_session_id.send_resolved [OF assms [unfolded SendToSessionID_def]] by fastforce

text \<open>
  A rename that succeeds writes one rename frame, to the socket it was given, that carries
  the new name and, when there is one, the session id.
\<close>

definition rename_json :: "gostring \<Rightarrow> gostring \<Rightarrow> gostring \<Rightarrow> json" where
  "rename_json i name sid =
     JObj ([(''msgV'', JNum ''1''), (''msg_id'', JStr i), (''type'', JStr ''control''),
        (''action'', JStr ''rename''), (''name'', JStr name)] @ omitempty ''session_id'' sid)"

lemma rename_Inr:
  assumes "rename w n rnd c path sid name = (evs, Inr u)"
  obtains token i where "name \<noteq> []" "newUUID rnd = Inr i"
    "evs = [Dialed path, DeadlineSet (send_deadline c n),
      Wrote (wire_line token (print_json (rename_json i name sid)))] @ wait_events w @ [HalfClosed, Drained, Closed]"
proof -
  let ?f = "\<lambda>i. \<lparr>cf_MsgV = protocolVersion, cf_MsgID = i, cf_Type = ''control'', cf_Action = ''rename'',
           cf_Name = name, cf_SessionID = sid\<rparr>"
  from assms have ne: "name \<noteq> []" by (auto simp: rename_def io_fail_def)
  with assms have "io_of (newUUID rnd) (\<lambda>i. writeFrame w n c path (control_json (?f i))) = (evs, Inr u)"
    by (simp add: rename_def)
  from io_of_Inr[OF this] obtain i where i: "newUUID rnd = Inr i"
    "writeFrame w n c path (control_json (?f i)) = (evs, Inr u)" by blast
  from i(2) obtain token where "evs = [Dialed path, DeadlineSet (send_deadline c n),
      Wrote (wire_line token (print_json (control_json (?f i))))] @ wait_events w @ [HalfClosed, Drained, Closed]"
    by (rule writeFrame_Inr)
  moreover have "Itoa protocolVersion = ''1''" by code_simp
  moreover from this ne have "control_json (?f i) = rename_json i name sid"
    by (simp add: control_json_def rename_json_def omitempty_def)
  ultimately show thesis using that ne i(1) by simp
qed

theorem rename_session_stamped:
  assumes "RenameSession w n rnd c s name = (evs, Inr u)"
  shows "\<exists>token i. name \<noteq> [] \<and> s_SocketPath s \<noteq> [] \<and> newUUID rnd = Inr i \<and> Dialed (s_SocketPath s) \<in> set evs \<and>
    Wrote (wire_line token (print_json (rename_json i name (s_SessionID s)))) \<in> set evs"
proof -
  from assms have "s_SocketPath s \<noteq> []" "rename w n rnd c (s_SocketPath s) (s_SessionID s) name = (evs, Inr u)"
    by (auto simp: RenameSession_def io_fail_def split: if_splits)
  note ne = this(1)
  obtain token i where "name \<noteq> []" "newUUID rnd = Inr i"
    "evs = [Dialed (s_SocketPath s), DeadlineSet (send_deadline c n),
      Wrote (wire_line token (print_json (rename_json i name (s_SessionID s))))]
      @ wait_events w @ [HalfClosed, Drained, Closed]"
    using \<open>rename w n rnd c (s_SocketPath s) (s_SessionID s) name = (evs, Inr u)\<close> by (rule rename_Inr)
  with ne show ?thesis by (intro exI[of _ token] exI[of _ i]) simp
qed

end
