(* ===== verification/Bind.thy ===== *)
theory Bind
  imports Session Steps
begin

text \<open>
  Binding an inbox socket safely: \<^verbatim>\<open>ensureSocketDir\<close> of \<^verbatim>\<open>paths.go\<close>, the ownership
  check and the umask guard of \<^verbatim>\<open>platform_unix.go\<close> and \<^verbatim>\<open>platform_windows.go\<close>, and
  \<^verbatim>\<open>Listen\<close> of \<^verbatim>\<open>inbox.go\<close> up to the started accept loop.  The lemmas show in which
  directories a socket is ever created, that the socket's mode never admits another user,
  and that the process umask is restored on every path and under concurrent binds.
\<close>

unbundle bit_operations_syntax

section \<open>The system calls of a bind\<close>

type_synonym perm = "9 word"

text \<open>The literals \<^verbatim>\<open>0o700\<close>, \<^verbatim>\<open>0o600\<close>, \<^verbatim>\<open>0o177\<close> and \<^verbatim>\<open>0o077\<close>, digit by digit.\<close>

definition octal :: "perm \<Rightarrow> perm \<Rightarrow> perm \<Rightarrow> perm" where
  "octal u g x = push_bit 6 u OR push_bit 3 g OR x"

text \<open>
  \<^verbatim>\<open>os.Lstat\<close>: type bits, permission bits, and the owner when the platform's stat data
  is available.
\<close>

record fileinfo =
  fi_symlink :: bool
  fi_dir :: bool
  fi_perm :: perm
  fi_uid :: "32 word option"

text \<open>What the calls return, each for the arguments it is given.\<close>

record sys =
  y_mkdirall :: "gostring \<Rightarrow> perm \<Rightarrow> oserror option"
  y_lstat :: "gostring \<Rightarrow> oserror + fileinfo"
  y_listen :: "gostring \<Rightarrow> oserror option"
  y_chmod :: "gostring \<Rightarrow> perm \<Rightarrow> oserror option"

text \<open>What the calls were, in order; a bind is recorded with the umask in force.\<close>

datatype bind_event =
    MkdirAll gostring perm
  | Lstat gostring
  | Probed gostring
  | Removed gostring
  | UmaskSet perm
  | Bound gostring perm
  | Chmod gostring perm
  | ListenerClosed
  | ServeStarted

text \<open>The state a bind changes: the calls so far and the umask of the process.\<close>

record pstate =
  p_events :: "bind_event list"
  p_umask :: perm

definition log_event :: "bind_event \<Rightarrow> pstate \<Rightarrow> pstate" where
  "log_event e st = st\<lparr>p_events := p_events st @ [e]\<rparr>"

definition set_umask :: "perm \<Rightarrow> pstate \<Rightarrow> pstate" where
  "set_umask m st = log_event (UmaskSet m) (st\<lparr>p_umask := m\<rparr>)"

section \<open>The directory\<close>

definition checkSocketDirOwnership_unix :: "world \<Rightarrow> gostring \<Rightarrow> fileinfo \<Rightarrow> unit result" where
  "checkSocketDirOwnership_unix w dir fi =
     (case fi_uid fi of
        None \<Rightarrow> Inl (CannotVerifyOwner dir)
      | Some uid \<Rightarrow>
          and_then (ensure (uid = of_nat (getuid w)) (WrongOwner dir (unat uid))) (\<lambda>_.
          ensure (fi_perm fi AND octal 0 7 7 = 0) (LooseMode dir (unat (fi_perm fi)))))"

definition checkSocketDirOwnership_windows :: "world \<Rightarrow> gostring \<Rightarrow> fileinfo \<Rightarrow> unit result" where
  "checkSocketDirOwnership_windows w dir fi = Inl (BindUnsupportedOnWindows dir)"

definition checkSocketDirOwnership :: "world \<Rightarrow> gostring \<Rightarrow> fileinfo \<Rightarrow> unit result" where
  "checkSocketDirOwnership w dir fi =
     (if goos w = Windows then checkSocketDirOwnership_windows w dir fi
      else checkSocketDirOwnership_unix w dir fi)"

definition ensureSocketDir :: "world \<Rightarrow> sys \<Rightarrow> gostring \<Rightarrow> pstate \<Rightarrow> pstate \<times> unit result" where
  "ensureSocketDir w y dir st =
     (let st1 = log_event (MkdirAll dir (octal 7 0 0)) st in
      case y_mkdirall y dir (octal 7 0 0) of
        Some e \<Rightarrow> (st1, Inl (MkdirFailed dir e))
      | None \<Rightarrow>
          (let st2 = log_event (Lstat dir) st1 in
           (st2,
            case y_lstat y dir of
              Inl e \<Rightarrow> Inl (LstatFailed dir e)
            | Inr fi \<Rightarrow>
                and_then (ensure (\<not> fi_symlink fi) (DirIsSymlink dir)) (\<lambda>_.
                and_then (ensure (fi_dir fi) (NotADirectory dir)) (\<lambda>_.
                checkSocketDirOwnership w dir fi)))))"

section \<open>The umask\<close>

definition withTightUmask_unix :: "(pstate \<Rightarrow> pstate \<times> 'a) \<Rightarrow> pstate \<Rightarrow> pstate \<times> 'a" where
  "withTightUmask_unix fn st =
     (let old = p_umask st;
          (st1, r) = fn (set_umask (octal 1 7 7) st)
      in (set_umask old st1, r))"

definition withTightUmask_windows :: "(pstate \<Rightarrow> pstate \<times> 'a) \<Rightarrow> pstate \<Rightarrow> pstate \<times> 'a" where
  "withTightUmask_windows fn st = fn st"

definition withTightUmask :: "world \<Rightarrow> (pstate \<Rightarrow> pstate \<times> 'a) \<Rightarrow> pstate \<Rightarrow> pstate \<times> 'a" where
  "withTightUmask w fn st =
     (if goos w = Windows then withTightUmask_windows fn st else withTightUmask_unix fn st)"

section \<open>\<^verbatim>\<open>Listen\<close>\<close>

text \<open>\<^verbatim>\<open>net.Listen\<close>: on success the socket file exists, with the umask's mode.\<close>

definition net_listen :: "sys \<Rightarrow> gostring \<Rightarrow> pstate \<Rightarrow> pstate \<times> unit result" where
  "net_listen y path st =
     (case y_listen y path of
        Some e \<Rightarrow> (st, Inl (OSErr e))
      | None \<Rightarrow> (log_event (Bound path (p_umask st)) st, Inr ()))"

definition bind_error :: "gostring \<Rightarrow> goerror \<Rightarrow> goerror" where
  "bind_error path e = (case e of OSErr oe \<Rightarrow> BindFailed path oe | _ \<Rightarrow> e)"

definition Listen :: "world \<Rightarrow> sys \<Rightarrow> pstate \<Rightarrow> pstate \<times> gostring result" where
  "Listen w y st =
     (let path = DefaultSocketPath w (getpid w) in
      case ensureSocketDir w y (Dir path) st of
        (st1, Inl e) \<Rightarrow> (st1, Inl e)
      | (st1, Inr _) \<Rightarrow>
          (let st2 = log_event (Probed path) st1 in
           if Probe w path defaultProbeTimeout then (st2, Inl (AlreadyLive path))
           else
             (case withTightUmask w (net_listen y path) (log_event (Removed path) st2) of
                (st3, Inl e) \<Rightarrow> (st3, Inl (bind_error path e))
              | (st3, Inr _) \<Rightarrow>
                  (let st4 = log_event (Chmod path (octal 6 0 0)) st3 in
                   case y_chmod y path (octal 6 0 0) of
                     Some e \<Rightarrow> (log_event ListenerClosed st4, Inl (ChmodFailed path e))
                   | None \<Rightarrow> (log_event ServeStarted st4, Inr path)))))"

section \<open>Directories and modes\<close>

text \<open>The directory exists once it has been asked for, and is the user's own and private.\<close>

definition safe_dir :: "world \<Rightarrow> sys \<Rightarrow> gostring \<Rightarrow> bool" where
  "safe_dir w y dir \<longleftrightarrow> goos w \<noteq> Windows \<and> y_mkdirall y dir (octal 7 0 0) = None \<and>
     (\<exists>fi. y_lstat y dir = Inr fi \<and> \<not> fi_symlink fi \<and> fi_dir fi \<and> fi_uid fi = Some (of_nat (getuid w)) \<and>
        fi_perm fi AND octal 0 7 7 = 0)"

lemma ensureSocketDir_Inr: "snd (ensureSocketDir w y dir st) = Inr () \<longleftrightarrow> safe_dir w y dir"
  by (cases "goos w = Windows"; cases "y_mkdirall y dir (octal 7 0 0)"; cases "y_lstat y dir")
    (auto simp: ensureSocketDir_def safe_dir_def error_simps checkSocketDirOwnership_def
      checkSocketDirOwnership_windows_def checkSocketDirOwnership_unix_def Let_def split: option.splits)

lemma ensureSocketDir_state:
  "p_umask (fst (ensureSocketDir w y dir st)) = p_umask st \<and>
   (\<exists>evs. p_events (fst (ensureSocketDir w y dir st)) = p_events st @ evs \<and>
      set evs \<subseteq> {MkdirAll dir (octal 7 0 0), Lstat dir})"
  by (cases "y_mkdirall y dir (octal 7 0 0)") (auto simp: ensureSocketDir_def log_event_def Let_def)

text \<open>The mode of a socket file created with full permissions under a umask.\<close>

definition socket_mode :: "perm \<Rightarrow> perm" where
  "socket_mode um = octal 7 7 7 AND NOT um"

lemma socket_mode_tight: "socket_mode (octal 1 7 7) = octal 6 0 0"
  by code_simp

lemma octal_600_private: "octal 6 0 0 AND octal 0 7 7 = 0"
  by code_simp

text \<open>The run of \<^verbatim>\<open>Listen\<close>, one clause for each way it can end.\<close>

definition bind_prefix :: "world \<Rightarrow> gostring \<Rightarrow> bind_event list" where
  "bind_prefix w path =
     [MkdirAll (Dir path) (octal 7 0 0), Lstat (Dir path), Probed path, Removed path, UmaskSet (octal 1 7 7)]"

lemma ensureSocketDir_safe:
  "safe_dir w y dir \<Longrightarrow> ensureSocketDir w y dir st =
     (st\<lparr>p_events := p_events st @ [MkdirAll dir (octal 7 0 0), Lstat dir]\<rparr>, Inr ())"
proof -
  assume s: "safe_dir w y dir"
  then have "snd (ensureSocketDir w y dir st) = Inr ()" by (simp add: ensureSocketDir_Inr)
  moreover have "fst (ensureSocketDir w y dir st) = st\<lparr>p_events := p_events st @ [MkdirAll dir (octal 7 0 0), Lstat dir]\<rparr>"
    using s by (simp add: ensureSocketDir_def safe_dir_def log_event_def Let_def)
  ultimately show ?thesis by (metis prod.collapse)
qed

lemma Listen_unsafe:
  assumes "\<not> safe_dir w y (Dir (DefaultSocketPath w (getpid w)))"
  shows "\<exists>e. Listen w y st = (fst (ensureSocketDir w y (Dir (DefaultSocketPath w (getpid w))) st), Inl e)"
proof -
  let ?d = "ensureSocketDir w y (Dir (DefaultSocketPath w (getpid w))) st"
  have "snd ?d \<noteq> Inr ()" using assms by (simp add: ensureSocketDir_Inr)
  then obtain e where "snd ?d = Inl e" by (cases "snd ?d") auto
  then show ?thesis by (cases ?d) (auto simp: Listen_def Let_def)
qed

lemma Listen_safe:
  assumes "safe_dir w y (Dir path)" "path = DefaultSocketPath w (getpid w)"
  shows "Listen w y st =
    (if Probe w path defaultProbeTimeout then
       (st\<lparr>p_events := p_events st @ [MkdirAll (Dir path) (octal 7 0 0), Lstat (Dir path), Probed path]\<rparr>,
        Inl (AlreadyLive path))
     else (case y_listen y path of
       Some e \<Rightarrow> (st\<lparr>p_events := p_events st @ bind_prefix w path @ [UmaskSet (p_umask st)]\<rparr>, Inl (BindFailed path e))
     | None \<Rightarrow>
         (let bound = p_events st @ bind_prefix w path @
            [Bound path (octal 1 7 7), UmaskSet (p_umask st), Chmod path (octal 6 0 0)] in
          case y_chmod y path (octal 6 0 0) of
            Some e \<Rightarrow> (st\<lparr>p_events := bound @ [ListenerClosed]\<rparr>, Inl (ChmodFailed path e))
          | None \<Rightarrow> (st\<lparr>p_events := bound @ [ServeStarted]\<rparr>, Inr path))))"
proof -
  have "goos w \<noteq> Windows" using assms(1) by (simp add: safe_dir_def)
  then show ?thesis
    by (simp add: Listen_def ensureSocketDir_safe[OF assms(1)] assms(2) [symmetric] Let_def log_event_def
        set_umask_def withTightUmask_def withTightUmask_unix_def net_listen_def bind_error_def bind_prefix_def split: option.split)
qed

section \<open>Concurrent binds\<close>

text \<open>
  The umask belongs to the process, so \<^verbatim>\<open>withTightUmask\<close> serializes its users with
  \<^verbatim>\<open>umaskMu\<close>.  Here any number of goroutines run it at once, one call into the kernel
  or the mutex per step: lock, tighten, run \<^verbatim>\<open>fn\<close> (which creates a file, or fails and creates
  none), and the two deferred calls in reverse order of their \<^verbatim>\<open>defer\<close> statements, restore
  and unlock.
\<close>

datatype umask_pc = UIdle | ULocked | UTight | URan | URestored

record ustate =
  u_mu :: "nat option"
  u_mask :: perm
  u_old :: "nat \<Rightarrow> perm"
  u_pc :: "nat \<Rightarrow> umask_pc"
  u_created :: "perm list"

inductive umask_step :: "ustate \<Rightarrow> ustate \<Rightarrow> bool" where
  umask_lock: "u_pc s t = UIdle \<Longrightarrow> u_mu s = None \<Longrightarrow>
    umask_step s (s\<lparr>u_mu := Some t, u_pc := (u_pc s)(t := ULocked)\<rparr>)"
| umask_tighten: "u_pc s t = ULocked \<Longrightarrow>
    umask_step s (s\<lparr>u_old := (u_old s)(t := u_mask s), u_mask := octal 1 7 7, u_pc := (u_pc s)(t := UTight)\<rparr>)"
| umask_run: "u_pc s t = UTight \<Longrightarrow>
    umask_step s (s\<lparr>u_created := socket_mode (u_mask s) # u_created s, u_pc := (u_pc s)(t := URan)\<rparr>)"
| umask_run_fails: "u_pc s t = UTight \<Longrightarrow>
    umask_step s (s\<lparr>u_pc := (u_pc s)(t := URan)\<rparr>)"
| umask_restore: "u_pc s t = URan \<Longrightarrow>
    umask_step s (s\<lparr>u_mask := u_old s t, u_pc := (u_pc s)(t := URestored)\<rparr>)"
| umask_unlock: "u_pc s t = URestored \<Longrightarrow>
    umask_step s (s\<lparr>u_mu := None, u_pc := (u_pc s)(t := UIdle)\<rparr>)"

definition umask_init :: "perm \<Rightarrow> ustate \<Rightarrow> bool" where
  "umask_init m s \<longleftrightarrow> u_mu s = None \<and> u_mask s = m \<and> (\<forall>t. u_pc s t = UIdle) \<and> u_created s = []"

text \<open>
  Who holds the mutex is the only one not idle, and the mask is the tight one exactly while
  the holder is between tightening and restoring.
\<close>

definition tight :: "ustate \<Rightarrow> nat \<Rightarrow> bool" where
  "tight s t \<longleftrightarrow> u_pc s t = UTight \<or> u_pc s t = URan"

definition umask_inv :: "perm \<Rightarrow> ustate \<Rightarrow> bool" where
  "umask_inv m s \<longleftrightarrow>
     (\<forall>t. u_pc s t \<noteq> UIdle \<longleftrightarrow> u_mu s = Some t) \<and>
     (\<forall>t. tight s t \<longrightarrow> u_mask s = octal 1 7 7 \<and> u_old s t = m) \<and>
     ((\<forall>t. \<not> tight s t) \<longrightarrow> u_mask s = m) \<and>
     list_all (\<lambda>k. k = octal 6 0 0) (u_created s)"

lemma umask_invD:
  assumes "umask_inv m s"
  shows "u_pc s t \<noteq> UIdle \<longleftrightarrow> u_mu s = Some t"
    and "tight s t \<Longrightarrow> u_mask s = octal 1 7 7"
    and "tight s t \<Longrightarrow> u_old s t = m"
    and "list_all (\<lambda>k. k = octal 6 0 0) (u_created s)"
    and "(\<And>t. \<not> tight s t) \<Longrightarrow> u_mask s = m"
  using assms by (simp_all add: umask_inv_def)

lemma umask_inv_others:
  assumes "umask_inv m s" "u_pc s t \<noteq> UIdle" "t' \<noteq> t"
  shows "u_pc s t' = UIdle"
  using umask_invD(1)[OF assms(1), of t] umask_invD(1)[OF assms(1), of t'] assms(2,3) by auto

lemma umask_invI:
  assumes "\<And>t'. t' \<noteq> t \<Longrightarrow> u_pc s t' = UIdle"
    and "u_mu s = (if u_pc s t = UIdle then None else Some t)"
    and "u_mask s = (if tight s t then octal 1 7 7 else m)" "tight s t \<Longrightarrow> u_old s t = m"
    and "list_all (\<lambda>k. k = octal 6 0 0) (u_created s)"
  shows "umask_inv m s"
proof -
  have "u_pc s t' \<noteq> UIdle \<longleftrightarrow> u_mu s = Some t'" for t'
    using assms(1)[of t'] assms(2) by (cases "t' = t") auto
  moreover have "\<not> tight s t'" if "t' \<noteq> t" for t' using assms(1)[OF that] by (simp add: tight_def)
  ultimately show ?thesis using assms(3-5) unfolding umask_inv_def by metis
qed

lemma umask_inv_mask:
  assumes "umask_inv m s" "u_pc s t \<noteq> UIdle" "\<not> tight s t"
  shows "u_mask s = m"
proof (rule umask_invD(5)[OF assms(1)])
  show "\<not> tight s t'" for t'
    using umask_inv_others[OF assms(1,2), of t'] assms(3) by (cases "t' = t") (auto simp: tight_def)
qed

lemma umask_inv_step:
  assumes "umask_inv m s" "umask_step s s'"
  shows "umask_inv m s'"
  using assms(2)
proof (cases rule: umask_step.cases)
  case (umask_lock t)
  have idle: "u_pc s t' = UIdle" for t' using umask_invD(1)[OF assms(1), of t'] umask_lock(3) by simp
  then have "u_mask s = m" by (intro umask_invD(5)[OF assms(1)]) (simp add: tight_def)
  then show ?thesis
    using idle umask_invD(4)[OF assms(1)] by (intro umask_invI[of t]) (simp_all add: umask_lock tight_def)
next
  case (umask_tighten t)
  then have "u_pc s t \<noteq> UIdle" "\<not> tight s t" by (simp_all add: tight_def)
  note f = umask_inv_others[OF assms(1) this(1)] umask_inv_mask[OF assms(1) this]
    umask_invD(1,4)[OF assms(1)]
  from f(3)[of t] have "u_mu s = Some t" using umask_tighten by simp
  with f(1,2,4) show ?thesis by (intro umask_invI[of t]) (simp_all add: umask_tighten tight_def)
next
  case (umask_run t)
  then have "u_pc s t \<noteq> UIdle" "tight s t" by (simp_all add: tight_def)
  note f = umask_inv_others[OF assms(1) this(1)] umask_invD(2,3)[OF assms(1) this(2)]
    umask_invD(1,4)[OF assms(1)]
  from f(4)[of t] have "u_mu s = Some t" using umask_run by simp
  with f(1,2,3,5) show ?thesis
    by (intro umask_invI[of t]) (simp_all add: umask_run tight_def socket_mode_tight)
next
  case (umask_run_fails t)
  then have "u_pc s t \<noteq> UIdle" "tight s t" by (simp_all add: tight_def)
  note f = umask_inv_others[OF assms(1) this(1)] umask_invD(2,3)[OF assms(1) this(2)]
    umask_invD(1,4)[OF assms(1)]
  from f(4)[of t] have "u_mu s = Some t" using umask_run_fails by simp
  with f(1,2,3,5) show ?thesis by (intro umask_invI[of t]) (simp_all add: umask_run_fails tight_def)
next
  case (umask_restore t)
  then have "u_pc s t \<noteq> UIdle" "tight s t" by (simp_all add: tight_def)
  note f = umask_inv_others[OF assms(1) this(1)] umask_invD(3)[OF assms(1) this(2)]
    umask_invD(1,4)[OF assms(1)]
  from f(3)[of t] have "u_mu s = Some t" using umask_restore by simp
  with f(1,2,4) show ?thesis by (intro umask_invI[of t]) (simp_all add: umask_restore tight_def)
next
  case (umask_unlock t)
  then have "u_pc s t \<noteq> UIdle" "\<not> tight s t" by (simp_all add: tight_def)
  note f = umask_inv_others[OF assms(1) this(1)] umask_inv_mask[OF assms(1) this] umask_invD(4)[OF assms(1)]
  from f show ?thesis by (intro umask_invI[of t]) (simp_all add: umask_unlock tight_def)
qed

definition umask_good :: "perm \<Rightarrow> ustate \<Rightarrow> bool" where
  "umask_good m s \<longleftrightarrow>
     (u_mu s = None \<longrightarrow> u_mask s = m) \<and> list_all (\<lambda>k. k AND octal 0 7 7 = 0) (u_created s)"

lemma umask_inv_good:
  assumes "umask_inv m s"
  shows "umask_good m s"
proof -
  have "list_all (\<lambda>k. k AND octal 0 7 7 = 0) (u_created s)"
    by (rule list.pred_mono_strong[OF umask_invD(4)[OF assms]]) (simp add: octal_600_private)
  moreover have "u_mask s = m" if "u_mu s = None"
    using that umask_invD(1)[OF assms] by (intro umask_invD(5)[OF assms]) (auto simp: tight_def)
  ultimately show ?thesis by (simp add: umask_good_def)
qed

interpretation umask: safe_system "umask_init m" umask_step "umask_inv m" "umask_good m" for m
proof
  show "umask_inv m s" if "umask_init m s" for s
    using that by (simp add: umask_init_def umask_inv_def tight_def)
  show "umask_inv m s'" if "umask_inv m s" "umask_step s s'" for s s'
    using that by (rule umask_inv_step)
  show "umask_good m s" if "umask_inv m s" for s
    using that by (rule umask_inv_good)
qed

section \<open>A bind is atomic\<close>

text \<open>
  What the guard promises of a bind: a file that is private to the user appears, and the
  mask other goroutines rely on is not touched.  The mask seen through \<open>umask_abs\<close> is the
  one the mutex holder will restore.
\<close>

inductive atomic_bind :: "perm \<times> perm list \<Rightarrow> perm \<times> perm list \<Rightarrow> bool" where
  atomic_bind: "atomic_bind (m, modes) (m, octal 6 0 0 # modes)"

definition umask_abs :: "ustate \<Rightarrow> perm \<times> perm list" where
  "umask_abs s =
     (case u_mu s of
        Some t \<Rightarrow> if tight s t then u_old s t else u_mask s
      | None \<Rightarrow> u_mask s, u_created s)"

lemma umask_abs_mask:
  assumes "umask_inv m s"
  shows "umask_abs s = (m, u_created s)"
proof (cases "u_mu s")
  case None
  then have "u_mask s = m" using umask_inv_good [OF assms] by (simp add: umask_good_def)
  with None show ?thesis by (simp add: umask_abs_def)
next
  case (Some t)
  then have "u_pc s t \<noteq> UIdle" using umask_invD(1) [OF assms] by simp
  with Some assms show ?thesis
    by (auto simp: umask_abs_def intro: umask_invD(3) umask_inv_mask)
qed

interpretation atomic: refinement_map "umask_init m" umask_step "umask_inv m" umask_abs "\<lambda>a. a = (m, [])" atomic_bind
  for m
proof
  show "umask_abs s = (m, [])" if "umask_init m s" for s
    using that by (simp add: umask_init_def umask_abs_def)
  show "umask_abs s' = umask_abs s \<or> atomic_bind (umask_abs s) (umask_abs s')"
    if i: "umask_inv m s" and s: "umask_step s s'" for s s'
  proof -
    have "u_created s' = u_created s \<or> u_created s' = octal 6 0 0 # u_created s"
      using s
    proof (cases rule: umask_step.cases)
      case (umask_run t)
      then have "u_mask s = octal 1 7 7" by (intro umask_invD(2) [OF i, of t]) (simp add: tight_def)
      with umask_run show ?thesis by (simp add: socket_mode_tight)
    qed simp_all
    with umask_abs_mask [OF i] umask_abs_mask [OF umask_inv_step [OF i s]] show ?thesis
      by (auto intro: atomic_bind.intros)
  qed
qed

section \<open>Properties\<close>

text \<open>
  Property C6: a socket is only ever bound at the default path of this process, when nothing
  answered there, and the directory of that very path had been made, was looked at after
  that and before the bind, and is a real directory and not a symlink, belongs to the user
  and admits no group or world access; and the socket is created with the tight umask, so
  never with a bit for another user.
\<close>

theorem listen_binds_safely:
  assumes "p_events st = []" "Bound path k \<in> set (p_events (fst (Listen w y st)))"
  shows "goos w \<noteq> Windows \<and> path = DefaultSocketPath w (getpid w) \<and>
    y_mkdirall y (Dir path) (octal 7 0 0) = None \<and>
    (\<exists>fi. y_lstat y (Dir path) = Inr fi \<and> fi_dir fi \<and> \<not> fi_symlink fi \<and> fi_uid fi = Some (of_nat (getuid w)) \<and>
       fi_perm fi AND octal 0 7 7 = 0) \<and>
    (\<exists>before after. p_events (fst (Listen w y st)) =
       [MkdirAll (Dir path) (octal 7 0 0), Lstat (Dir path), Probed path, Removed path] @ before @ Bound path k # after) \<and>
    \<not> dial_ok w path defaultProbeTimeout \<and> socket_mode k AND octal 0 7 7 = 0"
proof (cases "safe_dir w y (Dir (DefaultSocketPath w (getpid w)))")
  case False
  from Listen_unsafe[OF this, of st] have "Bound path k \<notin> set (p_events (fst (Listen w y st)))"
    using ensureSocketDir_state[of w y "Dir (DefaultSocketPath w (getpid w))" st] assms(1) by auto
  with assms(2) show ?thesis by simp
next
  case True
  define q where "q = DefaultSocketPath w (getpid w)"
  from True have safe: "safe_dir w y (Dir q)" by (simp add: q_def)
  from assms Listen_safe[OF safe q_def, of st]
  have run: "path = q" "k = octal 1 7 7" "\<not> Probe w q defaultProbeTimeout" "y_listen y q = None"
    by (auto simp: bind_prefix_def Let_def split: if_splits option.splits)
  then have "\<exists>after. p_events (fst (Listen w y st)) = [MkdirAll (Dir path) (octal 7 0 0), Lstat (Dir path), Probed path,
      Removed path] @ [UmaskSet (octal 1 7 7)] @ Bound path k # after"
    using Listen_safe[OF safe q_def, of st] assms(1)
    by (simp add: bind_prefix_def Let_def split: option.split)
  moreover have "0 < defaultProbeTimeout" by (simp add: defaultProbeTimeout_def Millisecond_def)
  then have "\<not> dial_ok w path defaultProbeTimeout" using run by (simp add: Probe_def)
  moreover have "socket_mode k AND octal 0 7 7 = 0" using run octal_600_private by (simp add: socket_mode_tight)
  ultimately show ?thesis using safe run(1) unfolding safe_dir_def q_def by blast
qed

text \<open>
  Property C36: \<^verbatim>\<open>Listen\<close> restores the umask however it ends, succeeds exactly when the
  directory is safe, nothing answers, and bind and chmod succeed, starts serving exactly
  then, and otherwise leaves no listener open: one that was bound is closed again.
\<close>

theorem listen_outcome:
  assumes "p_events st = []" "path = DefaultSocketPath w (getpid w)" "Listen w y st = (st', r)"
  shows "p_umask st' = p_umask st \<and>
    (r = Inr path \<longleftrightarrow> safe_dir w y (Dir path) \<and> \<not> Probe w path defaultProbeTimeout \<and>
       y_listen y path = None \<and> y_chmod y path (octal 6 0 0) = None) \<and>
    (\<not> isl r \<longleftrightarrow> ServeStarted \<in> set (p_events st')) \<and>
    (isl r \<and> (\<exists>k. Bound path k \<in> set (p_events st')) \<longrightarrow> last (p_events st') = ListenerClosed)"
proof (cases "safe_dir w y (Dir path)")
  case False
  from Listen_unsafe[OF this [unfolded assms(2)], of st] assms(3) obtain e
    where r: "r = Inl e" "st' = fst (ensureSocketDir w y (Dir (DefaultSocketPath w (getpid w))) st)" by auto
  with ensureSocketDir_state[of w y "Dir (DefaultSocketPath w (getpid w))" st] assms(1) False show ?thesis
    by auto
next
  case True
  show ?thesis
    using Listen_safe[OF True assms(2), of st] assms True
    by (auto simp: bind_prefix_def Let_def split: if_splits option.splits)
qed

text \<open>
  Property C23: with any number of goroutines binding at once, in any interleaving, binds
  behave as if each were one atomic step: whatever run follows a reachable state, seen from
  outside, is a sequence of binds that each create a file of mode 0600 and leave the mask
  alone, and whenever nobody holds the mutex the process has its original mask back.
\<close>

theorem binds_are_atomic:
  assumes "reachable (umask_init m) umask_step s" "run_steps umask_step s ss"
  shows "run_steps atomic_bind (umask_abs s) (visible (umask_abs s) (map umask_abs ss)) \<and>
    umask_abs s = (m, u_created s) \<and> (u_mu s = None \<longrightarrow> u_mask s = m)"
proof -
  have i: "umask_inv m s" using assms(1) by (rule umask.inv_reachable)
  then show ?thesis
    using atomic.abs_run [OF assms] umask_abs_mask [OF i] umask_inv_good [OF i] by (simp add: umask_good_def)
qed

text \<open>
  With any number of goroutines binding at once, in any interleaving, every
  file created under the guard is closed to other users, and whenever nobody holds the mutex
  the process has its original umask back.
\<close>

theorem umask_restored_concurrently:
  assumes "reachable (umask_init m) umask_step s"
  shows "(u_mu s = None \<longrightarrow> u_mask s = m) \<and> (\<forall>k \<in> set (u_created s). k AND octal 0 7 7 = 0)"
  using umask.good_reachable[OF assms] by (simp add: umask_good_def list_all_iff)

end
