(* ===== verification/Inbox.thy ===== *)
theory Inbox
  imports Client Bind
begin

text \<open>
  \<^verbatim>\<open>inbox.go\<close>: one connection's handler, that is the line scanner, the decoding of a
  frame, and the callbacks.  The lemmas show that the scanner delivers the lines of the
  stream however it is cut into reads, and that what the client writes, and what a session
  reports, is what the callbacks receive.
\<close>

section \<open>Receipts and incoming frames\<close>

type_synonym ReceiptStatus = gostring

definition StatusHeld :: ReceiptStatus where "StatusHeld = ''held''"
definition StatusDenied :: ReceiptStatus where "StatusDenied = ''denied''"
definition StatusExpired :: ReceiptStatus where "StatusExpired = ''expired''"
definition StatusDelivered :: ReceiptStatus where "StatusDelivered = ''delivered''"

record receipt =
  r_Status :: ReceiptStatus
  r_OrigMsgID :: gostring
  r_From :: gostring
  r_Reason :: gostring

record incomingMessage =
  im_Role :: gostring
  im_Content :: gostring

record incomingFrame =
  in_Type :: gostring
  in_Action :: gostring
  in_Status :: ReceiptStatus
  in_OrigMsgID :: gostring
  in_From :: gostring
  in_Reason :: gostring
  in_Message :: "incomingMessage option"

definition zero_message :: incomingMessage where
  "zero_message = \<lparr>im_Role = [], im_Content = []\<rparr>"

definition zero_frame :: incomingFrame where
  "zero_frame = \<lparr>in_Type = [], in_Action = [], in_Status = [], in_OrigMsgID = [], in_From = [],
     in_Reason = [], in_Message = None\<rparr>"

definition store_message :: "gostring \<Rightarrow> json \<Rightarrow> incomingMessage \<Rightarrow> incomingMessage option" where
  "store_message k v m =
     (if key_matches ''role'' k then map_option (\<lambda>s. m\<lparr>im_Role := s\<rparr>) (store_string v (im_Role m))
      else if key_matches ''content'' k then map_option (\<lambda>s. m\<lparr>im_Content := s\<rparr>) (store_string v (im_Content m))
      else Some m)"

text \<open>
  A pointer field: \<^verbatim>\<open>null\<close> sets it to nil; an object is decoded into the struct it points
  to, a new one when it is nil.
\<close>

fun store_message_ptr :: "json \<Rightarrow> incomingMessage option \<Rightarrow> incomingMessage option option" where
  "store_message_ptr JNull p = Some None"
| "store_message_ptr (JObj ms) p =
     map_option Some (decode_members store_message ms (case p of None \<Rightarrow> zero_message | Some m \<Rightarrow> m))"
| "store_message_ptr _ p = None"

definition store_incoming :: "gostring \<Rightarrow> json \<Rightarrow> incomingFrame \<Rightarrow> incomingFrame option" where
  "store_incoming k v f =
     (if key_matches ''type'' k then map_option (\<lambda>s. f\<lparr>in_Type := s\<rparr>) (store_string v (in_Type f))
      else if key_matches ''action'' k then map_option (\<lambda>s. f\<lparr>in_Action := s\<rparr>) (store_string v (in_Action f))
      else if key_matches ''status'' k then map_option (\<lambda>s. f\<lparr>in_Status := s\<rparr>) (store_string v (in_Status f))
      else if key_matches ''orig_msg_id'' k then map_option (\<lambda>s. f\<lparr>in_OrigMsgID := s\<rparr>) (store_string v (in_OrigMsgID f))
      else if key_matches ''from'' k then map_option (\<lambda>s. f\<lparr>in_From := s\<rparr>) (store_string v (in_From f))
      else if key_matches ''reason'' k then map_option (\<lambda>s. f\<lparr>in_Reason := s\<rparr>) (store_string v (in_Reason f))
      else if key_matches ''message'' k then map_option (\<lambda>p. f\<lparr>in_Message := p\<rparr>) (store_message_ptr v (in_Message f))
      else Some f)"

definition decode_incoming :: "gostring \<Rightarrow> incomingFrame option" where
  "decode_incoming line =
     (case parse_json line of None \<Rightarrow> None | Some v \<Rightarrow> decode_struct store_incoming v zero_frame)"

section \<open>Lines of a connection\<close>

text \<open>
  \<^verbatim>\<open>bufio.ScanLines\<close> without its end-of-input case: the first line in the buffer, with a
  trailing carriage return dropped, and what follows its newline.
\<close>

definition dropCR :: "gostring \<Rightarrow> gostring" where
  "dropCR s = (if s \<noteq> [] \<and> last s = CHR 0x0D then butlast s else s)"

definition first_line :: "gostring \<Rightarrow> (gostring \<times> gostring) option" where
  "first_line buf =
     (let l = takeWhile (\<lambda>c. c \<noteq> CHR 0x0A) buf in
      if length l < length buf then Some (dropCR l, drop (Suc (length l)) buf) else None)"

lemma first_line_length: "first_line buf = Some (l, rest) \<Longrightarrow> length rest < length buf"
  by (auto simp: first_line_def Let_def split: if_splits)

text \<open>
  \<^verbatim>\<open>bufio.Scanner\<close> over the reads of the connection, each the bytes of one
  \<^verbatim>\<open>Read\<close>; after the last of them the next read reports end of file, the read deadline or
  another error, which all make the scanner deliver what is left in the buffer and stop.
  A buffer that is full without a newline ends the scan with \<^verbatim>\<open>ErrTooLong\<close>.
\<close>

function scan_lines :: "gostring \<Rightarrow> gostring list \<Rightarrow> gostring list" where
  "scan_lines buf reads =
     (case first_line buf of
        Some (l, rest) \<Rightarrow> l # scan_lines rest reads
      | None \<Rightarrow>
          if length buf \<ge> maxFrameBytes then []
          else (case reads of
                  [] \<Rightarrow> if buf = [] then [] else [dropCR buf]
                | r # reads' \<Rightarrow> scan_lines (buf @ r) reads'))"
  by pat_completeness auto
termination
  by (relation "measures [\<lambda>(buf, reads). length reads, \<lambda>(buf, reads). length buf]")
    (auto dest: first_line_length)

declare scan_lines.simps [simp del]

section \<open>The handler\<close>

record inboxConfig =
  has_OnReceipt :: bool
  has_OnMessage :: bool

datatype inbox_call = OnReceipt receipt | OnMessage gostring gostring

definition dispatch :: "inboxConfig \<Rightarrow> incomingFrame \<Rightarrow> inbox_call list" where
  "dispatch cfg f =
     (if in_Type f = ''control'' \<and> in_Action f = ''peer_message_status'' then
        (if has_OnReceipt cfg then
           [OnReceipt \<lparr>r_Status = in_Status f, r_OrigMsgID = in_OrigMsgID f, r_From = in_From f, r_Reason = in_Reason f\<rparr>]
         else [])
      else if in_Type f = ''user'' \<and> in_Message f \<noteq> None then
        (if has_OnMessage cfg then [OnMessage (im_Content (the (in_Message f))) (in_From f)] else [])
      else [])"

definition handle_line :: "inboxConfig \<Rightarrow> gostring \<Rightarrow> inbox_call list" where
  "handle_line cfg line =
     (if line = [] then []
      else (case decode_incoming line of None \<Rightarrow> [] | Some f \<Rightarrow> dispatch cfg f))"

definition handle :: "inboxConfig \<Rightarrow> gostring list \<Rightarrow> inbox_call list" where
  "handle cfg reads = concat (map (handle_line cfg) (scan_lines [] reads))"

definition inbox_Address :: "gostring \<Rightarrow> gostring" where
  "inbox_Address path = Address path"

section \<open>The lines of a stream\<close>

text \<open>
  What the scanner delivers, stated on the whole stream: its lines, up to the first that
  does not fit the buffer; an unfinished last line counts when it is not empty.
\<close>

fun deliver :: "gostring list \<Rightarrow> gostring list" where
  "deliver [] = []"
| "deliver [l] = (if l = [] \<or> length l \<ge> maxFrameBytes then [] else [dropCR l])"
| "deliver (l # m # ls) = (if length l \<ge> maxFrameBytes then [] else dropCR l # deliver (m # ls))"

text \<open>
  A \<^verbatim>\<open>Read\<close> never returns more than the free part of a buffer of
  \<^verbatim>\<open>maxFrameBytes\<close>.
\<close>

definition after_lines :: "gostring \<Rightarrow> gostring" where
  "after_lines buf = last (split_at (CHR 0x0A) buf)"

fun reads_fit :: "gostring \<Rightarrow> gostring list \<Rightarrow> bool" where
  "reads_fit buf [] \<longleftrightarrow> length buf \<le> maxFrameBytes"
| "reads_fit buf (r # reads) \<longleftrightarrow> length buf \<le> maxFrameBytes \<and> reads_fit (after_lines buf @ r) reads"

lemma first_line_Some:
  assumes "first_line buf = Some (l, rest)"
  obtains raw where "buf = raw @ CHR 0x0A # rest" "CHR 0x0A \<notin> set raw" "l = dropCR raw"
proof -
  define raw where "raw = takeWhile (\<lambda>c. c \<noteq> CHR 0x0A) buf"
  from assms have f: "length raw < length buf" "l = dropCR raw" "rest = drop (Suc (length raw)) buf"
    by (simp_all add: first_line_def raw_def Let_def split: if_splits)
  have "buf ! length raw = CHR 0x0A" using f(1) nth_length_takeWhile[of "\<lambda>c. c \<noteq> CHR 0x0A" buf] by (simp add: raw_def)
  moreover have "take (length raw) buf = raw" unfolding raw_def by (rule takeWhile_eq_take [symmetric])
  ultimately have "buf = raw @ CHR 0x0A # rest" using f(1,3) id_take_nth_drop[OF f(1)] by simp
  moreover have "CHR 0x0A \<notin> set raw" by (auto simp: raw_def dest: set_takeWhileD)
  ultimately show thesis using f(2) by (rule that)
qed

lemma first_line_None: "first_line buf = None \<longleftrightarrow> CHR 0x0A \<notin> set buf"
proof -
  let ?t = "takeWhile (\<lambda>c. c \<noteq> CHR 0x0A) buf"
  have "length ?t < length buf \<longleftrightarrow> CHR 0x0A \<in> set buf"
  proof
    assume lt: "length ?t < length buf"
    show "CHR 0x0A \<in> set buf"
    proof (rule ccontr)
      assume "CHR 0x0A \<notin> set buf"
      then have "\<forall>c \<in> set buf. c \<noteq> CHR 0x0A" by blast
      then have "?t = buf" by (rule takeWhile_eq_all_conv [THEN iffD2])
      with lt show False by simp
    qed
  next
    assume "CHR 0x0A \<in> set buf"
    then have "?t \<noteq> buf" by (auto simp: takeWhile_eq_all_conv)
    then have "length ?t \<noteq> length buf" by (metis takeWhile_eq_take take_all order_refl)
    then show "length ?t < length buf" using length_takeWhile_le[of "\<lambda>c. c \<noteq> CHR 0x0A" buf] by simp
  qed
  then show ?thesis by (simp add: first_line_def Let_def)
qed

lemma deliver_long: "length l \<ge> maxFrameBytes \<Longrightarrow> deliver (l # ls) = []"
  by (cases ls) simp_all

lemma deliver_Cons: "length l < maxFrameBytes \<Longrightarrow> ls \<noteq> [] \<Longrightarrow> deliver (l # ls) = dropCR l # deliver ls"
  by (cases ls) simp_all

lemma hd_split_at_append: "CHR 0x0A \<notin> set a \<Longrightarrow> \<exists>l ls. split_at (CHR 0x0A) (a @ b) = (a @ l) # ls"
proof (induction a)
  case Nil
  then show ?case by (cases "split_at (CHR 0x0A) b") simp_all
next
  case (Cons c a)
  then obtain l ls where "split_at (CHR 0x0A) (a @ b) = (a @ l) # ls" by auto
  moreover have "c \<noteq> CHR 0x0A" using Cons.prems by auto
  ultimately show ?case by simp
qed

lemma after_lines_Cons: "CHR 0x0A \<notin> set raw \<Longrightarrow> after_lines (raw @ CHR 0x0A # rest) = after_lines rest"
  by (simp add: after_lines_def split_at_append)

lemma reads_fit_length: "reads_fit buf reads \<Longrightarrow> length buf \<le> maxFrameBytes"
  by (cases reads) simp_all

lemma reads_fit_rest:
  assumes "CHR 0x0A \<notin> set raw" "reads_fit (raw @ CHR 0x0A # rest) reads"
  shows "reads_fit rest reads"
  using assms by (cases reads) (auto simp: after_lines_Cons)

lemma scan_lines_deliver:
  "reads_fit buf reads \<Longrightarrow> scan_lines buf reads = deliver (split_at (CHR 0x0A) (buf @ concat reads))"
proof (induction buf reads rule: scan_lines.induct)
  case (1 buf reads)
  show ?case
  proof (cases "first_line buf")
    case (Some p)
    then obtain l rest where fl: "first_line buf = Some (l, rest)" by (cases p) auto
    then obtain raw where raw: "buf = raw @ CHR 0x0A # rest" "CHR 0x0A \<notin> set raw" "l = dropCR raw"
      by (rule first_line_Some)
    have "reads_fit rest reads" using reads_fit_rest[OF raw(2)] "1.prems" by (simp add: raw(1))
    from "1.IH"(2)[OF fl refl this]
    have ih: "scan_lines rest reads = deliver (split_at (CHR 0x0A) (rest @ concat reads))" .
    have "length raw < maxFrameBytes" using reads_fit_length[OF "1.prems"] raw(1) by simp
    then have "deliver (raw # split_at (CHR 0x0A) (rest @ concat reads)) =
        dropCR raw # deliver (split_at (CHR 0x0A) (rest @ concat reads))"
      by (rule deliver_Cons) simp
    moreover have "scan_lines buf reads = l # scan_lines rest reads"
      by (simp add: scan_lines.simps[of buf reads] fl)
    moreover have "split_at (CHR 0x0A) (buf @ concat reads) = raw # split_at (CHR 0x0A) (rest @ concat reads)"
      using split_at_append[OF raw(2), of "rest @ concat reads"] by (simp add: raw(1))
    ultimately show ?thesis using raw(3) ih by simp
  next
    case None
    then have nl: "CHR 0x0A \<notin> set buf" by (simp add: first_line_None)
    then have al: "after_lines buf = buf" by (simp add: after_lines_def split_at_single)
    show ?thesis
    proof (cases "length buf \<ge> maxFrameBytes")
      case True
      obtain l ls where "split_at (CHR 0x0A) (buf @ concat reads) = (buf @ l) # ls"
        using hd_split_at_append[OF nl] by blast
      with True None show ?thesis by (simp add: scan_lines.simps[of buf reads] deliver_long)
    next
      case False
      show ?thesis
      proof (cases reads)
        case Nil
        with None False have "scan_lines buf reads = (if buf = [] then [] else [dropCR buf])"
          by (subst scan_lines.simps) simp
        with Nil False nl show ?thesis by (simp add: split_at_single)
      next
        case (Cons r rs)
        with "1.prems" al have "reads_fit (buf @ r) rs" by simp
        from "1.IH"(1)[OF None False Cons this]
        have ih: "scan_lines (buf @ r) rs = deliver (split_at (CHR 0x0A) (buf @ concat reads))" by (simp add: Cons)
        have "scan_lines buf reads = scan_lines (buf @ r) rs"
          using None False Cons by (subst scan_lines.simps) simp
        with ih show ?thesis by simp
      qed
    qed
  qed
qed

section \<open>Decoding what was encoded\<close>

text \<open>The wire keys among themselves: none folds to another.\<close>

definition wire_keys :: "gostring list" where
  "wire_keys = [''type'', ''action'', ''status'', ''orig_msg_id'', ''from'', ''reason'', ''message'',
     ''msgV'', ''msg_id'', ''priority'', ''session_id'', ''uuid'', ''role'', ''content'', ''name'', ''token'']"

definition folded :: "gostring \<Rightarrow> nat list" where
  "folded k = map (\<lambda>c. fold_rune (code_of c)) k"

lemma wire_keys_ascii: "list_all (list_all (\<lambda>c. code_of c < 0x80)) wire_keys"
  by (simp add: wire_keys_def)

lemma wire_keys_folded: "distinct (map folded wire_keys)"
  by (simp add: wire_keys_def folded_def fold_rune_def)

lemma runes_wire_key: "k \<in> set wire_keys \<Longrightarrow> runes k = map code_of k \<and> ValidString k"
  using wire_keys_ascii by (intro runes_ascii) (simp add: list_all_iff)

lemma wire_key:
  assumes "a \<in> set wire_keys" "b \<in> set wire_keys"
  shows "key_matches a b \<longleftrightarrow> a = b"
proof -
  have "key_matches a b \<longleftrightarrow> folded b = folded a"
    using runes_wire_key[OF assms(1)] runes_wire_key[OF assms(2)] by (simp add: key_matches_def folded_def comp_def)
  moreover have "inj_on folded (set wire_keys)" using wire_keys_folded by (simp add: distinct_map)
  ultimately show ?thesis using assms by (auto dest: inj_onD)
qed

lemma wire_key_mem:
  "''type'' \<in> set wire_keys" "''action'' \<in> set wire_keys" "''status'' \<in> set wire_keys"
  "''orig_msg_id'' \<in> set wire_keys" "''from'' \<in> set wire_keys" "''reason'' \<in> set wire_keys"
  "''message'' \<in> set wire_keys" "''msgV'' \<in> set wire_keys" "''msg_id'' \<in> set wire_keys"
  "''priority'' \<in> set wire_keys" "''session_id'' \<in> set wire_keys" "''uuid'' \<in> set wire_keys"
  "''role'' \<in> set wire_keys" "''content'' \<in> set wire_keys" "''name'' \<in> set wire_keys"
  "''token'' \<in> set wire_keys"
  by (simp_all add: wire_keys_def)

lemma store_incoming_known:
  "store_incoming ''type'' (JStr s) f = Some (f\<lparr>in_Type := s\<rparr>)"
  "store_incoming ''action'' (JStr s) f = Some (f\<lparr>in_Action := s\<rparr>)"
  "store_incoming ''status'' (JStr s) f = Some (f\<lparr>in_Status := s\<rparr>)"
  "store_incoming ''orig_msg_id'' (JStr s) f = Some (f\<lparr>in_OrigMsgID := s\<rparr>)"
  "store_incoming ''from'' (JStr s) f = Some (f\<lparr>in_From := s\<rparr>)"
  "store_incoming ''reason'' (JStr s) f = Some (f\<lparr>in_Reason := s\<rparr>)"
  "store_incoming ''message'' v f = map_option (\<lambda>p. f\<lparr>in_Message := p\<rparr>) (store_message_ptr v (in_Message f))"
  by (simp_all add: store_incoming_def wire_key wire_key_mem)

lemma store_incoming_unknown:
  "store_incoming ''msgV'' v f = Some f" "store_incoming ''msg_id'' v f = Some f"
  "store_incoming ''priority'' v f = Some f" "store_incoming ''session_id'' v f = Some f"
  "store_incoming ''uuid'' v f = Some f" "store_incoming ''token'' v f = Some f"
  by (simp_all add: store_incoming_def wire_key wire_key_mem)

lemma store_message_known:
  "store_message ''role'' (JStr s) m = Some (m\<lparr>im_Role := s\<rparr>)"
  "store_message ''content'' (JStr s) m = Some (m\<lparr>im_Content := s\<rparr>)"
  by (simp_all add: store_message_def wire_key wire_key_mem)

lemma decode_members_append:
  "decode_members st (as @ bs) x = Option.bind (decode_members st as x) (decode_members st bs)"
proof (induction st as x rule: decode_members.induct)
  case (2 st k v ms x)
  then show ?case by (cases "st k v x") simp_all
qed simp

lemma coerce_wire_key: "k \<in> set wire_keys \<Longrightarrow> coerce_utf8 k = k"
  using runes_wire_key by (simp add: coerce_utf8_valid)

lemma decode_omitempty:
  "decode_members store_incoming (map (\<lambda>(k, v). (coerce_utf8 k, coerce_json v)) (omitempty ''from'' s)) f =
     Some (if s = [] then f else f\<lparr>in_From := coerce_utf8 s\<rparr>)"
  "decode_members store_incoming (map (\<lambda>(k, v). (coerce_utf8 k, coerce_json v)) (omitempty ''session_id'' s)) f = Some f"
  "decode_members store_incoming (map (\<lambda>(k, v). (coerce_utf8 k, coerce_json v)) (omitempty ''uuid'' s)) f = Some f"
  by (simp_all add: omitempty_def coerce_wire_key wire_key_mem store_incoming_known store_incoming_unknown)

lemma depth_user: "depth (user_json f) \<le> maxNestingDepth"
  by (simp add: user_json_def omitempty_def maxNestingDepth_def)

lemma depth_auth: "depth (auth_json f) \<le> maxNestingDepth"
  by (simp add: auth_json_def maxNestingDepth_def)

lemma decode_user:
  assumes "uf_MsgV f = protocolVersion"
  shows "decode_incoming (print_json (user_json f)) =
    Some (zero_frame\<lparr>in_Type := coerce_utf8 (uf_Type f), in_From := coerce_utf8 (uf_From f),
      in_Message := Some \<lparr>im_Role = coerce_utf8 (fp_Role (uf_Message f)),
        im_Content = coerce_utf8 (fp_Content (uf_Message f))\<rparr>\<rparr>)"
proof -
  have "parse_json (print_json (user_json f)) = Some (coerce_json (user_json f))"
    by (rule parse_print[OF printable_user[OF assms] depth_user])
  then show ?thesis
    by (simp add: decode_incoming_def user_json_def decode_members_append decode_omitempty coerce_wire_key
        wire_key_mem store_incoming_known store_incoming_unknown store_message_known zero_frame_def zero_message_def)
qed

lemma decode_auth:
  "decode_incoming (print_json (auth_json \<lparr>af_Type = ''auth'', af_Token = t\<rparr>)) =
     Some (zero_frame\<lparr>in_Type := coerce_utf8 ''auth''\<rparr>)"
proof -
  have "parse_json (print_json (auth_json \<lparr>af_Type = ''auth'', af_Token = t\<rparr>)) =
      Some (coerce_json (auth_json \<lparr>af_Type = ''auth'', af_Token = t\<rparr>))"
    by (rule parse_print[OF printable_auth depth_auth])
  then show ?thesis
    by (simp add: decode_incoming_def auth_json_def coerce_wire_key wire_key_mem store_incoming_known
        store_incoming_unknown zero_frame_def)
qed

lemma validAddress_utf8: "a = [] \<or> validAddress a \<Longrightarrow> ValidString a"
proof (elim disjE)
  assume "validAddress a"
  then have "code_of c < 0x80" if "c \<in> set a" for c
    using validAddress_bytes[OF _ that] addrSafe_ascii[of c] by auto
  then show "ValidString a" by (intro ValidString_ascii) blast
qed simp

lemma dropCR_printed: "printable v \<Longrightarrow> dropCR (print_json v) = print_json v"
proof -
  assume p: "printable v"
  have "last (print_json v) \<noteq> CHR 0x0D" if "print_json v \<noteq> []"
    using print_json_bytes(1)[OF p last_in_set[OF that]] by auto
  then show ?thesis by (auto simp: dropCR_def)
qed

lemma deliver_printed:
  assumes "printable v" "length (print_json v) < maxFrameBytes" "ls \<noteq> []"
  shows "deliver (print_json v # ls) = print_json v # deliver ls"
  using assms by (simp add: deliver_Cons dropCR_printed)

lemma scan_wire_line:
  assumes "reads_fit [] reads" "concat reads = wire_line token (print_json v)" "printable v"
    and "length (print_json v) < maxFrameBytes"
    and "length (print_json (auth_json \<lparr>af_Type = ''auth'', af_Token = token\<rparr>)) < maxFrameBytes"
  shows "scan_lines [] reads =
    (if token \<noteq> [] then [print_json (auth_json \<lparr>af_Type = ''auth'', af_Token = token\<rparr>)] else []) @ [print_json v]"
proof -
  have "scan_lines [] reads = deliver (split_at (CHR 0x0A) (wire_line token (print_json v)))"
    using scan_lines_deliver[OF assms(1)] by (simp add: assms(2))
  also have "split_at (CHR 0x0A) (wire_line token (print_json v)) =
      (if token \<noteq> [] then [print_json (auth_json \<lparr>af_Type = ''auth'', af_Token = token\<rparr>)] else []) @ [print_json v, []]"
    by (rule split_wire_line[OF print_json_no_newline[OF assms(3)]])
  also have "deliver \<dots> =
      (if token \<noteq> [] then [print_json (auth_json \<lparr>af_Type = ''auth'', af_Token = token\<rparr>)] else []) @ [print_json v]"
    using assms(3-5) by (simp add: dropCR_printed printable_auth)
  finally show ?thesis .
qed

lemma handle_auth: "handle_line cfg (print_json (auth_json \<lparr>af_Type = ''auth'', af_Token = t\<rparr>)) = []"
  using coerce_utf8_valid[OF ValidString_ascii, of "''auth''"]
  by (simp add: handle_line_def decode_auth dispatch_def zero_frame_def)

lemma handle_user:
  assumes "frame w rnd m = Inr f" "has_OnMessage cfg"
  shows "handle_line cfg (print_json (user_json f)) =
    [OnMessage (coerce_utf8 (fp_Content (uf_Message f))) (m_From m)]"
proof -
  have u: "uf_Type f = ''user''" "uf_From f = m_From m" "m_From m = [] \<or> validAddress (m_From m)"
    using assms(1) by (auto simp: frame_Inr_iff)
  have "print_json (user_json f) \<noteq> []" by (simp add: user_json_def)
  moreover have "coerce_utf8 ''user'' = ''user''"
    by (intro coerce_utf8_valid ValidString_ascii) simp
  moreover have "coerce_utf8 (m_From m) = m_From m"
    by (intro coerce_utf8_valid validAddress_utf8 u)
  ultimately show ?thesis
    using assms(2) u by (simp add: handle_line_def decode_user[OF frame_MsgV[OF assms(1)]] dispatch_def)
qed

lemma handle_wire_line:
  assumes "concat reads = wire_line token (print_json (user_json f))" "reads_fit [] reads"
    and "frame w rnd m = Inr f" "has_OnMessage cfg" "length (print_json (user_json f)) < maxFrameBytes"
    and "length (print_json (auth_json \<lparr>af_Type = ''auth'', af_Token = token\<rparr>)) < maxFrameBytes"
  shows "handle cfg reads = [OnMessage (coerce_utf8 (fp_Content (uf_Message f))) (m_From m)]"
proof -
  from scan_wire_line[OF assms(2,1) printable_user[OF frame_MsgV[OF assms(3)]] assms(5,6)]
  have "handle cfg reads = handle_line cfg (print_json (user_json f))"
    by (simp add: handle_def handle_auth)
  with handle_user[OF assms(3,4)] show ?thesis by simp
qed

lemma send_delivered:
  assumes "SendToSocket w n rnd c p m = (evs, Inr i)" "Wrote (concat reads) \<in> set evs"
    and "reads_fit [] reads" "has_OnMessage cfg" "resolveToken w c p = Inr token"
    and "length (print_json (auth_json \<lparr>af_Type = ''auth'', af_Token = token\<rparr>)) < maxFrameBytes"
  shows "\<exists>f. frame w rnd m = Inr f \<and>
    handle cfg reads = [OnMessage (coerce_utf8 (fp_Content (uf_Message f))) (m_From m)]"
proof -
  obtain f where f: "frame w rnd m = Inr f" "i = uf_MsgID f" "writeFrame w n c p (user_json f) = (evs, Inr ())"
    using assms(1) by (rule SendToSocket_Inr)
  obtain t where t: "resolveToken w c p = Inr t" "length (print_json (user_json f)) < maxFrameBytes"
    "evs = [Dialed p, DeadlineSet (send_deadline c n), Wrote (wire_line t (print_json (user_json f)))]
       @ wait_events w @ [HalfClosed, Drained, Closed]"
    using f(3) by (rule writeFrame_Inr)
  from t(1) assms(5) have "t = token" by simp
  with t(3) assms(2) have "concat reads = wire_line token (print_json (user_json f))"
    by (auto simp: wait_events_def split: if_splits)
  from handle_wire_line[OF this assms(3) f(1) assms(4) t(2) assms(6)] f(1) show ?thesis by blast
qed

section \<open>Receipts\<close>

text \<open>The line a receiving session reports a receipt with.\<close>

definition receipt_json :: "receipt \<Rightarrow> json" where
  "receipt_json r = JObj
     [(''type'', JStr ''control''), (''action'', JStr ''peer_message_status''), (''status'', JStr (r_Status r)),
      (''orig_msg_id'', JStr (r_OrigMsgID r)), (''from'', JStr (r_From r)), (''reason'', JStr (r_Reason r))]"

definition receipt_utf8 :: "receipt \<Rightarrow> bool" where
  "receipt_utf8 r \<longleftrightarrow> ValidString (r_Status r) \<and> ValidString (r_OrigMsgID r) \<and> ValidString (r_From r) \<and>
     ValidString (r_Reason r)"

lemma decode_receipt:
  assumes "receipt_utf8 r"
  shows "decode_incoming (print_json (receipt_json r)) =
    Some (zero_frame\<lparr>in_Type := ''control'', in_Action := ''peer_message_status'', in_Status := r_Status r,
      in_OrigMsgID := r_OrigMsgID r, in_From := r_From r, in_Reason := r_Reason r\<rparr>)"
proof -
  have "parse_json (print_json (receipt_json r)) = Some (coerce_json (receipt_json r))"
    by (rule parse_print) (simp_all add: receipt_json_def maxNestingDepth_def)
  moreover have "coerce_utf8 ''control'' = ''control''" "coerce_utf8 ''peer_message_status'' = ''peer_message_status''"
    by (intro coerce_utf8_valid ValidString_ascii, simp)+
  ultimately show ?thesis
    using assms by (simp add: decode_incoming_def receipt_json_def receipt_utf8_def coerce_utf8_valid
        coerce_wire_key wire_key_mem store_incoming_known zero_frame_def)
qed

lemma handle_receipt:
  assumes "receipt_utf8 r" "has_OnReceipt cfg"
  shows "handle_line cfg (print_json (receipt_json r)) = [OnReceipt r]"
proof -
  have "print_json (receipt_json r) \<noteq> []" by (simp add: receipt_json_def)
  with assms show ?thesis by (simp add: handle_line_def decode_receipt dispatch_def zero_frame_def)
qed

lemma printable_receipt: "printable (receipt_json r)"
  by (simp add: receipt_json_def)

section \<open>Properties of a connection\<close>

lemma handle_receipts:
  assumes "concat reads = concat (map (\<lambda>r. print_json (receipt_json r) @ [CHR 0x0A]) rs)"
    and "reads_fit [] reads" "has_OnReceipt cfg"
    and "\<forall>r \<in> set rs. receipt_utf8 r \<and> length (print_json (receipt_json r)) < maxFrameBytes"
  shows "handle cfg reads = map OnReceipt rs"
proof -
  have "concat (map (handle_line cfg) (deliver (split_at (CHR 0x0A)
      (concat (map (\<lambda>r. print_json (receipt_json r) @ [CHR 0x0A]) rs))))) = map OnReceipt rs"
    using assms(4)
  proof (induction rs)
    case (Cons r rs)
    then show ?case
      using print_json_no_newline[OF printable_receipt, of r] handle_receipt[OF _ assms(3), of r]
      by (simp add: split_at_append deliver_printed printable_receipt)
  qed simp
  then show ?thesis using scan_lines_deliver[OF assms(2)] by (simp add: handle_def assms(1))
qed

text \<open>
  Property C15: what the scanner hands to the handler depends on the bytes of the stream
  alone, not on how the kernel cuts them into reads: the lines in order, each below the
  limit, with an unfinished last line included, and nothing from the first line on that does
  not fit the buffer.
\<close>

theorem scanner_chunking:
  assumes "reads_fit [] reads"
  shows "scan_lines [] reads = deliver (split_at (CHR 0x0A) (concat reads))"
  using scan_lines_deliver[OF assms] by simp

text \<open>
  End to end: when a client's send succeeded and the receiving inbox reads
  what was written, in whatever pieces, its \<^verbatim>\<open>OnMessage\<close> is called exactly once, with the
  frame's content and the sender's address; invalid UTF-8 in the text arrives as replacement
  characters, and the auth line, when it fits a line, calls nothing.
\<close>

theorem message_delivered:
  assumes "SendToSocket w n rnd c p m = (evs, Inr i)" "Wrote (concat reads) \<in> set evs"
    and "reads_fit [] reads" "has_OnMessage cfg" "resolveToken w c p = Inr token"
    and "length (print_json (auth_json \<lparr>af_Type = ''auth'', af_Token = token\<rparr>)) < maxFrameBytes"
  shows "\<exists>f. frame w rnd m = Inr f \<and>
    handle cfg reads = [OnMessage (coerce_utf8 (fp_Content (uf_Message f))) (m_From m)]"
  using assms by (rule send_delivered)

text \<open>
  Property C16: a receipt line a session writes reaches \<^verbatim>\<open>OnReceipt\<close> with exactly its
  status, message id, sender and reason, once per receipt and in the order they arrive, on
  one connection and in whatever pieces.
\<close>

theorem receipts_delivered:
  assumes "concat reads = concat (map (\<lambda>r. print_json (receipt_json r) @ [CHR 0x0A]) rs)"
    and "reads_fit [] reads" "has_OnReceipt cfg"
    and "\<forall>r \<in> set rs. receipt_utf8 r \<and> length (print_json (receipt_json r)) < maxFrameBytes"
  shows "handle cfg reads = map OnReceipt rs"
  using assms by (rule handle_receipts)

end
