(* ===== verification/Idle.thy ===== *)
theory Idle
  imports Inbox
begin

text \<open>
  The read deadline of \<^verbatim>\<open>Inbox.handle\<close> (\<^verbatim>\<open>inbox.go\<close>): the scanner of \<open>Inbox\<close> with the
  times at which the peer's bytes arrive and the time the callbacks take.  The handler sets the deadline before every
  \<^verbatim>\<open>Scan\<close>, that is once per line and not once per read.  The lemmas show that the timed
  scanner delivers what the untimed one does as long as the peer keeps up, that a silent peer
  is let go at the deadline, and that no line is waited for longer than the timeout, which
  starts when the callback for the line before is done.
\<close>

section \<open>The timed scanner\<close>

definition inboxIdleTimeout :: duration where
  "inboxIdleTimeout = 30 * Second"

text \<open>
  What the peer does next, and when: it sends bytes, or it ends the connection.  A peer
  that does neither stays silent.
\<close>

datatype peer_event = Bytes gostring | End

text \<open>
  Decoding a line and running its callback takes time, and the handler does it on the same
  goroutine before it sets the next deadline: \<open>busy t l\<close> is how long it takes over the line \<open>l\<close>
  it gets at time \<open>t\<close>, any amount.

  \<open>now\<close> is the time, \<open>deadline\<close> the read deadline in force.  Each line comes with the time
  at which the handler gets it; the second component is the time at which the handler closes
  the connection.  Bytes that came while the handler was busy are read as soon as it is free.
  A read that is still waiting at the deadline fails, and any failure makes the scanner
  deliver what is left in its buffer.
\<close>

type_synonym work = "int \<Rightarrow> gostring \<Rightarrow> nat"

definition last_line :: "work \<Rightarrow> int \<Rightarrow> gostring \<Rightarrow> (int \<times> gostring) list \<times> int" where
  "last_line busy t buf =
     (if buf = [] then ([], t) else ([(t, dropCR buf)], t + int (busy t (dropCR buf))))"

function timed_scan ::
  "work \<Rightarrow> int \<Rightarrow> int \<Rightarrow> gostring \<Rightarrow> (int \<times> peer_event) list \<Rightarrow> (int \<times> gostring) list \<times> int" where
  "timed_scan busy now deadline buf evs =
     (case first_line buf of
        Some (l, rest) \<Rightarrow>
          (let free = now + int (busy now l) in
           case timed_scan busy free (free + inboxIdleTimeout) rest evs of (ls, t) \<Rightarrow> ((now, l) # ls, t))
      | None \<Rightarrow>
          if length buf \<ge> maxFrameBytes then ([], now)
          else
            (case evs of
               [] \<Rightarrow> last_line busy deadline buf
             | (t, e) # evs' \<Rightarrow>
                 if deadline \<le> t then last_line busy deadline buf
                 else
                   (case e of
                      Bytes r \<Rightarrow> timed_scan busy (max now t) deadline (buf @ r) evs'
                    | End \<Rightarrow> last_line busy (max now t) buf)))"
  by pat_completeness auto
termination
  by (relation "measures [\<lambda>(busy, now, deadline, buf, evs). length evs,
      \<lambda>(busy, now, deadline, buf, evs). length buf]")
    (auto dest: first_line_length)

declare timed_scan.simps [simp del]

text \<open>One connection accepted at time \<open>now\<close>, and the callbacks it makes.\<close>

definition timed_calls :: "inboxConfig \<Rightarrow> (int \<times> gostring) list \<Rightarrow> (int \<times> inbox_call) list" where
  "timed_calls cfg ls = concat (map (\<lambda>(t, l). map (Pair t) (handle_line cfg l)) ls)"

definition handle_timed ::
  "inboxConfig \<Rightarrow> work \<Rightarrow> int \<Rightarrow> (int \<times> peer_event) list \<Rightarrow> (int \<times> inbox_call) list \<times> int" where
  "handle_timed cfg busy now evs =
     (case timed_scan busy now (now + inboxIdleTimeout) [] evs of (ls, t) \<Rightarrow> (timed_calls cfg ls, t))"

lemma timed_calls_append: "timed_calls cfg (xs @ ys) = timed_calls cfg xs @ timed_calls cfg ys"
  by (simp add: timed_calls_def)

lemma timed_calls_lines: "map snd (timed_calls cfg ls) = concat (map (handle_line cfg) (map snd ls))"
  by (induction ls) (auto simp: timed_calls_def comp_def)

section \<open>The bytes\<close>

text \<open>The reads before the connection ends.\<close>

fun sent_reads :: "(int \<times> peer_event) list \<Rightarrow> gostring list" where
  "sent_reads [] = []"
| "sent_reads ((t, Bytes r) # evs) = r # sent_reads evs"
| "sent_reads ((t, End) # evs) = []"

text \<open>
  The deadline changes nothing when all events come before it: time spent on lines only
  moves it.
\<close>

lemma timed_scan_lines:
  assumes "\<forall>(t, e) \<in> set evs. t < deadline" "deadline \<le> now + inboxIdleTimeout"
  shows "map snd (fst (timed_scan busy now deadline buf evs)) = scan_lines buf (sent_reads evs)"
  using assms
proof (induction busy now deadline buf evs rule: timed_scan.induct)
  case (1 busy now deadline buf evs)
  show ?case
  proof (cases "first_line buf")
    case (Some p)
    obtain l rest where p: "p = (l, rest)" by fastforce
    let ?free = "now + int (busy now l)"
    have d: "\<forall>(t, e) \<in> set evs. t < ?free + inboxIdleTimeout" using "1.prems" by fastforce
    have "map snd (fst (timed_scan busy ?free (?free + inboxIdleTimeout) rest evs)) = scan_lines rest (sent_reads evs)"
      by (rule "1.IH"(2) [OF Some p [symmetric] refl d order_refl])
    with Some p show ?thesis
      by (simp add: timed_scan.simps [of busy now deadline buf] scan_lines.simps [of buf] case_prod_beta Let_def)
  next
    case None
    show ?thesis
    proof (cases evs)
      case Nil
      with None show ?thesis
        by (simp add: timed_scan.simps [of busy now deadline buf] scan_lines.simps [of buf] last_line_def)
    next
      case (Cons a evs')
      obtain t e where a: "a = (t, e)" by fastforce
      from "1.prems" Cons a have t: "t < deadline" by auto
      show ?thesis
      proof (cases "length buf \<ge> maxFrameBytes \<or> e = End")
        case True
        with None Cons a t show ?thesis
          by (auto simp: timed_scan.simps [of busy now deadline buf] scan_lines.simps [of buf] last_line_def)
      next
        case False
        then obtain r where e: "e = Bytes r" by (cases e) auto
        have "map snd (fst (timed_scan busy (max now t) deadline (buf @ r) evs')) = scan_lines (buf @ r) (sent_reads evs')"
          using "1.IH"(1) [OF None _ Cons a [symmetric] _ e] False "1.prems" Cons a t by fastforce
        with None Cons a e t False show ?thesis
          by (simp add: timed_scan.simps [of busy now deadline buf] scan_lines.simps [of buf])
      qed
    qed
  qed
qed

section \<open>The times\<close>

text \<open>
  The handler is never waiting for longer than the timeout: it starts to wait at \<open>free\<close>, gets
  a line or gives up within the timeout, and after a line it starts again when it is done
  with that line.
\<close>

fun waits_within :: "work \<Rightarrow> int \<Rightarrow> (int \<times> gostring) list \<Rightarrow> int \<Rightarrow> bool" where
  "waits_within busy free [] fin \<longleftrightarrow> free \<le> fin \<and> fin \<le> free + inboxIdleTimeout"
| "waits_within busy free ((t, l) # ls) fin \<longleftrightarrow>
     free \<le> t \<and> t \<le> free + inboxIdleTimeout \<and> waits_within busy (t + int (busy t l)) ls fin"

lemma idle_nonneg: "0 \<le> inboxIdleTimeout"
  by (simp add: inboxIdleTimeout_def Second_def)

lemma last_line_within:
  "last_line busy t buf = (ls, fin) \<Longrightarrow> start \<le> t \<Longrightarrow> t \<le> start + inboxIdleTimeout \<Longrightarrow> waits_within busy start ls fin"
  using idle_nonneg by (auto simp: last_line_def split: if_splits)

lemma timed_scan_within:
  assumes "start \<le> now" "now \<le> deadline" "deadline \<le> start + inboxIdleTimeout"
    "timed_scan busy now deadline buf evs = (ls, fin)"
  shows "waits_within busy start ls fin"
  using assms
proof (induction busy now deadline buf evs arbitrary: start ls fin rule: timed_scan.induct)
  case (1 busy now deadline buf evs)
  note step = "1.prems"(4) [unfolded timed_scan.simps [of busy now deadline buf]]
  show ?case
  proof (cases "first_line buf")
    case (Some p)
    obtain l rest where p: "p = (l, rest)" by fastforce
    let ?free = "now + int (busy now l)"
    obtain ls' where ls: "ls = (now, l) # ls'" "timed_scan busy ?free (?free + inboxIdleTimeout) rest evs = (ls', fin)"
      using step Some p by (auto simp: Let_def split: prod.splits)
    have "waits_within busy ?free ls' fin"
      using "1.IH"(2) [OF Some p [symmetric] refl order_refl _ order_refl ls(2)] idle_nonneg by simp
    with ls(1) "1.prems"(1-3) show ?thesis by simp
  next
    case None
    have whole: "waits_within busy start ls fin" if "last_line busy u buf = (ls, fin)" "now \<le> u" "u \<le> deadline" for u
      by (rule last_line_within [OF that(1)]) (use that(2,3) "1.prems"(1,3) in simp_all)
    show ?thesis
    proof (cases "maxFrameBytes \<le> length buf")
      case True
      with None step "1.prems"(1-3) show ?thesis by auto
    next
      case False
      note open_buf = False
      show ?thesis
      proof (cases evs)
        case Nil
        with None False step whole [of deadline] "1.prems"(2) show ?thesis by simp
      next
        case (Cons a evs')
        obtain t e where a: "a = (t, e)" by fastforce
        show ?thesis
        proof (cases "deadline \<le> t \<or> e = End")
          case True
          with None Cons a step open_buf whole [of deadline] whole [of "max now t"] "1.prems"(2) show ?thesis
            by (cases "deadline \<le> t") simp_all
        next
          case False
          then obtain r where e: "e = Bytes r" by (cases e) auto
          have "timed_scan busy (max now t) deadline (buf @ r) evs' = (ls, fin)"
            using False None Cons a e step open_buf by simp
          then show ?thesis
            using "1.IH"(1) [OF None _ Cons a [symmetric] _ e, of start ls fin] open_buf False "1.prems"(1-3) by simp
        qed
      qed
    qed
  qed
qed

section \<open>After a complete line\<close>

lemma first_line_ended:
  assumes "buf \<noteq> []" "last buf = CHR 0x0A"
  obtains l rest where "first_line buf = Some (l, rest)" "rest = [] \<or> last rest = CHR 0x0A"
proof -
  define n where "n = length (takeWhile (\<lambda>c. c \<noteq> CHR 0x0A) buf)"
  have "CHR 0x0A \<in> set buf" using assms last_in_set by metis
  then have "takeWhile (\<lambda>c. c \<noteq> CHR 0x0A) buf \<noteq> buf" by (auto simp: takeWhile_eq_all_conv)
  then have "n \<noteq> length buf"
    using takeWhile_eq_take [of "\<lambda>c. c \<noteq> CHR 0x0A" buf] by (auto simp: n_def)
  then have n: "n < length buf"
    using length_takeWhile_le [of "\<lambda>c. c \<noteq> CHR 0x0A" buf] by (simp add: n_def)
  have e: "last (drop (Suc n) buf) = CHR 0x0A" if "drop (Suc n) buf \<noteq> []"
    using that assms(2) by (simp add: last_drop)
  have "first_line buf = Some (dropCR (takeWhile (\<lambda>c. c \<noteq> CHR 0x0A) buf), drop (Suc n) buf)"
    using n by (simp add: first_line_def Let_def n_def)
  moreover have "drop (Suc n) buf = [] \<or> last (drop (Suc n) buf) = CHR 0x0A" using e by blast
  ultimately show thesis by (rule that)
qed

text \<open>
  Complete lines are taken one after the other, each when the handler is done with the one
  before, and then the scanner is as on a new connection, the deadline included.
\<close>

fun line_times :: "work \<Rightarrow> int \<Rightarrow> gostring list \<Rightarrow> (int \<times> gostring) list \<times> int" where
  "line_times busy t [] = ([], t)"
| "line_times busy t (l # ls) = (case line_times busy (t + int (busy t l)) ls of (xs, u) \<Rightarrow> ((t, l) # xs, u))"

lemma line_times_lines: "line_times busy t ls = (xs, u) \<Longrightarrow> map snd xs = ls"
  by (induction ls arbitrary: t xs u) (auto split: prod.splits)

lemma timed_scan_ended:
  assumes "buf \<noteq> []" "last buf = CHR 0x0A" "line_times busy t (scan_lines buf []) = (xs, u)"
  shows "timed_scan busy t deadline buf evs =
    (xs @ fst (timed_scan busy u (u + inboxIdleTimeout) [] evs), snd (timed_scan busy u (u + inboxIdleTimeout) [] evs))"
  using assms
proof (induction "length buf" arbitrary: buf t deadline xs rule: less_induct)
  case less
  obtain l rest where f: "first_line buf = Some (l, rest)" "rest = [] \<or> last rest = CHR 0x0A"
    using less.prems(1,2) by (rule first_line_ended)
  let ?free = "t + int (busy t l)"
  have "scan_lines buf [] = l # scan_lines rest []" by (simp add: scan_lines.simps [of buf] f(1))
  with less.prems(3) obtain xs' where xs: "xs = (t, l) # xs'" "line_times busy ?free (scan_lines rest []) = (xs', u)"
    by (auto split: prod.splits)
  have t: "timed_scan busy t deadline buf evs =
      ((t, l) # fst (timed_scan busy ?free (?free + inboxIdleTimeout) rest evs),
       snd (timed_scan busy ?free (?free + inboxIdleTimeout) rest evs))"
    by (simp add: timed_scan.simps [of busy t deadline buf] f(1) case_prod_beta Let_def)
  show ?case
  proof (cases "rest = []")
    case True
    have "scan_lines [] [] = []" by (simp add: scan_lines.simps first_line_def maxFrameBytes_def)
    with t xs True show ?thesis by simp
  next
    case False
    with less.hyps [OF first_line_length [OF f(1)] False _ xs(2)] f(2) xs(1) t show ?thesis by simp
  qed
qed

section \<open>Properties\<close>

text \<open>
  Property C22: a handler never waits for its peer longer than the idle timeout, however long
  its callbacks take: from the accept, and from the end of each line's callback, to the next
  line or to the close at most the timeout passes, so a silent peer is let go thirty seconds
  after it connects with nothing delivered.  A peer that completes its lines in time is as new
  after them: the callbacks are made one after the other and the deadline starts again when
  the last is done.  When everything the peer does comes within the first timeout, the
  deadline changes nothing: the callbacks are those of the untimed handler on the same reads.
\<close>

theorem handler_deadline:
  assumes "timed_scan busy now (now + inboxIdleTimeout) [] evs = (ls, fin)"
  shows "waits_within busy now ls fin \<and>
    handle_timed cfg busy now [] = ([], now + inboxIdleTimeout) \<and>
    (r \<noteq> [] \<and> last r = CHR 0x0A \<and> t0 < now + inboxIdleTimeout \<and>
       line_times busy (max now t0) (scan_lines [] [r]) = (xs, u) \<longrightarrow>
       handle_timed cfg busy now ((t0, Bytes r) # evs) =
         (timed_calls cfg xs @ fst (handle_timed cfg busy u evs), snd (handle_timed cfg busy u evs)) \<and>
       map snd (timed_calls cfg xs) = handle cfg [r]) \<and>
    ((\<forall>(t, e) \<in> set evs. t < now + inboxIdleTimeout) \<longrightarrow>
       fst (handle_timed cfg busy now evs) = timed_calls cfg ls \<and>
       map snd (timed_calls cfg ls) = handle cfg (sent_reads evs))"
proof (intro conjI impI)
  show "waits_within busy now ls fin"
    using timed_scan_within [OF _ _ _ assms, of now] idle_nonneg by simp
  have nil: "first_line [] = None" by (simp add: first_line_def)
  show "handle_timed cfg busy now [] = ([], now + inboxIdleTimeout)"
    by (simp add: handle_timed_def timed_scan.simps nil last_line_def maxFrameBytes_def timed_calls_def)
  have whole: "scan_lines [] [r] = scan_lines r []"
    by (simp add: scan_lines.simps [of "[]"] nil maxFrameBytes_def)
  assume "r \<noteq> [] \<and> last r = CHR 0x0A \<and> t0 < now + inboxIdleTimeout \<and>
    line_times busy (max now t0) (scan_lines [] [r]) = (xs, u)"
  then have r: "r \<noteq> []" "last r = CHR 0x0A" "t0 < now + inboxIdleTimeout"
    "line_times busy (max now t0) (scan_lines r []) = (xs, u)" by (simp_all add: whole)
  have "timed_scan busy now (now + inboxIdleTimeout) [] ((t0, Bytes r) # evs) =
      timed_scan busy (max now t0) (now + inboxIdleTimeout) r evs"
    using r(3) by (simp add: timed_scan.simps [of busy now _ "[]"] nil maxFrameBytes_def)
  with timed_scan_ended [OF r(1,2,4), of "now + inboxIdleTimeout" evs]
  show "handle_timed cfg busy now ((t0, Bytes r) # evs) =
      (timed_calls cfg xs @ fst (handle_timed cfg busy u evs), snd (handle_timed cfg busy u evs))"
    by (simp add: handle_timed_def timed_calls_append case_prod_beta)
  show "map snd (timed_calls cfg xs) = handle cfg [r]"
    by (simp only: timed_calls_lines line_times_lines [OF r(4)] handle_def whole)
next
  assume "\<forall>(t, e) \<in> set evs. t < now + inboxIdleTimeout"
  from timed_scan_lines [OF this order_refl, of busy "[]"]
  have "map snd ls = scan_lines [] (sent_reads evs)" by (simp add: assms)
  then show "map snd (timed_calls cfg ls) = handle cfg (sent_reads evs)"
    by (simp only: timed_calls_lines handle_def)
  show "fst (handle_timed cfg busy now evs) = timed_calls cfg ls" by (simp add: handle_timed_def assms)
qed

text \<open>
  The deadline is set once per line: a peer that is never silent for the whole timeout,
  but takes longer than that over one line, is cut off in the middle of it.
\<close>

theorem slow_line_cut:
  "timed_scan (\<lambda>_ _. 0) 0 inboxIdleTimeout [] [(20 * Second, Bytes ''a''), (40 * Second, Bytes [CHR ''b'', CHR 0x0A])]
   = ([(inboxIdleTimeout, ''a'')], inboxIdleTimeout)"
  by (simp add: timed_scan.simps first_line_def inboxIdleTimeout_def Second_def maxFrameBytes_def dropCR_def last_line_def)

text \<open>
  And only when the callback is done: with one that takes a minute, the next line of a peer
  that went on sending comes a minute after the first.
\<close>

theorem slow_callback_waits:
  "timed_scan (\<lambda>_ _. nat (60 * Second)) 0 inboxIdleTimeout []
     [(1, Bytes [CHR ''a'', CHR 0x0A]), (2, Bytes [CHR ''b'', CHR 0x0A]), (3, End)]
   = ([(1, ''a''), (1 + 60 * Second, ''b'')], 1 + 120 * Second)"
  by (simp add: timed_scan.simps first_line_def inboxIdleTimeout_def Second_def maxFrameBytes_def dropCR_def
      last_line_def)

end
