(* ===== verification/Rebind.thy ===== *)
theory Rebind
  imports Steps
begin

text \<open>
  The socket file of \<^verbatim>\<open>inbox.go\<close> over time.  Every inbox of a process has the same path,
  which is made from the PID, so the \<^verbatim>\<open>Listen\<close> and \<^verbatim>\<open>Close\<close> calls of a process act on one
  file.  Here any number of inboxes do, one system call per step, and each call may fail.  The
  lemmas show that calls that do not overlap keep the file of an open inbox in place unless a
  probe of it fails, and that the two exceptions are real: a \<^verbatim>\<open>Listen\<close> whose probe fails
  takes the file of a live inbox, and so does \<^verbatim>\<open>Close\<close> when calls overlap, which removes the
  path once more after its listener is gone.
\<close>

section \<open>State\<close>

text \<open>
  What is at the path: nothing, a file nobody listens behind, or the socket an inbox bound.
  An inbox is being opened (after the probe, after removing a stale file, after binding),
  open, being closed (listener closed, file not yet removed again), or done.
\<close>

datatype path_entry = NoFile | Stale | SocketOf nat

datatype life = Unused | Probing | Cleared | Listening | Open | Unlisted | Finished | Failed

text \<open>
  \<open>p_missed\<close> records whether a probe ever failed while an inbox accepted behind the path.
\<close>

record path_state =
  p_entry :: path_entry
  p_life :: "nat \<Rightarrow> life"
  p_missed :: bool

definition accepting :: "path_state \<Rightarrow> nat \<Rightarrow> bool" where
  "accepting s t \<longleftrightarrow> p_life s t = Listening \<or> p_life s t = Open"

text \<open>Only an inbox that bound the file and accepts can answer a \<^verbatim>\<open>Probe\<close>.\<close>

definition answers :: "path_state \<Rightarrow> bool" where
  "answers s \<longleftrightarrow> (case p_entry s of SocketOf u \<Rightarrow> accepting s u | _ \<Rightarrow> False)"

section \<open>Steps\<close>

text \<open>
  \<^verbatim>\<open>Listen\<close> for inbox \<open>t\<close>, from the probe on.  \<^verbatim>\<open>Probe\<close> is false on any error of the dial, a
  timeout included, so it may be false although an inbox accepts.  The result of
  \<^verbatim>\<open>os.Remove\<close> is ignored; binding needs a free path and may fail for other reasons.  Closing
  the listener after a failed \<^verbatim>\<open>Chmod\<close> unlinks the path, as \<^verbatim>\<open>net.UnixListener.Close\<close> does,
  unless that fails.
\<close>

inductive open_step :: "nat \<Rightarrow> path_state \<Rightarrow> path_state \<Rightarrow> bool" for t :: nat where
  open_live: "p_life s t = Unused \<Longrightarrow> answers s \<Longrightarrow>
    open_step t s (s\<lparr>p_life := (p_life s)(t := Failed)\<rparr>)"
| open_probe: "p_life s t = Unused \<Longrightarrow>
    open_step t s (s\<lparr>p_life := (p_life s)(t := Probing), p_missed := p_missed s \<or> answers s\<rparr>)"
| open_remove: "p_life s t = Probing \<Longrightarrow> e = NoFile \<or> e = p_entry s \<Longrightarrow>
    open_step t s (s\<lparr>p_entry := e, p_life := (p_life s)(t := Cleared)\<rparr>)"
| open_bind: "p_life s t = Cleared \<Longrightarrow> p_entry s = NoFile \<Longrightarrow>
    open_step t s (s\<lparr>p_entry := SocketOf t, p_life := (p_life s)(t := Listening)\<rparr>)"
| open_bind_fails: "p_life s t = Cleared \<Longrightarrow>
    open_step t s (s\<lparr>p_life := (p_life s)(t := Failed)\<rparr>)"
| open_chmod: "p_life s t = Listening \<Longrightarrow> p_entry s \<noteq> NoFile \<Longrightarrow>
    open_step t s (s\<lparr>p_life := (p_life s)(t := Open)\<rparr>)"
| open_chmod_fails: "p_life s t = Listening \<Longrightarrow> e = NoFile \<or> e = p_entry s \<Longrightarrow>
    open_step t s (s\<lparr>p_entry := e, p_life := (p_life s)(t := Failed)\<rparr>)"

text \<open>The first \<^verbatim>\<open>Close\<close> of inbox \<open>t\<close>: the listener, which unlinks the path, then
  \<^verbatim>\<open>os.Remove\<close>; either removal may fail and leave what is there.\<close>

inductive shut_step :: "nat \<Rightarrow> path_state \<Rightarrow> path_state \<Rightarrow> bool" for t :: nat where
  shut_listener: "p_life s t = Open \<Longrightarrow> e = NoFile \<or> e = p_entry s \<Longrightarrow>
    shut_step t s (s\<lparr>p_entry := e, p_life := (p_life s)(t := Unlisted)\<rparr>)"
| shut_remove: "p_life s t = Unlisted \<Longrightarrow> e = NoFile \<or> e = p_entry s \<Longrightarrow>
    shut_step t s (s\<lparr>p_entry := e, p_life := (p_life s)(t := Finished)\<rparr>)"

definition path_step :: "path_state \<Rightarrow> path_state \<Rightarrow> bool" where
  "path_step s s' \<longleftrightarrow> (\<exists>t. open_step t s s' \<or> shut_step t s s')"

text \<open>Nobody is in the middle of a call.\<close>

definition at_rest :: "path_state \<Rightarrow> nat \<Rightarrow> bool" where
  "at_rest s t \<longleftrightarrow> p_life s t = Unused \<or> p_life s t = Open \<or> p_life s t = Finished \<or> p_life s t = Failed"

text \<open>One call at a time: a step is taken only while everybody else is at rest.\<close>

definition serial_step :: "path_state \<Rightarrow> path_state \<Rightarrow> bool" where
  "serial_step s s' \<longleftrightarrow> (\<exists>t. (open_step t s s' \<or> shut_step t s s') \<and> (\<forall>u. u \<noteq> t \<longrightarrow> at_rest s u))"

text \<open>A previous process with this PID may have left a file behind.\<close>

definition path_init :: "path_state \<Rightarrow> bool" where
  "path_init s \<longleftrightarrow> (p_entry s = NoFile \<or> p_entry s = Stale) \<and> (\<forall>t. p_life s t = Unused) \<and> \<not> p_missed s"

section \<open>Calls that do not overlap\<close>

text \<open>
  An inbox that accepts owns the file, and nobody accepts while a call is between the probe
  and the bind, or between closing the listener and removing the file.
\<close>

definition unsettled :: "path_state \<Rightarrow> nat \<Rightarrow> bool" where
  "unsettled s t \<longleftrightarrow> p_life s t = Probing \<or> p_life s t = Cleared \<or> p_life s t = Unlisted"

definition path_owned :: "path_state \<Rightarrow> bool" where
  "path_owned s \<longleftrightarrow> (\<forall>t. accepting s t \<longrightarrow> p_entry s = SocketOf t) \<and>
     ((\<exists>t. unsettled s t) \<longrightarrow> (\<forall>u. \<not> accepting s u))"

text \<open>
  That holds until a probe of a live inbox fails; what a \<^verbatim>\<open>Listen\<close> has just bound is its own
  in any case.
\<close>

definition path_inv :: "path_state \<Rightarrow> bool" where
  "path_inv s \<longleftrightarrow> (\<not> p_missed s \<longrightarrow> path_owned s) \<and> (\<forall>t. p_life s t = Listening \<longrightarrow> p_entry s = SocketOf t)"

lemma at_rest_settled: "at_rest s u \<Longrightarrow> \<not> unsettled s u \<and> p_life s u \<noteq> Listening"
  by (auto simp: at_rest_def unsettled_def)

lemma path_ownedD:
  assumes "path_owned s"
  shows "accepting s t \<Longrightarrow> p_entry s = SocketOf t"
    and "unsettled s t \<Longrightarrow> \<not> accepting s u"
  using assms by (auto simp: path_owned_def)

text \<open>The effect of a step of \<open>t\<close>: it is enough to know who accepts after it.\<close>

lemma path_owned_quiet:
  assumes "\<And>u. \<not> accepting s u"
  shows "path_owned s"
  using assms by (simp add: path_owned_def)

lemma path_owned_by:
  assumes "p_entry s = SocketOf t" "\<And>u. u \<noteq> t \<Longrightarrow> \<not> accepting s u" "\<And>u. \<not> unsettled s u"
  shows "path_owned s"
proof -
  have "p_entry s = SocketOf u" if "accepting s u" for u
    using assms(1) assms(2) [of u] that by (cases "u = t") simp_all
  with assms(3) show ?thesis by (simp add: path_owned_def)
qed

lemma only_one_accepts:
  assumes "path_owned s" "accepting s t" "u \<noteq> t"
  shows "\<not> accepting s u"
  using path_ownedD(1) [OF assms(1,2)] path_ownedD(1) [OF assms(1), of u] assms(3) by auto

lemma nobody_answers: "path_owned s \<Longrightarrow> \<not> answers s \<Longrightarrow> \<not> accepting s u"
  using path_ownedD(1) [of s u] by (auto simp: answers_def)

lemma path_owned_open:
  assumes "path_owned s" "open_step t s s'" "\<not> p_missed s'" "\<And>u. u \<noteq> t \<Longrightarrow> at_rest s u"
  shows "path_owned s'"
  using assms(2)
proof (cases rule: open_step.cases)
  case open_live
  then have "accepting s' u = accepting s u" "unsettled s' u = unsettled s u" for u
    by (simp_all add: accepting_def unsettled_def)
  with assms(1) open_live show ?thesis by (simp add: path_owned_def)
next
  case open_probe
  with assms(3) have "\<not> answers s" by simp
  then have "\<not> accepting s' u" for u
    using nobody_answers [OF assms(1), of u] by (simp add: open_probe(1) accepting_def)
  then show ?thesis by (rule path_owned_quiet)
next
  case open_remove
  have "\<not> accepting s' u" for u
    using path_ownedD(2) [OF assms(1), of t u] open_remove by (simp add: accepting_def unsettled_def)
  then show ?thesis by (rule path_owned_quiet)
next
  case open_bind
  have "\<not> accepting s' u" if "u \<noteq> t" for u
    using path_ownedD(2) [OF assms(1), of t u] that open_bind by (simp add: accepting_def unsettled_def)
  moreover have "\<not> unsettled s' u" for u
    using at_rest_settled [OF assms(4), of u] open_bind by (cases "u = t") (simp_all add: unsettled_def)
  ultimately show ?thesis by (intro path_owned_by [of _ t]) (simp_all add: open_bind)
next
  case open_bind_fails
  have "\<not> accepting s' u" for u
    using path_ownedD(2) [OF assms(1), of t u] open_bind_fails by (simp add: accepting_def unsettled_def)
  then show ?thesis by (rule path_owned_quiet)
next
  case open_chmod
  then have "accepting s' u = accepting s u" "unsettled s' u = unsettled s u" for u
    by (simp_all add: accepting_def unsettled_def)
  with assms(1) open_chmod show ?thesis by (simp add: path_owned_def)
next
  case open_chmod_fails
  have "\<not> accepting s' u" for u
    using only_one_accepts [OF assms(1), of t u] open_chmod_fails by (simp add: accepting_def)
  then show ?thesis by (rule path_owned_quiet)
qed

lemma path_owned_shut:
  assumes "path_owned s" "shut_step t s s'"
  shows "path_owned s'"
  using assms(2)
proof (cases rule: shut_step.cases)
  case shut_listener
  have "\<not> accepting s' u" for u
    using only_one_accepts [OF assms(1), of t u] shut_listener by (simp add: accepting_def)
  then show ?thesis by (rule path_owned_quiet)
next
  case shut_remove
  have "\<not> accepting s' u" for u
    using path_ownedD(2) [OF assms(1), of t u] shut_remove by (simp add: accepting_def unsettled_def)
  then show ?thesis by (rule path_owned_quiet)
qed

text \<open>A probe that failed is not forgotten, and only the goroutine that moves can be listening.\<close>

lemma missed_stays: "open_step t s s' \<or> shut_step t s s' \<Longrightarrow> p_missed s \<Longrightarrow> p_missed s'"
  by (auto elim: open_step.cases shut_step.cases)

lemma listening_owns:
  assumes "open_step t s s' \<or> shut_step t s s'" "\<And>u. u \<noteq> t \<Longrightarrow> p_life s u \<noteq> Listening" "p_life s' u = Listening"
  shows "p_entry s' = SocketOf u"
  using assms by (cases "u = t") (auto elim!: open_step.cases shut_step.cases)

lemma path_inv_step:
  assumes "path_inv s" "serial_step s s'"
  shows "path_inv s'"
proof -
  from assms(2) obtain t where t: "open_step t s s' \<or> shut_step t s s'" "\<And>u. u \<noteq> t \<Longrightarrow> at_rest s u"
    by (auto simp: serial_step_def)
  have "path_owned s'" if "\<not> p_missed s'"
  proof -
    have "path_owned s" using assms(1) missed_stays [OF t(1)] that by (auto simp: path_inv_def)
    then show ?thesis using t path_owned_open [of s t s'] path_owned_shut [of s t s'] that by blast
  qed
  moreover have "p_life s u \<noteq> Listening" if "u \<noteq> t" for u using at_rest_settled [OF t(2) [OF that]] by simp
  then have "p_entry s' = SocketOf u" if "p_life s' u = Listening" for u
    using listening_owns [OF t(1)] that by blast
  ultimately show ?thesis by (simp add: path_inv_def)
qed

definition path_good :: "path_state \<Rightarrow> bool" where
  "path_good s \<longleftrightarrow> p_missed s \<or>
     (\<forall>t. p_life s t = Open \<longrightarrow> p_entry s = SocketOf t \<and> answers s \<and> (\<forall>u. p_life s u = Open \<longrightarrow> u = t))"

lemma path_inv_good:
  assumes "path_inv s"
  shows "path_good s"
proof -
  have "p_entry s = SocketOf t \<and> answers s \<and> (\<forall>u. p_life s u = Open \<longrightarrow> u = t)"
    if "path_owned s" "p_life s t = Open" for t
  proof -
    have a: "accepting s t" using that(2) by (simp add: accepting_def)
    have "u = t" if "p_life s u = Open" for u
      using only_one_accepts [OF \<open>path_owned s\<close> a, of u] that by (auto simp: accepting_def)
    with a path_ownedD(1) [OF that(1) a] show ?thesis by (simp add: answers_def)
  qed
  with assms show ?thesis by (auto simp: path_good_def path_inv_def)
qed

interpretation rebind: safe_system path_init serial_step path_inv path_good
proof
  show "path_inv s" if "path_init s" for s
    using that path_owned_quiet [of s] by (simp add: path_inv_def path_init_def accepting_def)
  show "path_inv s'" if "path_inv s" "serial_step s s'" for s s'
    using that by (rule path_inv_step)
  show "path_good s" if "path_inv s" for s
    using that by (rule path_inv_good)
qed

text \<open>The step with which a \<^verbatim>\<open>Listen\<close> returns.\<close>

lemma opened_reachable:
  assumes "path_inv s" "serial_step s s'" "p_life s t \<noteq> Open" "p_life s' t = Open"
  shows "p_entry s' = SocketOf t \<and> answers s'"
proof -
  have "p_life s t = Listening \<and> p_entry s' = p_entry s"
    using assms(2-4) by (auto simp: serial_step_def elim!: open_step.cases shut_step.cases split: if_splits)
  moreover from this assms(1) have "p_entry s = SocketOf t" by (simp add: path_inv_def)
  ultimately show ?thesis using assms(4) by (simp add: answers_def accepting_def)
qed

section \<open>Properties\<close>

text \<open>
  Property C21: as long as the \<^verbatim>\<open>Listen\<close> and \<^verbatim>\<open>Close\<close> calls of a process do not overlap, a
  \<^verbatim>\<open>Listen\<close> that returns leaves its own socket at the shared path, and an open inbox keeps it,
  can be reached there and is the only open inbox, unless some \<^verbatim>\<open>Probe\<close> has failed while an
  inbox accepted behind the path: whatever else fails along the way and whatever file was left
  there before.
\<close>

theorem open_inbox_reachable:
  assumes "reachable path_init serial_step s"
  shows "(p_life s t = Open \<and> \<not> p_missed s \<longrightarrow>
       p_entry s = SocketOf t \<and> answers s \<and> (\<forall>u. p_life s u = Open \<longrightarrow> u = t)) \<and>
    (serial_step s s' \<and> p_life s t \<noteq> Open \<and> p_life s' t = Open \<longrightarrow> p_entry s' = SocketOf t \<and> answers s')"
  using rebind.good_reachable [OF assms] opened_reachable [OF rebind.inv_reachable [OF assms]]
  by (auto simp: path_good_def)

section \<open>How an open inbox loses its file\<close>

definition ps :: "path_entry \<Rightarrow> life \<Rightarrow> life \<Rightarrow> bool \<Rightarrow> path_state" where
  "ps e a b m = \<lparr>p_entry = e, p_life = (\<lambda>_. Unused)(0 := a, 1 := b), p_missed = m\<rparr>"

lemma ps_first: "(p_life (ps e a b m))(0 := c) = p_life (ps e c b m)"
  by (simp add: ps_def fun_eq_iff)

lemma ps_second: "(p_life (ps e a b m))(1 := c) = p_life (ps e a c m)"
  by (simp add: ps_def fun_eq_iff)

lemma ps_state: "(ps e a b m)\<lparr>p_life := p_life (ps e c d m)\<rparr> = ps e c d m"
  "(ps e a b m)\<lparr>p_entry := f, p_life := p_life (ps e c d m)\<rparr> = ps f c d m"
  "(ps e a b m)\<lparr>p_missed := k\<rparr> = ps e a b k"
  by (simp_all add: ps_def)

lemma ps_lives: "p_life (ps e a b m) 0 = a" "p_life (ps e a b m) 1 = b" "p_entry (ps e a b m) = e" "p_missed (ps e a b m) = m"
  by (simp_all add: ps_def)

lemma ps_answers: "answers (ps NoFile a b m) \<longleftrightarrow> False" "answers (ps (SocketOf 0) Open b m) \<longleftrightarrow> True"
  by (simp_all add: answers_def accepting_def ps_lives)

lemmas ps_simps = ps_first ps_second ps_state ps_lives ps_answers

lemma ps_init: "reachable path_init step (ps NoFile Unused Unused False)"
  by (rule reachable_init) (simp add: path_init_def ps_def)

lemma ps_step:
  "open_step t s s' \<Longrightarrow> path_step s s'" "shut_step t s s' \<Longrightarrow> path_step s s'"
  by (auto simp: path_step_def)

text \<open>The first inbox is opened, one call at a time.\<close>

lemma ps_first_open:
  "run_steps serial_step (ps NoFile Unused Unused False)
     [ps NoFile Probing Unused False, ps NoFile Cleared Unused False, ps (SocketOf 0) Listening Unused False,
      ps (SocketOf 0) Open Unused False]"
proof -
  have rest: "\<forall>u. u \<noteq> 0 \<longrightarrow> at_rest (ps e a Unused m) u" for e a m by (simp add: at_rest_def ps_def)
  note steps = open_probe [of "ps NoFile Unused Unused False" 0] open_remove [of "ps NoFile Probing Unused False" 0 NoFile]
    open_bind [of "ps NoFile Cleared Unused False" 0] open_chmod [of "ps (SocketOf 0) Listening Unused False" 0]
  show ?thesis
    using steps [unfolded ps_simps] rest unfolding run_steps.simps serial_step_def
    by (intro conjI TrueI exI [of _ 0]) simp_all
qed

text \<open>
  A probe that fails on a live inbox: the next \<^verbatim>\<open>Listen\<close> removes that inbox's file, binds its
  own socket and returns; the first inbox stays open with nothing to reach it by.
\<close>

lemma missed_run:
  "run_steps serial_step (ps (SocketOf 0) Open Unused False)
     [ps (SocketOf 0) Open Probing True, ps NoFile Open Cleared True, ps (SocketOf 1) Open Listening True,
      ps (SocketOf 1) Open Open True]"
proof -
  have rest: "\<forall>u. u \<noteq> 1 \<longrightarrow> at_rest (ps e Open a m) u" for e a m by (simp add: at_rest_def ps_def)
  note steps = open_probe [of "ps (SocketOf 0) Open Unused False" 1]
    open_remove [of "ps (SocketOf 0) Open Probing True" 1 NoFile]
    open_bind [of "ps NoFile Open Cleared True" 1] open_chmod [of "ps (SocketOf 1) Open Listening True" 1]
  show ?thesis
    using steps [unfolded ps_simps] rest unfolding run_steps.simps serial_step_def
    by (intro conjI TrueI exI [of _ 1]) simp_all
qed

theorem failed_probe_takes_file:
  "\<exists>s. reachable path_init serial_step s \<and> p_life s 0 = Open \<and> p_life s 1 = Open \<and> p_entry s = SocketOf 1"
proof -
  have "reachable path_init serial_step (ps (SocketOf 0) Open Unused False)"
    using run_steps_reachable [OF ps_init ps_first_open] by simp
  from run_steps_reachable [OF this missed_run] show ?thesis
    by (intro exI [of _ "ps (SocketOf 1) Open Open True"]) (simp add: ps_lives del: One_nat_def)
qed

text \<open>
  Overlapping calls: between the two removals of a \<^verbatim>\<open>Close\<close> another \<^verbatim>\<open>Listen\<close> may bind the
  path; the second removal then takes the new inbox's file, and that inbox stays open with
  nothing to reach it by.  No probe fails on a live inbox here.
\<close>

lemma overlap_run:
  "run_steps path_step (ps (SocketOf 0) Open Unused False)
     [ps NoFile Unlisted Unused False, ps NoFile Unlisted Probing False,
      ps NoFile Unlisted Cleared False, ps (SocketOf 1) Unlisted Listening False, ps (SocketOf 1) Unlisted Open False,
      ps NoFile Finished Open False]"
proof -
  note steps = shut_listener [of "ps (SocketOf 0) Open Unused False" 0 NoFile]
    open_probe [of "ps NoFile Unlisted Unused False" 1] open_remove [of "ps NoFile Unlisted Probing False" 1 NoFile]
    open_bind [of "ps NoFile Unlisted Cleared False" 1] open_chmod [of "ps (SocketOf 1) Unlisted Listening False" 1]
    shut_remove [of "ps (SocketOf 1) Unlisted Open False" 0 NoFile]
  from steps [unfolded ps_simps] show ?thesis
    unfolding run_steps.simps by (intro conjI TrueI) (auto intro: ps_step)
qed

lemma serial_is_path_step: "serial_step s s' \<Longrightarrow> path_step s s'"
  by (auto simp: serial_step_def path_step_def)

theorem close_takes_successor:
  "\<exists>s. reachable path_init path_step s \<and> p_life s 1 = Open \<and> p_entry s = NoFile \<and> \<not> p_missed s"
proof -
  have "run_steps path_step s ss" if "run_steps serial_step s ss" for s ss
    using that by (induction ss arbitrary: s) (auto intro: serial_is_path_step)
  then have "reachable path_init path_step (ps (SocketOf 0) Open Unused False)"
    using run_steps_reachable [OF ps_init] ps_first_open by fastforce
  from run_steps_reachable [OF this overlap_run] show ?thesis
    by (intro exI [of _ "ps NoFile Finished Open False"]) (simp add: ps_lives del: One_nat_def)
qed

end
