(* ===== verification/Flags.thy ===== *)
theory Flags
  imports Float64 World
begin

text \<open>
  The parts of Go's standard library that turn \<^verbatim>\<open>cc-send\<close>'s arguments into values: the
  \<^verbatim>\<open>flag\<close> package's parsing, \<^verbatim>\<open>strconv.ParseBool\<close>, \<^verbatim>\<open>strconv.ParseInt\<close> with
  base 0, and \<^verbatim>\<open>time.ParseDuration\<close>.  The lemmas show where flag parsing stops.
\<close>

section \<open>Integers\<close>

definition lower :: "char \<Rightarrow> nat" where
  "lower c = (if CHR ''A'' \<le> c \<and> c \<le> CHR ''Z'' then code_of c + 32 else code_of c)"

text \<open>The base a literal announces, and its digits.\<close>

definition base_prefix :: "gostring \<Rightarrow> nat \<times> gostring" where
  "base_prefix s =
     (case s of
        z # b # t \<Rightarrow>
          if z \<noteq> CHR ''0'' then (10, s)
          else if t \<noteq> [] \<and> lower b = code_of (CHR ''b'') then (2, t)
          else if t \<noteq> [] \<and> lower b = code_of (CHR ''o'') then (8, t)
          else if t \<noteq> [] \<and> lower b = code_of (CHR ''x'') then (16, t)
          else (8, b # t)
      | [z] \<Rightarrow> if z = CHR ''0'' then (8, []) else (10, s)
      | [] \<Rightarrow> (10, []))"

definition digit_of :: "char \<Rightarrow> nat option" where
  "digit_of c =
     (if is_digit c then Some (digit_val c)
      else if 97 \<le> lower c \<and> lower c \<le> 122 then Some (lower c - 87) else None)"

text \<open>The value of digits with underscores between them; \<open>None\<close> is a foreign byte.\<close>

fun digits_val :: "nat \<Rightarrow> nat \<Rightarrow> gostring \<Rightarrow> nat option" where
  "digits_val base acc [] = Some acc"
| "digits_val base acc (c # s) =
     (if c = CHR ''_'' then digits_val base acc s
      else (case digit_of c of
              None \<Rightarrow> None
            | Some d \<Rightarrow> if d \<ge> base then None else digits_val base (acc * base + d) s))"

text \<open>
  \<^verbatim>\<open>underscoreOK\<close> on a number whose bytes are digits and underscores: each underscore
  follows a digit (or the base prefix) and precedes one.
\<close>

fun underscores_ok :: "bool \<Rightarrow> gostring \<Rightarrow> bool" where
  "underscores_ok after_digit [] \<longleftrightarrow> True"
| "underscores_ok after_digit (c # s) \<longleftrightarrow>
     (if c = CHR ''_'' then after_digit \<and> s \<noteq> [] \<and> hd s \<noteq> CHR ''_'' \<and> underscores_ok False s
      else underscores_ok True s)"

definition ParseUint0 :: "gostring \<Rightarrow> nat option" where
  "ParseUint0 s =
     (if s = [] then None
      else (case base_prefix s of (base, ds) \<Rightarrow>
        (case digits_val base 0 ds of
           None \<Rightarrow> None
         | Some n \<Rightarrow>
             if List.member s (CHR ''_'') \<and> \<not> underscores_ok (length ds < length s) ds then None
             else Some n)))"

definition ParseInt0 :: "gostring \<Rightarrow> int option" where
  "ParseInt0 s =
     (let neg = HasPrefix s ''-'';
          body = (if neg \<or> HasPrefix s ''+'' then tl s else s)
      in case ParseUint0 body of
           None \<Rightarrow> None
         | Some n \<Rightarrow>
             if \<not> neg \<and> int n > max_int then None
             else if neg \<and> int n > max_int + 1 then None
             else Some (if neg then - int n else int n))"

section \<open>Durations\<close>

text \<open>\<^verbatim>\<open>unitMap\<close>, in nanoseconds; micro has two spellings in UTF-8.\<close>

definition unit_ns :: "gostring \<Rightarrow> nat option" where
  "unit_ns u = map_of
     [(''ns'', 1), (''us'', 1000),
      ([CHR 0xC2, CHR 0xB5, CHR ''s''], 1000), ([CHR 0xCE, CHR 0xBC, CHR ''s''], 1000),
      (''ms'', 1000000), (''s'', 1000000000), (''m'', 60000000000), (''h'', 3600000000000)] u"

text \<open>
  \<^verbatim>\<open>leadingFraction\<close>: digits past the point as a number and its power of ten; digits that
  would overflow are skipped.
\<close>

fun fraction_digits :: "nat \<Rightarrow> nat \<Rightarrow> bool \<Rightarrow> gostring \<Rightarrow> nat \<times> nat" where
  "fraction_digits x k over [] = (x, k)"
| "fraction_digits x k over (c # s) =
     (if over then fraction_digits x k True s
      else if x > (2 ^ 63 - 1) div 10 then fraction_digits x k True s
      else if x * 10 + digit_val c > 2 ^ 63 then fraction_digits x k True s
      else fraction_digits (x * 10 + digit_val c) (Suc k) False s)"

text \<open>
  \<^verbatim>\<open>uint64(float64(f) * (float64(unit) / scale))\<close>, with each operation rounded.  A scale
  of at most nineteen decimal digits is exact in a double.
\<close>

definition round_q :: "nat \<times> nat \<Rightarrow> nat \<times> nat" where
  "round_q q =
     (case round64 (fst q) (snd q) of
        None \<Rightarrow> q
      | Some (m, e) \<Rightarrow> if 0 \<le> e then (m * 2 ^ nat e, 1) else (m, 2 ^ nat (- e)))"

definition fraction_ns :: "nat \<Rightarrow> nat \<Rightarrow> nat \<Rightarrow> nat" where
  "fraction_ns f k unit_val =
     (let a = round_q (f, 1); b = round_q (unit_val, 10 ^ k);
          p = round_q (fst a * fst b, snd a * snd b)
      in fst p div snd p)"

text \<open>
  The components of a duration: number, optional fraction, unit.  Sums are kept modulo
  \<open>2 ^ 64\<close>, as the \<^verbatim>\<open>uint64\<close> accumulator keeps them.
\<close>

definition duration_part :: "gostring \<Rightarrow> (nat \<times> gostring) option" where
  "duration_part s =
     (let ip = takeWhile is_digit s;
          r1 = drop (length ip) s;
          dot = HasPrefix r1 ''.'';
          fp = (if dot then takeWhile is_digit (tl r1) else []);
          r2 = (if dot then drop (length fp) (tl r1) else r1);
          u = takeWhile (\<lambda>c. c \<noteq> CHR ''.'' \<and> \<not> is_digit c) r2
      in if dec_val ip > 2 ^ 63 \<or> (ip = [] \<and> fp = []) \<or> u = [] then None
         else (case unit_ns u of
                 None \<Rightarrow> None
               | Some n \<Rightarrow>
                   if dec_val ip > 2 ^ 63 div n then None
                   else
                     (case fraction_digits 0 0 False fp of (f, k) \<Rightarrow>
                       let v = dec_val ip * n + (if f > 0 then fraction_ns f k n else 0)
                       in if v > 2 ^ 63 then None else Some (v, drop (length u) r2))))"

lemma duration_part_length:
  assumes "duration_part s = Some (v, t)"
  shows "length t < length s"
proof -
  define ip where "ip = takeWhile is_digit s"
  define r1 where "r1 = drop (length ip) s"
  define fp where "fp = (if HasPrefix r1 ''.'' then takeWhile is_digit (tl r1) else [])"
  define r2 where "r2 = (if HasPrefix r1 ''.'' then drop (length fp) (tl r1) else r1)"
  define u where "u = takeWhile (\<lambda>c. c \<noteq> CHR ''.'' \<and> \<not> is_digit c) r2"
  from assms have "u \<noteq> [] \<and> t = drop (length u) r2"
    unfolding duration_part_def Let_def ip_def [symmetric] r1_def [symmetric]
      fp_def [symmetric] r2_def [symmetric] u_def [symmetric]
    by (auto split: if_splits option.splits prod.splits)
  moreover from this have "r2 \<noteq> []" by (auto simp: u_def)
  moreover have "length r2 \<le> length s" by (simp add: r2_def r1_def)
  ultimately have "length t < length r2" by simp
  with \<open>length r2 \<le> length s\<close> show ?thesis by simp
qed

function duration_sum :: "nat \<Rightarrow> gostring \<Rightarrow> nat option" where
  "duration_sum d s =
     (if s = [] then Some d
      else (case duration_part s of
              None \<Rightarrow> None
            | Some (v, t) \<Rightarrow>
                if (d + v) mod 2 ^ 64 > 2 ^ 63 then None else duration_sum ((d + v) mod 2 ^ 64) t))"
  by pat_completeness auto
termination
  by (relation "measure (\<lambda>(d, s). length s)") (auto dest: duration_part_length)

declare duration_sum.simps [simp del]

definition ParseDuration :: "gostring \<Rightarrow> duration option" where
  "ParseDuration s0 =
     (let neg = HasPrefix s0 ''-'';
          s = (if neg \<or> HasPrefix s0 ''+'' then tl s0 else s0)
      in if s = ''0'' then Some 0
         else if s = [] then None
         else (case duration_sum 0 s of
                 None \<Rightarrow> None
               | Some d \<Rightarrow>
                   if neg then Some (- int d) else if int d > max_int then None else Some (int d)))"

section \<open>The \<^verbatim>\<open>flag\<close> package\<close>

text \<open>
  How a flag reads its value.  \<open>FBool\<close> needs none; a bare boolean flag means true.
\<close>

datatype flag_kind = FString | FInt | FBool | FDuration

datatype flag_error =
    BadSyntax gostring
  | HelpRequested
  | NotDefined gostring
  | NeedsArgument gostring
  | InvalidValue gostring gostring

type_synonym flag_defs = "(gostring \<times> flag_kind) list"

text \<open>The values set so far, most recent first; the last setting of a flag counts.\<close>

type_synonym settings = "(gostring \<times> gostring) list"

text \<open>\<^verbatim>\<open>strconv.ParseBool\<close>.\<close>

definition ParseBool :: "gostring \<Rightarrow> bool option" where
  "ParseBool s =
     (if List.member [''1'', ''t'', ''T'', ''true'', ''TRUE'', ''True''] s then Some True
      else if List.member [''0'', ''f'', ''F'', ''false'', ''FALSE'', ''False''] s then Some False
      else None)"

text \<open>
  A name and, after the first equals sign that is not the first byte, a value.
\<close>

definition split_flag :: "gostring \<Rightarrow> gostring \<times> gostring option" where
  "split_flag s =
     (case s of
        [] \<Rightarrow> ([], None)
      | c # t \<Rightarrow>
          (let n = takeWhile (\<lambda>d. d \<noteq> CHR ''='') t in
           if length n < length t then (c # n, Some (drop (Suc (length n)) t)) else (s, None)))"

text \<open>
  One argument of \<^verbatim>\<open>FlagSet.parseOne\<close>: the flag's text after one or two dashes, or
  \<open>None\<close> when parsing stops before the argument; \<open>Some []\<close> is the terminator
  \<^verbatim>\<open>--\<close>, which is consumed.
\<close>

definition flag_text :: "gostring \<Rightarrow> gostring option" where
  "flag_text s =
     (case s of
        c # d # t \<Rightarrow>
          if c \<noteq> CHR ''-'' then None
          else if d = CHR ''-'' then Some t
          else Some (d # t)
      | _ \<Rightarrow> None)"

definition is_terminator :: "gostring \<Rightarrow> bool" where
  "is_terminator s \<longleftrightarrow> s = ''--''"

definition bad_flag :: "gostring \<Rightarrow> bool" where
  "bad_flag name \<longleftrightarrow> name = [] \<or> HasPrefix name ''-'' \<or> HasPrefix name ''=''"

text \<open>What a flag's \<^verbatim>\<open>Set\<close> accepts.\<close>

definition flag_valid :: "flag_kind \<Rightarrow> gostring \<Rightarrow> bool" where
  "flag_valid k v =
     (case k of
        FString \<Rightarrow> True
      | FInt \<Rightarrow> ParseInt0 v \<noteq> None
      | FBool \<Rightarrow> ParseBool v \<noteq> None
      | FDuration \<Rightarrow> ParseDuration v \<noteq> None)"

text \<open>
  \<^verbatim>\<open>FlagSet.Parse\<close>.  Parsing stops at the
  first argument that is not a flag, and the rest is the text.
\<close>

fun parse_flags :: "flag_defs \<Rightarrow> settings \<Rightarrow> gostring list \<Rightarrow> flag_error + (settings \<times> gostring list)" where
  "parse_flags fs acc [] = Inr (acc, [])"
| "parse_flags fs acc (s # args) =
     (case flag_text s of
        None \<Rightarrow> Inr (acc, s # args)
      | Some name0 \<Rightarrow>
          if is_terminator s then Inr (acc, args)
          else if bad_flag name0 then Inl (BadSyntax s)
          else
            (case split_flag name0 of (name, given) \<Rightarrow>
              (case map_of fs name of
                 None \<Rightarrow> Inl (if name = ''help'' \<or> name = ''h'' then HelpRequested else NotDefined name)
               | Some FBool \<Rightarrow>
                   (case given of
                      Some v \<Rightarrow>
                        if flag_valid FBool v then parse_flags fs ((name, v) # acc) args
                        else Inl (InvalidValue name v)
                    | None \<Rightarrow> parse_flags fs ((name, ''true'') # acc) args)
               | Some k \<Rightarrow>
                   (case given of
                      Some v \<Rightarrow>
                        if flag_valid k v then parse_flags fs ((name, v) # acc) args
                        else Inl (InvalidValue name v)
                    | None \<Rightarrow>
                        (case args of
                           [] \<Rightarrow> Inl (NeedsArgument name)
                         | v # args' \<Rightarrow>
                             if flag_valid k v then parse_flags fs ((name, v) # acc) args'
                             else Inl (InvalidValue name v))))))"

section \<open>Where parsing stops\<close>

lemma parse_flags_positional:
  "flag_text s = None \<Longrightarrow> parse_flags fs acc (s # args) = Inr (acc, s # args)"
  by simp

text \<open>The step of a well formed flag, its value given, implied or in the next argument.\<close>

lemma parse_flags_flag:
  assumes "flag_text a = Some name0" "\<not> is_terminator a" "\<not> bad_flag name0"
    "split_flag name0 = (name, given)" "map_of fs name = Some k"
  shows "parse_flags fs acc (a # args) =
    (if k = FBool \<or> given \<noteq> None
     then (let v = (case given of Some v \<Rightarrow> v | None \<Rightarrow> ''true'') in
           if flag_valid k v then parse_flags fs ((name, v) # acc) args else Inl (InvalidValue name v))
     else (case args of
             [] \<Rightarrow> Inl (NeedsArgument name)
           | v # args' \<Rightarrow>
               if flag_valid k v then parse_flags fs ((name, v) # acc) args'
               else Inl (InvalidValue name v)))"
proof -
  have t: "flag_valid FBool ''true''" by (simp add: flag_valid_def ParseBool_def)
  show ?thesis
    by (cases k; cases given) (simp_all add: assms t cong: list.case_cong)
qed

text \<open>
  Flags that parse on their own parse the same in front of an argument that is not a flag,
  and everything from that argument on is left over, dashes or not.
\<close>

lemma parse_flags_stops:
  assumes "parse_flags fs acc pre = Inr (acc', [])" "flag_text s = None"
  shows "parse_flags fs acc (pre @ s # args) = Inr (acc', s # args)"
  using assms(1)
proof (induction "length pre" arbitrary: acc pre rule: less_induct)
  case (less pre)
  show ?case
  proof (cases pre)
    case Nil
    with less.prems assms(2) show ?thesis by simp
  next
    case (Cons a args')
    with less.prems obtain name0 where n: "flag_text a = Some name0" by (cases "flag_text a") auto
    show ?thesis
    proof (cases "is_terminator a")
      case True
      with less.prems Cons n show ?thesis by simp
    next
      case False
      obtain name given where sp: "split_flag name0 = (name, given)" by fastforce
      from less.prems Cons n False have b: "\<not> bad_flag name0" by (auto split: if_splits)
      with less.prems Cons n False sp obtain k where k: "map_of fs name = Some k"
        by (auto split: option.splits)
      note step = parse_flags_flag [OF n False b sp k]
      have IH: "parse_flags fs c xs = Inr (acc', []) \<Longrightarrow>
          parse_flags fs c (xs @ s # args) = Inr (acc', s # args)"
        if "length xs < length pre" for c xs
        using less.hyps that by blast
      show ?thesis
      proof (cases "k = FBool \<or> given \<noteq> None")
        case True
        with less.prems Cons show ?thesis
          using IH [of args']
          by (simp add: step Let_def del: parse_flags.simps split: if_splits)
      next
        case False
        with less.prems Cons obtain v args'' where r: "args' = v # args''"
          by (cases args') (simp_all add: step del: parse_flags.simps)
        with False less.prems Cons show ?thesis
          using IH [of args'']
          by (simp add: step del: parse_flags.simps split: if_splits)
      qed
    qed
  qed
qed

end
