(* ===== verification/CcSend.thy ===== *)
theory CcSend
  imports Inbox Flags
begin

text \<open>
  \<^verbatim>\<open>cmd/cc-send/main.go\<close>: the command-line tool.  Each command is modelled from its
  arguments to what it prints, does on the network and returns, and to the exit code of the
  process.  The lemmas show which words of a command line are message text, that the tool's
  own messages always carry a well-formed return address, which exit code a wait for
  receipts gives, and that a temporary inbox is closed on every path.
\<close>

section \<open>Errors and exit codes\<close>

text \<open>
  \<open>ReceiptFailed\<close> and \<open>ReceiptTimeout\<close> are the two \<^verbatim>\<open>exitError\<close> values, with codes 2
  and 3; every other error exits with 1.
\<close>

datatype cli_error =
    NoCommand
  | UnknownCommand gostring
  | FlagFailed flag_error
  | NoText
  | NoNewName
  | NoTarget
  | NoRenameTarget
  | FromFailed goerror
  | LibFailed goerror
  | ReceiptFailed ReceiptStatus
  | ReceiptTimeout

definition exit_code :: "cli_error option \<Rightarrow> int" where
  "exit_code r =
     (case r of
        None \<Rightarrow> 0
      | Some (ReceiptFailed s) \<Rightarrow> 2
      | Some ReceiptTimeout \<Rightarrow> 3
      | Some e \<Rightarrow> 1)"

section \<open>Flag values\<close>

definition setting :: "settings \<Rightarrow> gostring \<Rightarrow> gostring \<Rightarrow> gostring" where
  "setting acc name default_val = (case map_of acc name of Some v \<Rightarrow> v | None \<Rightarrow> default_val)"

definition int_setting :: "settings \<Rightarrow> gostring \<Rightarrow> int" where
  "int_setting acc name = (case ParseInt0 (setting acc name ''0'') of Some i \<Rightarrow> i | None \<Rightarrow> 0)"

definition bool_setting :: "settings \<Rightarrow> gostring \<Rightarrow> bool" where
  "bool_setting acc name = (ParseBool (setting acc name ''false'') = Some True)"

definition duration_setting :: "settings \<Rightarrow> gostring \<Rightarrow> duration \<Rightarrow> duration" where
  "duration_setting acc name default_val =
     (case map_of acc name of
        None \<Rightarrow> default_val
      | Some v \<Rightarrow> (case ParseDuration v of Some d \<Rightarrow> d | None \<Rightarrow> default_val))"

section \<open>\<^verbatim>\<open>cc-send list\<close>\<close>

definition list_flags :: flag_defs where
  "list_flags = [(''json'', FBool), (''all'', FBool)]"

record row =
  row_PID :: int
  row_SessionID :: gostring
  row_Name :: gostring
  row_Kind :: gostring
  row_Status :: gostring
  row_CWD :: gostring
  row_Socket :: gostring
  row_Address :: gostring
  row_Live :: bool

definition row_of :: "session \<Rightarrow> bool \<Rightarrow> row" where
  "row_of s live =
     \<lparr>row_PID = s_PID s, row_SessionID = s_SessionID s, row_Name = s_Name s, row_Kind = s_Kind s,
      row_Status = s_Status s, row_CWD = s_CWD s, row_Socket = s_SocketPath s,
      row_Address = session_address s, row_Live = live\<rparr>"

text \<open>
  Every session is probed by a goroutine of its own, which writes its own index of
  \<^verbatim>\<open>live\<close>; all are waited for.  \<open>order\<close> is the order in which they finish.
\<close>

definition run_probes :: "world \<Rightarrow> session list \<Rightarrow> nat list \<Rightarrow> bool list" where
  "run_probes w sessions order =
     foldl (\<lambda>live i. live[i := Reachable w (sessions ! i) (300 * Millisecond)])
       (replicate (length sessions) False) order"

definition list_rows :: "bool \<Rightarrow> session list \<Rightarrow> bool list \<Rightarrow> row list" where
  "list_rows all sessions live =
     List.map_filter (\<lambda>(s, l). if \<not> l \<and> \<not> all then None else Some (row_of s l)) (zip sessions live)"

definition yesNo :: "bool \<Rightarrow> gostring" where
  "yesNo b = (if b then ''yes'' else ''no'')"

definition dash :: "gostring \<Rightarrow> gostring" where
  "dash s = (if s = [] then ''-'' else s)"

definition row_cells :: "row \<Rightarrow> gostring list" where
  "row_cells r =
     [Itoa (row_PID r), yesNo (row_Live r), dash (row_Name r), dash (row_Kind r), dash (row_Status r),
      dash (row_SessionID r), dash (row_CWD r)]"

text \<open>The struct tags of a row, and the rows as \<^verbatim>\<open>Encoder.Encode\<close> writes them.\<close>

definition row_json :: "row \<Rightarrow> json" where
  "row_json r = JObj
     [(''pid'', JNum (Itoa (row_PID r))), (''sessionId'', JStr (row_SessionID r)), (''name'', JStr (row_Name r)),
      (''kind'', JStr (row_Kind r)), (''status'', JStr (row_Status r)), (''cwd'', JStr (row_CWD r)),
      (''socket'', JStr (row_Socket r)), (''address'', JStr (row_Address r)), (''live'', JBool (row_Live r))]"

definition rows_text :: "row list \<Rightarrow> gostring" where
  "rows_text rows =
     print_layout (\<lambda>i. CHR 0x0A # concat (replicate i ''  '')) '' '' 0 (JArr (map row_json rows)) @ [CHR 0x0A]"

text \<open>What \<^verbatim>\<open>list\<close> shows: the JSON text, or the header and the cells of a table.\<close>

datatype listing = JSONText gostring | TableRows "gostring list list"

definition listCmd :: "world \<Rightarrow> nat list \<Rightarrow> gostring list \<Rightarrow> cli_error + listing" where
  "listCmd w order args =
     (case parse_flags list_flags [] args of
        Inl e \<Rightarrow> Inl (FlagFailed e)
      | Inr (acc, rest) \<Rightarrow>
          (case ListSessions w of
             Inl e \<Rightarrow> Inl (LibFailed e)
           | Inr sessions \<Rightarrow>
               (let rows = list_rows (bool_setting acc ''all'') sessions (run_probes w sessions order) in
                Inr (if bool_setting acc ''json'' then JSONText (rows_text rows)
                     else TableRows
                       ([''PID'', ''LIVE'', ''NAME'', ''KIND'', ''STATUS'', ''SESSION ID'', ''CWD'']
                        # map row_cells rows)))))"

section \<open>Waiting for receipts\<close>

text \<open>
  The receipts channel holds 16; a receipt that finds it full is dropped.  A schedule says
  in which order receipts arrive, the waiting loop gets to run, and the deadline fires; the
  deadline fires in the end in any case.
\<close>

datatype wait_event = Arrive receipt | Poll | Expire

definition push_receipt :: "receipt list \<Rightarrow> receipt \<Rightarrow> receipt list" where
  "push_receipt queue r = (if length queue < 16 then queue @ [r] else queue)"

fun wait_loop :: "receipt list \<Rightarrow> wait_event list \<Rightarrow> cli_error option" where
  "wait_loop queue [] = Some ReceiptTimeout"
| "wait_loop queue (Expire # es) = Some ReceiptTimeout"
| "wait_loop queue (Arrive r # es) = wait_loop (push_receipt queue r) es"
| "wait_loop queue (Poll # es) =
     (case queue of
        [] \<Rightarrow> wait_loop queue es
      | r # queue' \<Rightarrow>
          if r_Status r = StatusHeld then wait_loop queue' es
          else if r_Status r = StatusDenied \<or> r_Status r = StatusExpired then Some (ReceiptFailed (r_Status r))
          else None)"

text \<open>
  What is printed meanwhile on standard error: each receipt the loop takes from the
  channel, and a line for each that the callback had to drop.
\<close>

definition receipt_line :: "receipt \<Rightarrow> gostring" where
  "receipt_line r =
     ''receipt: '' @ r_Status r @ '' (msg '' @ r_OrigMsgID r @ '') '' @ r_Reason r"

fun wait_stderr :: "receipt list \<Rightarrow> wait_event list \<Rightarrow> gostring list" where
  "wait_stderr queue [] = []"
| "wait_stderr queue (Expire # es) = []"
| "wait_stderr queue (Arrive r # es) =
     (if length queue < 16 then [] else [''receipt dropped: receiver is behind''])
     @ wait_stderr (push_receipt queue r) es"
| "wait_stderr queue (Poll # es) =
     (case queue of
        [] \<Rightarrow> wait_stderr queue es
      | r # queue' \<Rightarrow> receipt_line r # (if r_Status r = StatusHeld then wait_stderr queue' es else []))"

section \<open>\<^verbatim>\<open>cc-send send\<close>\<close>

definition send_flags :: flag_defs where
  "send_flags =
     [(''session'', FString), (''pid'', FInt), (''name'', FString), (''to'', FString),
      (''priority'', FString), (''name-as'', FString), (''from'', FString),
      (''wait-receipt'', FDuration), (''no-auth'', FBool), (''timeout'', FDuration)]"

definition message_text :: "gostring list \<Rightarrow> gostring" where
  "message_text rest = TrimSpace (join_with '' '' rest)"

text \<open>
  The message, from the flags and the text; a temporary inbox's path replaces the return
  address, and without either the surrounding session's address is used.
\<close>

definition compose_message :: "settings \<Rightarrow> gostring \<Rightarrow> cli_error + message" where
  "compose_message acc text' =
     (let msg = \<lparr>m_Text = text', m_Priority = setting acc ''priority'' ''next'', m_SessionID = [], m_From = [],
                 m_FromName = setting acc ''name-as'' [], m_MsgID = [], m_UUID = []\<rparr>;
          from' = setting acc ''from'' []
      in if from' = [] then Inr msg
         else (case ParseAddress from' of
                 Inl e \<Rightarrow> Inl (FromFailed e)
               | Inr p \<Rightarrow> Inr (msg\<lparr>m_From := Address p\<rparr>)))"

definition outgoing_message :: "world \<Rightarrow> gostring option \<Rightarrow> message \<Rightarrow> message" where
  "outgoing_message w inbox m =
     (let m1 = (case inbox of Some path \<Rightarrow> m\<lparr>m_From := inbox_Address path\<rparr> | None \<Rightarrow> m)
      in if m_From m1 = [] then m1\<lparr>m_From := SelfAddress w\<rparr> else m1)"

definition cli_client :: "settings \<Rightarrow> client" where
  "cli_client acc =
     \<lparr>c_Timeout = duration_setting acc ''timeout'' (5 * Second), c_ProbeTimeout = 0, c_Token = [],
      c_NoAuth = bool_setting acc ''no-auth''\<rparr>"

definition send_to_target :: "world \<Rightarrow> net \<Rightarrow> oserror + byte list \<Rightarrow> settings \<Rightarrow> message \<Rightarrow> cli_error + gostring io" where
  "send_to_target w n rnd acc m =
     (let c = cli_client acc in
      if setting acc ''session'' [] \<noteq> [] then Inr (SendToSessionID w n rnd c (setting acc ''session'' []) m)
      else if int_setting acc ''pid'' \<noteq> 0 then Inr (SendToPID w n rnd c (int_setting acc ''pid'') m)
      else if setting acc ''name'' [] \<noteq> [] then Inr (SendToName w n rnd c (setting acc ''name'' []) m)
      else if setting acc ''to'' [] \<noteq> [] then Inr (SendToAddress w n rnd c (setting acc ''to'' []) m)
      else Inl NoTarget)"

text \<open>What a run of \<^verbatim>\<open>send\<close> did.\<close>

record send_run =
  o_stdout :: "gostring list"
  o_stderr :: "gostring list"
  o_net :: "net_event list"
  o_process :: pstate
  o_closed :: "gostring list"
  o_error :: "cli_error option"

definition send_failed :: "pstate \<Rightarrow> cli_error \<Rightarrow> send_run" where
  "send_failed st e = \<lparr>o_stdout = [], o_stderr = [], o_net = [], o_process = st, o_closed = [], o_error = Some e\<rparr>"

definition wait_setting :: "settings \<Rightarrow> duration" where
  "wait_setting acc = duration_setting acc ''wait-receipt'' 0"

definition send_and_wait ::
  "world \<Rightarrow> net \<Rightarrow> oserror + byte list \<Rightarrow> wait_event list \<Rightarrow> settings \<Rightarrow> pstate \<Rightarrow> message \<Rightarrow> send_run" where
  "send_and_wait w n rnd sched acc st m =
     (case send_to_target w n rnd acc m of
        Inl e \<Rightarrow> send_failed st e
      | Inr (evs, Inl e) \<Rightarrow> (send_failed st (LibFailed e))\<lparr>o_net := evs\<rparr>
      | Inr (evs, Inr i) \<Rightarrow>
          \<lparr>o_stdout = [i], o_stderr = (if wait_setting acc > 0 then wait_stderr [] sched else []),
           o_net = evs, o_process = st, o_closed = [],
           o_error = (if wait_setting acc > 0 then wait_loop [] sched else None)\<rparr>)"

definition listening_line :: "gostring \<Rightarrow> gostring" where
  "listening_line path = ''listening for receipts on '' @ inbox_Address path"

text \<open>A run with a temporary inbox: the address is announced first, and it is closed last.\<close>

definition with_inbox :: "gostring \<Rightarrow> send_run \<Rightarrow> send_run" where
  "with_inbox path r = r\<lparr>o_stderr := listening_line path # o_stderr r, o_closed := [path]\<rparr>"

definition sendCmd ::
  "world \<Rightarrow> sys \<Rightarrow> pstate \<Rightarrow> net \<Rightarrow> oserror + byte list \<Rightarrow> wait_event list \<Rightarrow> gostring list \<Rightarrow> send_run" where
  "sendCmd w y st n rnd sched args =
     (case parse_flags send_flags [] args of
        Inl e \<Rightarrow> send_failed st (FlagFailed e)
      | Inr (acc, rest) \<Rightarrow>
          if message_text rest = [] then send_failed st NoText
          else
            (case compose_message acc (message_text rest) of
               Inl e \<Rightarrow> send_failed st e
             | Inr m \<Rightarrow>
                 if wait_setting acc > 0 then
                   (case Listen w y st of
                      (st', Inl e) \<Rightarrow> send_failed st' (LibFailed e)
                    | (st', Inr path) \<Rightarrow>
                        with_inbox path (send_and_wait w n rnd sched acc st' (outgoing_message w (Some path) m)))
                 else send_and_wait w n rnd sched acc st (outgoing_message w None m)))"

section \<open>\<^verbatim>\<open>cc-send rename\<close> and \<^verbatim>\<open>cc-send self\<close>\<close>

definition rename_flags :: flag_defs where
  "rename_flags = [(''pid'', FInt), (''to'', FString)]"

definition lib_io :: "'a io \<Rightarrow> net_event list \<times> cli_error option" where
  "lib_io r = (fst r, case snd r of Inl e \<Rightarrow> Some (LibFailed e) | Inr x \<Rightarrow> None)"

definition renameCmd :: "world \<Rightarrow> net \<Rightarrow> oserror + byte list \<Rightarrow> gostring list \<Rightarrow> net_event list \<times> cli_error option" where
  "renameCmd w n rnd args =
     (case parse_flags rename_flags [] args of
        Inl e \<Rightarrow> ([], Some (FlagFailed e))
      | Inr (acc, rest) \<Rightarrow>
          (let newName = message_text rest in
           if newName = [] then ([], Some NoNewName)
           else if int_setting acc ''pid'' \<noteq> 0 then
             lib_io (io_of (FindByPID w (int_setting acc ''pid'')) (\<lambda>s. RenameSession w n rnd New s newName))
           else if setting acc ''to'' [] \<noteq> [] then
             lib_io (io_of (ParseAddress (setting acc ''to'' [])) (\<lambda>p. Rename w n rnd New p newName))
           else ([], Some NoRenameTarget)))"

definition tokenState :: "world \<Rightarrow> gostring" where
  "tokenState w = (if SelfToken w = [] then ''unset'' else ''set'')"

definition selfCmd :: "world \<Rightarrow> gostring list" where
  "selfCmd w =
     (if SelfSocketPath w = [] then [''not running inside a Claude Code session with messaging'']
      else [''socket:  '' @ SelfSocketPath w, ''address: '' @ SelfAddress w, ''token:   '' @ tokenState w])"

section \<open>Dispatch\<close>

datatype outcome =
    Listed "cli_error + listing"
  | Sent send_run
  | Renamed "net_event list \<times> cli_error option"
  | Printed "gostring list"
  | Usage "cli_error option"

definition run :: "world \<Rightarrow> nat list \<Rightarrow> sys \<Rightarrow> pstate \<Rightarrow> net \<Rightarrow> oserror + byte list \<Rightarrow> wait_event list \<Rightarrow> gostring list \<Rightarrow> outcome" where
  "run w order y st n rnd sched args =
     (case args of
        [] \<Rightarrow> Usage (Some NoCommand)
      | cmd # rest \<Rightarrow>
          if cmd = ''list'' then Listed (listCmd w order rest)
          else if cmd = ''send'' then Sent (sendCmd w y st n rnd sched rest)
          else if cmd = ''rename'' then Renamed (renameCmd w n rnd rest)
          else if cmd = ''self'' then Printed (selfCmd w)
          else if cmd = ''-h'' \<or> cmd = ''--help'' \<or> cmd = ''help'' then Usage None
          else Usage (Some (UnknownCommand cmd)))"

text \<open>
  What goes to standard error before \<^verbatim>\<open>main\<close> reports an error; the messages of the flag
  package are not included.
\<close>

definition usage_text :: "gostring list" where
  "usage_text =
     [''usage:'',
      ''  cc-send list [--json] [--all]'',
      ''  cc-send send (--session <uuid> | --pid <n> | --name <name> | --to <addr>) [flags] <text>'',
      ''  cc-send rename (--pid <n> | --to <addr>) <new-name>'',
      ''  cc-send self'',
      [],
      ''send flags:'',
      ''  --priority now|next|later   queue placement (default next)'',
      ''  --name-as <name>            attribute the message to this sender name'',
      ''  --from <uds-addr>           reply address to put on the message; a bare'',
      ''                              socket path is accepted too'',
      ''  --wait-receipt <duration>   bind a temporary inbox, set --from to it, and'',
      ''                              report delivery receipts for this long'',
      ''  --no-auth                   send without an auth frame'',
      ''  --timeout <duration>        send timeout (default 5s)'',
      [],
      ''flags must come before the message text. Use -- to end flag parsing so a'',
      ''message that starts with a dash is not read as one:'',
      ''  cc-send send --pid 1234 -- '' @ [CHR 0x22] @ ''-starts-with-a-dash'' @ [CHR 0x22],
      [],
      ''send exit codes:'',
      ''  0   sent, and, with --wait-receipt, delivered or acknowledged'',
      ''  1   usage error or send failure'',
      ''  2   the receiving session denied the message, or a held message expired'',
      ''  3   --wait-receipt elapsed with no terminal receipt'']"

fun run_stderr :: "outcome \<Rightarrow> gostring list" where
  "run_stderr (Usage e) = usage_text"
| "run_stderr (Sent r) = o_stderr r"
| "run_stderr _ = []"

text \<open>\<^verbatim>\<open>main\<close>: the exit code of the process.\<close>

fun run_error :: "outcome \<Rightarrow> cli_error option" where
  "run_error (Listed (Inl e)) = Some e"
| "run_error (Listed (Inr l)) = None"
| "run_error (Sent r) = o_error r"
| "run_error (Renamed r) = snd r"
| "run_error (Printed ls) = None"
| "run_error (Usage e) = e"

definition main_exit :: "outcome \<Rightarrow> int" where
  "main_exit r = exit_code (run_error r)"

section \<open>Lemmas: probing\<close>

lemma foldl_update_length: "length (foldl (\<lambda>live i. live[i := f i]) live order) = length live"
  by (induction order arbitrary: live) simp_all

lemma foldl_update_nth:
  "i < length live \<Longrightarrow>
     foldl (\<lambda>live i. live[i := f i]) live order ! i = (if i \<in> set order then f i else live ! i)"
  by (induction order arbitrary: live) (simp_all add: nth_list_update)

lemma run_probes_length: "length (run_probes w sessions order) = length sessions"
  by (simp add: run_probes_def foldl_update_length)

lemma run_probes_nth:
  "i < length sessions \<Longrightarrow>
     run_probes w sessions order ! i \<longleftrightarrow> i \<in> set order \<and> Reachable w (sessions ! i) (300 * Millisecond)"
  by (simp add: run_probes_def foldl_update_nth)

lemma run_probes_all:
  assumes "set order = {..<length sessions}"
  shows "run_probes w sessions order = map (\<lambda>s. Reachable w s (300 * Millisecond)) sessions"
  by (rule nth_equalityI) (simp_all add: run_probes_length run_probes_nth assms)

lemma list_rows_map:
  "list_rows all sessions (map f sessions) = map (\<lambda>s. row_of s (f s)) (filter (\<lambda>s. all \<or> f s) sessions)"
  by (induction sessions) (auto simp: list_rows_def List.map_filter_def)

lemma list_shown:
  assumes "parse_flags list_flags [] args = Inr (acc, rest)" "ListSessions w = Inr ss"
    "set order = {..<length ss}" "live = (\<lambda>s. Reachable w s (300 * Millisecond))"
    "shown = filter (\<lambda>s. bool_setting acc ''all'' \<or> live s) ss"
  shows "listCmd w order args = Inr
      (if bool_setting acc ''json'' then JSONText (rows_text (map (\<lambda>s. row_of s (live s)) shown))
       else TableRows ([''PID'', ''LIVE'', ''NAME'', ''KIND'', ''STATUS'', ''SESSION ID'', ''CWD'']
         # map (\<lambda>s. row_cells (row_of s (live s))) shown))"
proof -
  have "list_rows (bool_setting acc ''all'') ss (run_probes w ss order) = map (\<lambda>s. row_of s (live s)) shown"
    by (simp add: run_probes_all assms(3-5) list_rows_map)
  then show ?thesis by (simp add: listCmd_def assms(1,2))
qed

section \<open>Lemmas: rows as JSON\<close>

lemma nat_str_head: "0 < n \<Longrightarrow> hd (nat_str n) \<noteq> CHR ''0''"
proof (induction n rule: nat_str.induct)
  case (1 n)
  show ?case
  proof (cases "n < 10")
    case True
    have "\<forall>d \<in> set [1..<10]. digit_char d \<noteq> CHR ''0''" by code_simp
    with True 1(2) show ?thesis by (simp add: nat_str.simps [of n])
  next
    case False
    with 1 show ?thesis by (simp add: nat_str.simps [of n] hd_append)
  qed
qed

lemma nat_literal_Itoa:
  assumes "0 \<le> n"
  shows "nat_literal (Itoa n)"
proof (cases "n = 0")
  case True
  then show ?thesis by (simp add: nat_literal_def Itoa_def nat_str.simps digit_char_def is_digit_code)
next
  case False
  with assms nat_str_head [of "nat n"] nat_str_digits [of "nat n"] show ?thesis
    by (simp add: nat_literal_def Itoa_def list_all_iff)
qed

lemma row_json_ok:
  assumes "session_typed s"
  shows "json_ok (row_json (row_of s live))"
proof -
  have "ValidString (session_address s)"
    using validAddress_utf8 [of "session_address s"] addr.wf_enc by (auto simp: session_address_def)
  moreover have "\<forall>k \<in> {''pid'', ''sessionId'', ''name'', ''kind'', ''status'', ''cwd'', ''socket'', ''address'', ''live''}.
      ValidString k"
    by (simp add: ValidString_ascii del: ValidString.simps)
  ultimately show ?thesis
    using assms nat_literal_Itoa [of "s_PID s"]
    by (simp add: session_typed_def valid_pid_def string_fields_def json_ok_def row_json_def row_of_def
        maxNestingDepth_def del: ValidString.simps)
qed

lemma parse_rows_text:
  assumes "list_all (\<lambda>r. json_ok (row_json r)) rows"
  shows "parse_json (rows_text rows) = Some (JArr (map row_json rows))"
proof -
  let ?v = "JArr (map row_json rows)"
  have "printable ?v" "all_utf8 ?v" using assms by (simp_all add: json_ok_def list_all_iff)
  moreover have "depth (row_json r) = 1" for r by (simp add: row_json_def)
  then have "foldr max (map depth (map row_json rows)) 0 \<le> 1" by (simp add: foldr_max_le)
  then have "depth ?v \<le> maxNestingDepth" by (simp add: maxNestingDepth_def)
  moreover have "list_all is_ws (CHR 0x0A # concat (replicate i ''  ''))" for i
    by (induction i) (simp_all add: is_ws_def)
  ultimately have "parse_json (rows_text rows) = Some (coerce_json ?v)"
    unfolding rows_text_def by (intro parse_layout) (simp_all add: is_ws_def)
  then show ?thesis using coerce_json_utf8 [OF \<open>all_utf8 ?v\<close>] by (simp only:)
qed

section \<open>Lemmas: words and text\<close>

lemma message_text_single: "message_text [join_with '' '' ws] = message_text ws"
  by (simp add: message_text_def)

lemma flag_text_undashed: "\<not> HasPrefix s ''-'' \<Longrightarrow> flag_text s = None"
  by (auto simp: flag_text_def HasPrefix_def split: list.splits)

lemma join_undashed:
  assumes "\<not> HasPrefix t ''-''"
  shows "\<not> HasPrefix (join_with '' '' (t # rest)) ''-''"
proof (cases t)
  case Nil
  then show ?thesis by (cases rest) (simp_all add: HasPrefix_def)
next
  case (Cons c t')
  with assms show ?thesis by (cases rest) (auto simp: HasPrefix_def)
qed

section \<open>Lemmas: the return address\<close>

lemma compose_message_Inr:
  assumes "compose_message acc t = Inr m"
  shows "m_Text m = t \<and> m_SessionID m = [] \<and> m_MsgID m = [] \<and>
    m_Priority m = setting acc ''priority'' ''next'' \<and> m_FromName m = setting acc ''name-as'' [] \<and>
    (if setting acc ''from'' [] = [] then m_From m = []
     else \<exists>p. ParseAddress (setting acc ''from'' []) = Inr p \<and> m_From m = Address p)"
  using assms by (auto simp: compose_message_def Let_def split: if_splits sum.splits)

lemma compose_message_Inl: "compose_message acc t = Inl e \<Longrightarrow> \<exists>g. e = FromFailed g"
  by (auto simp: compose_message_def Let_def split: if_splits sum.splits)

lemma Address_nonempty: "Address p \<noteq> []"
  by (simp add: Address_def)

lemma outgoing_message_From:
  "m_From (outgoing_message w inbox m) =
     (case inbox of
        Some path \<Rightarrow> Address path
      | None \<Rightarrow> if m_From m = [] then SelfAddress w else m_From m)"
  "m_Text (outgoing_message w inbox m) = m_Text m"
  by (cases inbox; simp add: outgoing_message_def inbox_Address_def Address_nonempty Let_def)+

lemma frame_malformed:
  "frame w rnd m = Inl (MalformedFrom a) \<Longrightarrow> m_From m \<noteq> [] \<and> \<not> validAddress (m_From m)"
  by (auto simp: frame_def error_simps effective_priority_def newUUID_def Let_def split: if_splits sum.splits)

section \<open>Lemmas: the waiting loop\<close>

text \<open>
  The receipts the loop would take from the channel before the deadline if none of them
  ended it, and the status of the first that does end it.
\<close>

fun received :: "receipt list \<Rightarrow> wait_event list \<Rightarrow> receipt list" where
  "received queue [] = []"
| "received queue (Expire # es) = []"
| "received queue (Arrive r # es) = received (push_receipt queue r) es"
| "received queue (Poll # es) =
     (case queue of [] \<Rightarrow> received queue es | r # queue' \<Rightarrow> r # received queue' es)"

definition first_final :: "receipt list \<Rightarrow> ReceiptStatus option" where
  "first_final rs = map_option r_Status (find (\<lambda>r. r_Status r \<noteq> StatusHeld) rs)"

text \<open>The receipts that arrive before the deadline.\<close>

fun arrivals :: "wait_event list \<Rightarrow> receipt list" where
  "arrivals [] = []"
| "arrivals (Expire # es) = []"
| "arrivals (Arrive r # es) = r # arrivals es"
| "arrivals (Poll # es) = arrivals es"

lemma wait_loop_first:
  "wait_loop queue es =
     (case first_final (received queue es) of
        None \<Rightarrow> Some ReceiptTimeout
      | Some s \<Rightarrow> if s = StatusDenied \<or> s = StatusExpired then Some (ReceiptFailed s) else None)"
  by (induction queue es rule: wait_loop.induct) (auto simp: first_final_def split: list.splits)

text \<open>The receipts up to the first that ends the wait, and that one.\<close>

fun upto_final :: "receipt list \<Rightarrow> receipt list" where
  "upto_final [] = []"
| "upto_final (r # rs) = r # (if r_Status r = StatusHeld then upto_final rs else [])"

lemma first_final_Cons:
  "first_final (r # rs) = (if r_Status r = StatusHeld then first_final rs else Some (r_Status r))"
  by (simp add: first_final_def)

lemma wait_loop_exit: "exit_code (wait_loop queue es) \<noteq> 1"
  by (simp add: wait_loop_first exit_code_def split: option.split)

lemma send_and_wait_outcome:
  "(exit_code (o_error (send_and_wait w n rnd sched acc st m)) = 1
      \<longleftrightarrow> o_stdout (send_and_wait w n rnd sched acc st m) = []) \<and>
   (o_stdout (send_and_wait w n rnd sched acc st m) \<noteq> [] \<longrightarrow>
      (\<exists>i. send_to_target w n rnd acc m = Inr (o_net (send_and_wait w n rnd sched acc st m), Inr i) \<and>
         o_stdout (send_and_wait w n rnd sched acc st m) = [i])) \<and>
   o_process (send_and_wait w n rnd sched acc st m) = st \<and> o_closed (send_and_wait w n rnd sched acc st m) = []"
proof (cases "send_to_target w n rnd acc m")
  case (Inl e)
  then have "e = NoTarget" by (auto simp: send_to_target_def Let_def split: if_splits)
  with Inl show ?thesis by (simp add: send_and_wait_def send_failed_def exit_code_def)
next
  case (Inr io)
  obtain evs r where io: "io = (evs, r)" by fastforce
  show ?thesis
  proof (cases r)
    case (Inl e)
    with Inr io show ?thesis by (simp add: send_and_wait_def send_failed_def exit_code_def)
  next
    case (Inr i)
    with \<open>send_to_target w n rnd acc m = Inr io\<close> io show ?thesis
      using wait_loop_exit [of "[]" sched]
      by (simp add: send_and_wait_def) (simp add: exit_code_def)
  qed
qed

lemma send_and_wait_error:
  "o_error (send_and_wait w n rnd sched acc st m) \<noteq> Some NoText"
  "o_error (send_and_wait w n rnd sched acc st m) \<noteq> Some (FlagFailed fe)"
  "o_error (send_and_wait w n rnd sched acc st m) \<noteq> Some (FromFailed ge)"
  by (auto simp: send_and_wait_def send_failed_def send_to_target_def wait_loop_first Let_def
      split: sum.splits prod.splits if_splits option.splits)

text \<open>What a listening socket leaves in the event log.\<close>

lemma Listen_started:
  assumes "p_events st = []" "Listen w y st = (st', r)"
  shows "(ServeStarted \<in> set (p_events st') \<longleftrightarrow> \<not> isl r) \<and> (\<forall>p. r = Inr p \<longrightarrow> p = DefaultSocketPath w (getpid w))"
proof -
  let ?path = "DefaultSocketPath w (getpid w)"
  show ?thesis
  proof (cases "safe_dir w y (Dir ?path)")
    case False
    from Listen_unsafe [OF this, of st] assms(2) obtain e
      where r: "r = Inl e" "st' = fst (ensureSocketDir w y (Dir ?path) st)" by auto
    with ensureSocketDir_state [of w y "Dir ?path" st] assms(1) show ?thesis by auto
  next
    case True
    show ?thesis
      using Listen_safe [OF True refl, of st] assms
      by (auto simp: bind_prefix_def Let_def split: if_splits option.splits)
  qed
qed

text \<open>
  A run of \<^verbatim>\<open>send\<close> either refuses its command line or goes on with a composed message.
\<close>

definition refused :: "cli_error \<Rightarrow> bool" where
  "refused e \<longleftrightarrow> e = NoText \<or> (\<exists>f. e = FlagFailed f) \<or> (\<exists>g. e = FromFailed g)"

definition send_composed ::
  "world \<Rightarrow> sys \<Rightarrow> pstate \<Rightarrow> net \<Rightarrow> oserror + byte list \<Rightarrow> wait_event list \<Rightarrow> settings \<Rightarrow> message \<Rightarrow> send_run" where
  "send_composed w y st n rnd sched acc m =
     (if wait_setting acc > 0 then
        (case Listen w y st of
           (st', Inl e) \<Rightarrow> send_failed st' (LibFailed e)
         | (st', Inr path) \<Rightarrow>
             with_inbox path (send_and_wait w n rnd sched acc st' (outgoing_message w (Some path) m)))
      else send_and_wait w n rnd sched acc st (outgoing_message w None m))"

lemma refused_exit: "refused e \<Longrightarrow> exit_code (Some e) = 1"
  by (auto simp: refused_def exit_code_def)

lemma sendCmd_cases:
  "(\<exists>e. refused e \<and> sendCmd w y st n rnd sched args = send_failed st e) \<or>
   (\<exists>acc rest m. parse_flags send_flags [] args = Inr (acc, rest) \<and> compose_message acc (message_text rest) = Inr m \<and>
      sendCmd w y st n rnd sched args = send_composed w y st n rnd sched acc m)"
proof (cases "parse_flags send_flags [] args")
  case (Inl e)
  then have "sendCmd w y st n rnd sched args = send_failed st (FlagFailed e)" by (simp add: sendCmd_def)
  then show ?thesis by (auto simp: refused_def)
next
  case (Inr p)
  obtain acc rest where p: "p = (acc, rest)" by fastforce
  show ?thesis
  proof (cases "compose_message acc (message_text rest)")
    case (Inl e)
    then have "sendCmd w y st n rnd sched args = send_failed st (if message_text rest = [] then NoText else e)"
      by (simp add: sendCmd_def \<open>parse_flags send_flags [] args = Inr p\<close> p)
    moreover have "refused (if message_text rest = [] then NoText else e)"
      using compose_message_Inl [OF Inl] by (auto simp: refused_def)
    ultimately show ?thesis by blast
  next
    case (Inr m)
    then have "sendCmd w y st n rnd sched args =
        (if message_text rest = [] then send_failed st NoText else send_composed w y st n rnd sched acc m)"
      by (simp add: sendCmd_def send_composed_def \<open>parse_flags send_flags [] args = Inr p\<close> p)
    moreover have "refused NoText" by (simp add: refused_def)
    ultimately show ?thesis using \<open>parse_flags send_flags [] args = Inr p\<close> p Inr by (cases "message_text rest = []") auto
  qed
qed

lemma send_composed_outcome:
  assumes "p_events st = []"
  shows "let r = send_composed w y st n rnd sched acc m; path = DefaultSocketPath w (getpid w) in
    (exit_code (o_error r) = 1 \<longleftrightarrow> o_stdout r = []) \<and>
    (o_stdout r \<noteq> [] \<longrightarrow> (\<exists>i. o_stdout r = [i] \<and>
       send_to_target w n rnd acc (outgoing_message w (if wait_setting acc > 0 then Some path else None) m)
         = Inr (o_net r, Inr i))) \<and>
    (ServeStarted \<in> set (p_events (o_process r)) \<longleftrightarrow> o_closed r = [path]) \<and>
    (ServeStarted \<notin> set (p_events (o_process r)) \<longleftrightarrow> o_closed r = []) \<and>
    o_error r \<noteq> Some NoText \<and> (\<forall>f. o_error r \<noteq> Some (FlagFailed f)) \<and> (\<forall>g. o_error r \<noteq> Some (FromFailed g))"
proof (cases "wait_setting acc > 0")
  case False
  define k where "k = send_and_wait w n rnd sched acc st (outgoing_message w None m)"
  note outcome = send_and_wait_outcome [of w n rnd sched acc st "outgoing_message w None m", folded k_def]
  note error = send_and_wait_error [of w n rnd sched acc st "outgoing_message w None m", folded k_def]
  from False have "send_composed w y st n rnd sched acc m = k" by (simp add: send_composed_def k_def)
  with outcome error False assms show ?thesis by (simp add: Let_def, blast)
next
  case True
  obtain st' l where l: "Listen w y st = (st', l)" by fastforce
  note started = Listen_started [OF assms l]
  show ?thesis
  proof (cases l)
    case (Inl e)
    with True l have "send_composed w y st n rnd sched acc m = send_failed st' (LibFailed e)"
      by (simp add: send_composed_def)
    then show ?thesis using started Inl by (simp add: send_failed_def exit_code_def)
  next
    case (Inr path)
    define k where "k = send_and_wait w n rnd sched acc st' (outgoing_message w (Some path) m)"
    note outcome = send_and_wait_outcome [of w n rnd sched acc st' "outgoing_message w (Some path) m", folded k_def]
    note error = send_and_wait_error [of w n rnd sched acc st' "outgoing_message w (Some path) m", folded k_def]
    from Inr True l have "send_composed w y st n rnd sched acc m = with_inbox path k"
      by (simp add: send_composed_def k_def)
    with outcome error started Inr True show ?thesis by (simp add: Let_def with_inbox_def, blast)
  qed
qed

text \<open>A run that prints no id: nothing was sent, or the library reported the error.\<close>

lemma send_and_wait_failed:
  assumes "r = send_and_wait w n rnd sched acc st m" "o_stdout r = []"
  shows "o_net r = [] \<and> o_error r = Some NoTarget \<or>
    (\<exists>e. send_to_target w n rnd acc m = Inr (o_net r, Inl e) \<and> o_error r = Some (LibFailed e))"
proof (cases "send_to_target w n rnd acc m")
  case (Inl e)
  then have "e = NoTarget" by (auto simp: send_to_target_def Let_def split: if_splits)
  with Inl assms show ?thesis by (simp add: send_and_wait_def send_failed_def)
next
  case (Inr io)
  with assms show ?thesis
    by (cases io; cases "snd io") (simp_all add: send_and_wait_def send_failed_def)
qed

lemma send_composed_failed:
  assumes "p_events st = []" "r = send_composed w y st n rnd sched acc m" "o_stdout r = []"
  shows "o_net r = [] \<and> (\<forall>e. o_error r = Some (LibFailed e) \<longrightarrow> snd (Listen w y st) = Inl e) \<or>
    (\<exists>e. o_error r = Some (LibFailed e) \<and> send_to_target w n rnd acc
       (outgoing_message w (if wait_setting acc > 0 then Some (DefaultSocketPath w (getpid w)) else None) m)
       = Inr (o_net r, Inl e))"
proof (cases "wait_setting acc > 0")
  case False
  then have "r = send_and_wait w n rnd sched acc st (outgoing_message w None m)"
    using assms(2) by (simp add: send_composed_def)
  from send_and_wait_failed [OF this assms(3)] False show ?thesis by auto
next
  case True
  obtain st' l where l: "Listen w y st = (st', l)" by fastforce
  show ?thesis
  proof (cases l)
    case (Inl e)
    with True l assms(2) show ?thesis by (simp add: send_composed_def send_failed_def)
  next
    case (Inr path)
    define k where "k = send_and_wait w n rnd sched acc st' (outgoing_message w (Some path) m)"
    have r: "r = with_inbox path k" using assms(2) True l Inr by (simp add: send_composed_def k_def)
    have "path = DefaultSocketPath w (getpid w)" using Listen_started [OF assms(1) l] Inr by simp
    with send_and_wait_failed [OF k_def] r assms(3) True show ?thesis by (auto simp: with_inbox_def)
  qed
qed

lemma lib_io_None: "lib_io r = (evs, None) \<Longrightarrow> \<exists>x. r = (evs, Inr x)"
  by (cases r) (auto simp: lib_io_def split: sum.splits)

section \<open>Properties\<close>

text \<open>
  The first word that does not start with a dash ends the flags.  It and every
  word after it are message text, flags or not, exactly as if the user had quoted them
  together.
\<close>

theorem flags_after_text:
  assumes "parse_flags send_flags [] pre = Inr (acc, [])" "\<not> HasPrefix t ''-''"
  shows "sendCmd w y st n rnd sched (pre @ t # rest) =
    sendCmd w y st n rnd sched (pre @ [join_with '' '' (t # rest)])"
proof -
  have "parse_flags send_flags [] (pre @ t # rest) = Inr (acc, t # rest)"
    by (rule parse_flags_stops [OF assms(1) flag_text_undashed [OF assms(2)]])
  moreover have "parse_flags send_flags [] (pre @ [join_with '' '' (t # rest)])
      = Inr (acc, [join_with '' '' (t # rest)])"
    by (rule parse_flags_stops [OF assms(1) flag_text_undashed [OF join_undashed [OF assms(2)]]])
  ultimately show ?thesis
    by (simp add: sendCmd_def message_text_single del: join_with.simps)
qed

text \<open>
  Property C30: the tool never hands the library a malformed return address.  The address is
  the temporary inbox's, else the one given with \<^verbatim>\<open>--from\<close> in either spelling, else the
  surrounding session's, else none; so framing never fails on it, and the text is the one
  the user typed.
\<close>

theorem cli_return_address:
  assumes "compose_message acc t = Inr m" "m' = outgoing_message w inbox m"
  shows "(m_From m' = [] \<or> validAddress (m_From m')) \<and> m_Text m' = t \<and>
    frame w rnd m' \<noteq> Inl (MalformedFrom (m_From m')) \<and>
    (m_From m' = [] \<longleftrightarrow> inbox = None \<and> setting acc ''from'' [] = [] \<and> SelfSocketPath w = []) \<and>
    (\<forall>path. inbox = Some path \<longrightarrow> ParseAddress (m_From m') = Inr path)"
proof -
  note m = compose_message_Inr [OF assms(1)]
  have v: "m_From m' = [] \<or> validAddress (m_From m')"
    using m addr.wf_enc
    by (auto simp: assms(2) outgoing_message_From SelfAddress_def split: option.splits if_splits)
  moreover have "m_Text m' = t" using m by (simp add: assms(2) outgoing_message_From)
  moreover have "frame w rnd m' \<noteq> Inl (MalformedFrom (m_From m'))"
    using v frame_malformed by blast
  moreover have "m_From m' = [] \<longleftrightarrow> inbox = None \<and> setting acc ''from'' [] = [] \<and> SelfSocketPath w = []"
    using m
    by (auto simp: assms(2) outgoing_message_From SelfAddress_def Address_nonempty
        Address_nonempty [THEN not_sym] split: option.splits if_splits)
  moreover have "\<forall>path. inbox = Some path \<longrightarrow> ParseAddress (m_From m') = Inr path"
    by (simp add: assms(2) outgoing_message_From addr.dec_enc)
  ultimately show ?thesis by blast
qed

text \<open>
  Property C29: what a run of \<^verbatim>\<open>send\<close> amounts to.  The exit code is 1 exactly when no message
  id was printed; the one line printed otherwise is the id of a message the library reported
  as sent.  With exit code 1 either nothing was sent at all, because the command line was
  refused, the inbox could not be opened or no target was named, or the library reported the
  error for the calls it made: such a send may have failed late, when the frame was already
  written.  A temporary inbox that was opened is closed again, whatever happened, also when no
  target was named, and a command line that is refused for its flags, its text or its
  \<^verbatim>\<open>--from\<close> touches neither the network nor the process.
\<close>

theorem send_outcome:
  assumes "p_events st = []" "r = sendCmd w y st n rnd sched args"
  shows "(exit_code (o_error r) = 1 \<longleftrightarrow> o_stdout r = []) \<and>
    (o_stdout r \<noteq> [] \<longrightarrow>
       (\<exists>i acc rest m. o_stdout r = [i] \<and> parse_flags send_flags [] args = Inr (acc, rest) \<and>
          compose_message acc (message_text rest) = Inr m \<and>
          send_to_target w n rnd acc
            (outgoing_message w (if wait_setting acc > 0 then Some (DefaultSocketPath w (getpid w)) else None) m)
            = Inr (o_net r, Inr i))) \<and>
    (o_stdout r = [] \<longrightarrow>
       o_net r = [] \<and> (\<forall>e. o_error r = Some (LibFailed e) \<longrightarrow> snd (Listen w y st) = Inl e) \<or>
       (\<exists>e acc rest m. o_error r = Some (LibFailed e) \<and> parse_flags send_flags [] args = Inr (acc, rest) \<and>
          compose_message acc (message_text rest) = Inr m \<and>
          send_to_target w n rnd acc
            (outgoing_message w (if wait_setting acc > 0 then Some (DefaultSocketPath w (getpid w)) else None) m)
            = Inr (o_net r, Inl e))) \<and>
    (ServeStarted \<in> set (p_events (o_process r)) \<longleftrightarrow> o_closed r = [DefaultSocketPath w (getpid w)]) \<and>
    (ServeStarted \<notin> set (p_events (o_process r)) \<longleftrightarrow> o_closed r = []) \<and>
    (o_error r = Some NoText \<or> (\<exists>e. o_error r = Some (FlagFailed e)) \<or> (\<exists>e. o_error r = Some (FromFailed e)) \<longrightarrow>
       o_net r = [] \<and> o_process r = st)"
proof -
  obtain acc rest m where quiet: "(\<exists>e. refused e \<and> r = send_failed st e)
    \<or> parse_flags send_flags [] args = Inr (acc, rest) \<and> compose_message acc (message_text rest) = Inr m \<and>
      r = send_composed w y st n rnd sched acc m"
    using sendCmd_cases [of w y st n rnd sched args] assms(2) by blast
  then show ?thesis
  proof (elim disjE exE conjE)
    fix e assume "refused e" "r = send_failed st e"
    with assms(1) refused_exit [of e] show ?thesis by (auto simp: send_failed_def refused_def)
  next
    assume p: "parse_flags send_flags [] args = Inr (acc, rest)" "compose_message acc (message_text rest) = Inr m"
      and r: "r = send_composed w y st n rnd sched acc m"
    note outcome = send_composed_outcome [OF assms(1), of w y n rnd sched acc m, folded r]
    have "o_stdout r = [] \<longrightarrow>
       o_net r = [] \<and> (\<forall>e. o_error r = Some (LibFailed e) \<longrightarrow> snd (Listen w y st) = Inl e) \<or>
       (\<exists>e acc rest m. o_error r = Some (LibFailed e) \<and> parse_flags send_flags [] args = Inr (acc, rest) \<and>
          compose_message acc (message_text rest) = Inr m \<and>
          send_to_target w n rnd acc
            (outgoing_message w (if wait_setting acc > 0 then Some (DefaultSocketPath w (getpid w)) else None) m)
            = Inr (o_net r, Inl e))"
      using send_composed_failed [OF assms(1) r] p by blast
    with outcome p show ?thesis unfolding Let_def by blast
  qed
qed

text \<open>
  Property C31: a rename that succeeds wrote one rename frame with the words typed.  With
  \<^verbatim>\<open>--pid\<close> it went to the socket of the session registered for that process and carries that
  session's id; with \<^verbatim>\<open>--to\<close> it went to the address given, with no id.
\<close>

theorem cli_rename:
  assumes "renameCmd w n rnd args = (evs, None)" "parse_flags rename_flags [] args = Inr (acc, rest)"
  shows "\<exists>path sid token i. newUUID rnd = Inr i \<and> message_text rest \<noteq> [] \<and>
    (if int_setting acc ''pid'' \<noteq> 0
     then \<exists>s. FindByPID w (int_setting acc ''pid'') = Inr s \<and> path = s_SocketPath s \<and> sid = s_SessionID s
     else ParseAddress (setting acc ''to'' []) = Inr path \<and> sid = []) \<and>
    Dialed path \<in> set evs \<and>
    Wrote (wire_line token (print_json (rename_json i (message_text rest) sid))) \<in> set evs"
proof -
  let ?name = "message_text rest"
  have wrote: ?thesis
    if r: "rename w n rnd New path sid ?name = (evs, Inr u)"
      and target: "if int_setting acc ''pid'' \<noteq> 0
       then \<exists>s. FindByPID w (int_setting acc ''pid'') = Inr s \<and> path = s_SocketPath s \<and> sid = s_SessionID s
       else ParseAddress (setting acc ''to'' []) = Inr path \<and> sid = []"
    for path sid u
  proof -
    obtain token i where "?name \<noteq> []" "newUUID rnd = Inr i"
      "evs = [Dialed path, DeadlineSet (send_deadline New n),
        Wrote (wire_line token (print_json (rename_json i ?name sid)))] @ wait_events w @ [HalfClosed, Drained, Closed]"
      using r by (rule rename_Inr)
    with target show ?thesis
      by (intro exI [of _ path] exI [of _ sid] exI [of _ token] exI [of _ i]) simp
  qed
  show ?thesis
  proof (cases "int_setting acc ''pid'' \<noteq> 0")
    case True
    with assms have "lib_io (io_of (FindByPID w (int_setting acc ''pid'')) (\<lambda>s. RenameSession w n rnd New s ?name)) = (evs, None)"
      by (auto simp: renameCmd_def Let_def split: if_splits)
    then obtain u where "io_of (FindByPID w (int_setting acc ''pid'')) (\<lambda>s. RenameSession w n rnd New s ?name) = (evs, Inr u)"
      using lib_io_None by blast
    from io_of_Inr [OF this] obtain s where s: "FindByPID w (int_setting acc ''pid'') = Inr s"
      "RenameSession w n rnd New s ?name = (evs, Inr u)" by blast
    from s(2) have "rename w n rnd New (s_SocketPath s) (s_SessionID s) ?name = (evs, Inr u)"
      by (auto simp: RenameSession_def io_fail_def split: if_splits)
    from wrote [OF this] s(1) True show ?thesis by simp
  next
    case False
    with assms have "lib_io (io_of (ParseAddress (setting acc ''to'' [])) (\<lambda>p. Rename w n rnd New p ?name)) = (evs, None)"
      by (auto simp: renameCmd_def Let_def split: if_splits)
    then obtain u where "io_of (ParseAddress (setting acc ''to'' [])) (\<lambda>p. Rename w n rnd New p ?name) = (evs, Inr u)"
      using lib_io_None by blast
    from io_of_Inr [OF this] obtain p where p: "ParseAddress (setting acc ''to'' []) = Inr p"
      "Rename w n rnd New p ?name = (evs, Inr u)" by blast
    from wrote [OF p(2) [unfolded Rename_def]] p(1) False show ?thesis by simp
  qed
qed

text \<open>
  Property C33: whatever order the probes finish in, \<^verbatim>\<open>list\<close> shows the registry's sessions
  in the registry's order, each once, with the answer of its own probe: all of them with
  \<^verbatim>\<open>--all\<close>, otherwise those that answered.
\<close>

theorem list_shows_live:
  assumes "parse_flags list_flags [] args = Inr (acc, rest)" "ListSessions w = Inr ss"
    "set order = {..<length ss}" "live = (\<lambda>s. Reachable w s (300 * Millisecond))"
    "shown = filter (\<lambda>s. bool_setting acc ''all'' \<or> live s) ss"
  shows "listCmd w order args = Inr
      (if bool_setting acc ''json'' then JSONText (rows_text (map (\<lambda>s. row_of s (live s)) shown))
       else TableRows ([''PID'', ''LIVE'', ''NAME'', ''KIND'', ''STATUS'', ''SESSION ID'', ''CWD'']
         # map (\<lambda>s. row_cells (row_of s (live s))) shown)) \<and>
    sorted (map start_key shown) \<and> (names_distinct w \<longrightarrow> distinct (map s_PID shown))"
proof -
  note list_shown [OF assms]
  moreover have "sorted (map start_key shown)"
    using assms(2) by (auto simp: ListSessions_Inr assms(5) sorted_filter)
  moreover have "distinct (map s_PID shown)" if "names_distinct w"
    using ListSessions_distinct [OF that assms(2)] by (simp add: assms(5) distinct_map_filter)
  ultimately show ?thesis by blast
qed

text \<open>
  Property C32: what \<^verbatim>\<open>list --json\<close> prints reads back as what it lists: the text is one JSON
  array that holds, in order, an object per session shown, with every field exact, whatever
  bytes the registry files hold.
\<close>

theorem list_json_reads_back:
  assumes "parse_flags list_flags [] args = Inr (acc, rest)" "ListSessions w = Inr ss" "bool_setting acc ''json''"
    and "set order = {..<length ss}" "live = (\<lambda>s. Reachable w s (300 * Millisecond))"
    and "shown = filter (\<lambda>s. bool_setting acc ''all'' \<or> live s) ss"
  shows "\<exists>text. listCmd w order args = Inr (JSONText text) \<and>
    parse_json text = Some (JArr (map (\<lambda>s. JObj
      [(''pid'', JNum (Itoa (s_PID s))), (''sessionId'', JStr (s_SessionID s)), (''name'', JStr (s_Name s)),
       (''kind'', JStr (s_Kind s)), (''status'', JStr (s_Status s)), (''cwd'', JStr (s_CWD s)),
       (''socket'', JStr (s_SocketPath s)), (''address'', JStr (session_address s)), (''live'', JBool (live s))]) shown))"
proof -
  have "list_all (\<lambda>r. json_ok (row_json r)) (map (\<lambda>s. row_of s (live s)) shown)"
    using ListSessions_typed [OF assms(2)] row_json_ok by (auto simp: assms(6) list_all_iff)
  from parse_rows_text [OF this] list_shown [OF assms(1,2,4-6)] assms(3) show ?thesis
    by (simp add: comp_def row_json_def row_of_def)
qed

end
