(* ===== verification/Waiting.thy ===== *)
theory Waiting
  imports CcSend Steps
begin

text \<open>
  The wait for receipts of \<^verbatim>\<open>cc-send send --wait-receipt\<close> as it runs: a goroutine per
  connection of the temporary inbox, which hands its receipts to the callback, the buffered
  channel of 16 between them and \<^verbatim>\<open>main\<close>'s loop, and the timer.  The lemmas show that the
  schedules \<open>wait_loop\<close> is run on are exactly the runs of these goroutines, that the wait
  ends and blocks nobody, and what its result says about the receipts that were written.
\<close>

section \<open>States and steps\<close>

text \<open>
  \<open>ws_conns\<close> holds, for each connection, the receipts not yet handed to the callback;
  \<open>ws_seen\<close> records the receipts the loop has taken from the channel.
\<close>

record wait_state =
  ws_conns :: "receipt list list"
  ws_queue :: "receipt list"
  ws_fired :: bool
  ws_stderr :: "gostring list"
  ws_seen :: "receipt list"
  ws_result :: "cli_error option option"

definition wait_start :: "receipt list list \<Rightarrow> wait_state" where
  "wait_start conns =
     \<lparr>ws_conns = conns, ws_queue = [], ws_fired = False, ws_stderr = [], ws_seen = [], ws_result = None\<rparr>"

text \<open>The verdict of the switch on a receipt's status: \<open>None\<close> to go on waiting.\<close>

definition verdict :: "receipt \<Rightarrow> cli_error option option" where
  "verdict r =
     (if r_Status r = StatusHeld then None
      else if r_Status r = StatusDenied \<or> r_Status r = StatusExpired then Some (Some (ReceiptFailed (r_Status r)))
      else Some None)"

text \<open>
  The callback: its \<^verbatim>\<open>select\<close> has a default branch, so a channel that is full costs the
  receipt and never stops the connection.
\<close>

definition on_receipt :: "receipt \<Rightarrow> wait_state \<Rightarrow> wait_state" where
  "on_receipt r s =
     (if length (ws_queue s) < 16 then s\<lparr>ws_queue := ws_queue s @ [r]\<rparr>
      else s\<lparr>ws_stderr := ws_stderr s @ [''receipt dropped: receiver is behind'']\<rparr>)"

text \<open>
  The loop's \<^verbatim>\<open>select\<close> has no default branch; when the channel and the timer are both ready
  it takes either.
\<close>

inductive wait_step :: "wait_state \<Rightarrow> wait_state \<Rightarrow> bool" where
  wait_callback: "ws_result s = None \<Longrightarrow> i < length (ws_conns s) \<Longrightarrow> ws_conns s ! i = r # rs \<Longrightarrow>
    wait_step s (on_receipt r (s\<lparr>ws_conns := (ws_conns s)[i := rs]\<rparr>))"
| wait_take: "ws_result s = None \<Longrightarrow> ws_queue s = r # q \<Longrightarrow>
    wait_step s (s\<lparr>ws_queue := q, ws_stderr := ws_stderr s @ [receipt_line r], ws_seen := ws_seen s @ [r],
      ws_result := verdict r\<rparr>)"
| wait_fire: "ws_result s = None \<Longrightarrow> \<not> ws_fired s \<Longrightarrow> wait_step s (s\<lparr>ws_fired := True\<rparr>)"
| wait_timeout: "ws_result s = None \<Longrightarrow> ws_fired s \<Longrightarrow> wait_step s (s\<lparr>ws_result := Some (Some ReceiptTimeout)\<rparr>)"

inductive_cases wait_stepE: "wait_step s s'"

lemma on_receipt_kept [simp]:
  "ws_conns (on_receipt r s) = ws_conns s" "ws_fired (on_receipt r s) = ws_fired s"
  "ws_seen (on_receipt r s) = ws_seen s" "ws_result (on_receipt r s) = ws_result s"
  by (simp_all add: on_receipt_def)

text \<open>A schedule's \<open>Arrive\<close> does the same.\<close>

lemma on_receipt_arrive:
  "ws_queue (on_receipt r s) = push_receipt (ws_queue s) r"
  "ws_stderr (on_receipt r s)
     = ws_stderr s @ (if length (ws_queue s) < 16 then [] else [''receipt dropped: receiver is behind''])"
  by (simp_all add: on_receipt_def push_receipt_def)

abbreviation wait_reach :: "wait_state \<Rightarrow> wait_state \<Rightarrow> bool" where
  "wait_reach s \<equiv> reachable (\<lambda>t. t = s) wait_step"

section \<open>Runs and schedules\<close>

text \<open>The receipts of a schedule can arrive from these connections, each in its own order.\<close>

fun can_arrive :: "receipt list list \<Rightarrow> receipt list \<Rightarrow> bool" where
  "can_arrive conns [] \<longleftrightarrow> True"
| "can_arrive conns (r # rs) \<longleftrightarrow>
     (\<exists>i < length conns. conns ! i \<noteq> [] \<and> hd (conns ! i) = r \<and> can_arrive (conns[i := tl (conns ! i)]) rs)"

lemma can_arrive_first:
  assumes "i < length conns" "conns ! i = r # rs" "can_arrive (conns[i := rs]) xs"
  shows "can_arrive conns (r # xs)"
  unfolding can_arrive.simps using assms by (intro exI [of _ i]) simp

lemma wait_reach_trans: "wait_reach t u \<Longrightarrow> wait_reach s t \<Longrightarrow> wait_reach s u"
  by (induction rule: reachable.induct) (auto intro: reachable.intros)

lemma wait_reach_first: "wait_step s t \<Longrightarrow> wait_reach t u \<Longrightarrow> wait_reach s u"
  by (rule wait_reach_trans) (auto intro: reachable.intros)

lemma wait_reach_cases:
  assumes "wait_reach s u"
  obtains "u = s" | t where "wait_step s t" "wait_reach t u"
proof -
  have "u = s \<or> (\<exists>t. wait_step s t \<and> wait_reach t u)"
    using assms by (induction rule: reachable.induct) (auto intro: reachable.intros)
  with that show thesis by blast
qed

text \<open>How much is left to happen.\<close>

definition wait_left :: "wait_state \<Rightarrow> nat" where
  "wait_left s = 2 * sum_list (map length (ws_conns s)) + length (ws_queue s)
     + (if ws_fired s then 0 else 1) + (if ws_result s = None then 1 else 0)"

lemma conns_shrink:
  assumes "i < length conns" "conns ! i = r # rs"
  shows "sum_list (map length conns) = Suc (sum_list (map length (conns[i := rs])))"
  using assms
proof (induction conns arbitrary: i)
  case (Cons c conns)
  then show ?case by (cases i) simp_all
qed simp

lemma wait_left_step: "wait_step s t \<Longrightarrow> wait_left t < wait_left s"
  by (auto elim!: wait_stepE simp: wait_left_def conns_shrink on_receipt_arrive push_receipt_def)

lemma wait_progress: "ws_result s = None \<Longrightarrow> \<exists>t. wait_step s t"
  by (cases "ws_fired s") (blast intro: wait_fire wait_timeout)+

lemma wait_finished: "wait_reach s u \<Longrightarrow> ws_result s \<noteq> None \<Longrightarrow> u = s"
  by (erule wait_reach_cases) (auto elim: wait_stepE)

lemma wait_times_out:
  assumes "ws_result s = None"
  shows "\<exists>u. wait_reach s u \<and> ws_result u = Some (Some ReceiptTimeout) \<and> ws_stderr u = ws_stderr s"
proof -
  let ?f = "s\<lparr>ws_fired := True\<rparr>"
  let ?u = "?f\<lparr>ws_result := Some (Some ReceiptTimeout)\<rparr>"
  have "wait_reach s ?f"
  proof (cases "ws_fired s")
    case True
    then have "?f = s" by simp
    then show ?thesis by (simp add: reachable_init)
  next
    case False
    with assms show ?thesis by (intro wait_reach_first [OF wait_fire reachable_init]) simp_all
  qed
  moreover have "wait_step ?f ?u" using assms by (intro wait_timeout) simp_all
  ultimately show ?thesis by (intro exI [of _ ?u]) (auto intro: reachable_step)
qed

lemma run_schedule:
  assumes "wait_reach s u" "ws_result s = None" "ws_result u = Some r"
  shows "\<exists>es. can_arrive (ws_conns s) (arrivals es) \<and> wait_loop (ws_queue s) es = r \<and>
    ws_stderr u = ws_stderr s @ wait_stderr (ws_queue s) es"
  using assms
proof (induction "wait_left s" arbitrary: s rule: less_induct)
  case less
  from less.prems(2,3) have "u \<noteq> s" by auto
  with less.prems(1) obtain t where t: "wait_step s t" "wait_reach t u" by (auto elim: wait_reach_cases)
  have rest: "\<exists>es. can_arrive (ws_conns t) (arrivals es) \<and> wait_loop (ws_queue t) es = r \<and>
      ws_stderr u = ws_stderr t @ wait_stderr (ws_queue t) es" if "ws_result t = None"
    by (rule less.hyps [OF wait_left_step [OF t(1)] t(2) that less.prems(3)])
  have over: "u = t" if "ws_result t \<noteq> None" by (rule wait_finished [OF t(2) that])
  from t(1) show ?case
  proof (cases rule: wait_step.cases)
    case (wait_callback i r' rs)
    with rest less.prems(2) obtain es where "can_arrive (ws_conns t) (arrivals es)" "wait_loop (ws_queue t) es = r"
      "ws_stderr u = ws_stderr t @ wait_stderr (ws_queue t) es" by auto
    with wait_callback can_arrive_first [of i "ws_conns s" r' rs "arrivals es"] show ?thesis
      by (intro exI [of _ "Arrive r' # es"]) (simp del: can_arrive.simps(2) add: on_receipt_arrive)
  next
    case (wait_take r' q)
    show ?thesis
    proof (cases "r_Status r' = StatusHeld")
      case True
      with wait_take have "ws_result t = None" by (simp add: verdict_def)
      with rest obtain es where "can_arrive (ws_conns t) (arrivals es)" "wait_loop (ws_queue t) es = r"
        "ws_stderr u = ws_stderr t @ wait_stderr (ws_queue t) es" by auto
      with wait_take True show ?thesis by (intro exI [of _ "Poll # es"]) auto
    next
      case False
      with wait_take have "ws_result t \<noteq> None" by (simp add: verdict_def)
      with over wait_take False less.prems(3) show ?thesis
        by (intro exI [of _ "[Poll]"]) (auto simp: verdict_def split: if_splits)
    qed
  next
    case wait_fire
    with rest less.prems(2) show ?thesis by auto
  next
    case wait_timeout
    with over less.prems(3) show ?thesis by (intro exI [of _ "[]"]) auto
  qed
qed

lemma schedule_run:
  assumes "can_arrive (ws_conns s) (arrivals es)" "ws_result s = None"
  shows "\<exists>u. wait_reach s u \<and> ws_result u = Some (wait_loop (ws_queue s) es) \<and>
    ws_stderr u = ws_stderr s @ wait_stderr (ws_queue s) es"
  using assms
proof (induction es arbitrary: s)
  case Nil
  then show ?case using wait_times_out by simp
next
  case (Cons e es)
  have on: ?case
    if t: "wait_step s t" "ws_result t = None" "can_arrive (ws_conns t) (arrivals es)"
      and "wait_loop (ws_queue t) es = wait_loop (ws_queue s) (e # es)"
      and "ws_stderr t @ wait_stderr (ws_queue t) es = ws_stderr s @ wait_stderr (ws_queue s) (e # es)" for t
    using Cons.IH [OF t(3,2)] that(4,5) wait_reach_first [OF t(1)] by metis
  show ?case
  proof (cases e)
    case (Arrive r)
    with Cons.prems obtain i where i: "i < length (ws_conns s)" "ws_conns s ! i = r # tl (ws_conns s ! i)"
      "can_arrive ((ws_conns s)[i := tl (ws_conns s ! i)]) (arrivals es)" by (auto simp: neq_Nil_conv)
    from on [OF wait_callback [OF Cons.prems(2) i(1,2)]] show ?thesis
      using Cons.prems(2) i(3) by (simp add: Arrive on_receipt_arrive split del: if_split)
  next
    case Poll
    show ?thesis
    proof (cases "ws_queue s")
      case Nil
      with Cons.IH [of s] Cons.prems show ?thesis by (simp add: Poll)
    next
      case (Cons r q)
      note step = wait_take [OF Cons.prems(2) Cons]
      show ?thesis
      proof (cases "verdict r")
        case None
        then have "r_Status r = StatusHeld" by (simp add: verdict_def split: if_splits)
        with on [OF step] None Cons Cons.prems show ?thesis by (simp add: Poll)
      next
        case (Some v)
        then show ?thesis
          by (intro exI [of _ "s\<lparr>ws_queue := q, ws_stderr := ws_stderr s @ [receipt_line r],
              ws_seen := ws_seen s @ [r], ws_result := verdict r\<rparr>"] conjI wait_reach_first [OF step reachable_init])
            (auto simp: Poll Cons verdict_def split: if_splits)
      qed
    qed
  next
    case Expire
    with Cons.prems(2) show ?thesis using wait_times_out by simp
  qed
qed

lemma run_wait_left: "run_steps wait_step s ss \<Longrightarrow> length ss \<le> wait_left s"
proof (induction ss arbitrary: s)
  case (Cons t ss)
  then have "length ss \<le> wait_left t" "wait_left t < wait_left s" by (simp_all add: wait_left_step)
  then show ?case by simp
qed simp

text \<open>The callback of a connection never waits for the loop.\<close>

lemma wait_callback_free:
  assumes "ws_result s = None" "i < length (ws_conns s)" "ws_conns s ! i \<noteq> []"
  shows "\<exists>t. wait_step s t \<and> ws_conns t = (ws_conns s)[i := tl (ws_conns s ! i)]"
proof -
  obtain r rs where c: "ws_conns s ! i = r # rs" using assms(3) by (cases "ws_conns s ! i") auto
  show ?thesis
    by (rule exI, rule conjI, rule wait_callback [OF assms(1,2) c]) (simp add: c)
qed

section \<open>What the loop has seen\<close>

definition receipt_count :: "receipt list list \<Rightarrow> nat" where
  "receipt_count conns = sum_list (map length conns)"

lemma receipt_count_first:
  "i < length conns \<Longrightarrow> conns ! i = r # rs \<Longrightarrow> receipt_count conns = Suc (receipt_count (conns[i := rs]))"
  unfolding receipt_count_def by (rule conns_shrink)

text \<open>
  \<open>a\<close> is the order in which the receipts handed over so far arrived: what the loop saw and
  what waits in the channel is that order, with dropped receipts left out.
\<close>

definition wait_inv :: "receipt list list \<Rightarrow> wait_state \<Rightarrow> bool" where
  "wait_inv conns s \<longleftrightarrow>
     length (ws_queue s) \<le> 16 \<and>
     length (ws_seen s) + length (ws_queue s) + receipt_count (ws_conns s) \<le> receipt_count conns \<and>
     (\<exists>a. (\<forall>xs. can_arrive (ws_conns s) xs \<longrightarrow> can_arrive conns (a @ xs)) \<and> subseq (ws_seen s @ ws_queue s) a \<and>
        (receipt_count conns \<le> 16 \<longrightarrow> ws_seen s @ ws_queue s = a)) \<and>
     filter (\<lambda>l. l \<noteq> ''receipt dropped: receiver is behind'') (ws_stderr s) = map receipt_line (ws_seen s) \<and>
     upto_final (ws_seen s) = ws_seen s \<and>
     (case ws_result s of
        None \<Rightarrow> first_final (ws_seen s) = None
      | Some r \<Rightarrow>
          (case first_final (ws_seen s) of
             None \<Rightarrow> ws_fired s \<and> r = Some ReceiptTimeout
           | Some st \<Rightarrow> r = (if st = StatusDenied \<or> st = StatusExpired then Some (ReceiptFailed st) else None)))"

lemma receipt_line_reported: "receipt_line r \<noteq> ''receipt dropped: receiver is behind''"
  by (simp add: receipt_line_def)

lemma first_final_snoc:
  "first_final (rs @ [r]) =
     (case first_final rs of None \<Rightarrow> if r_Status r = StatusHeld then None else Some (r_Status r) | Some s \<Rightarrow> Some s)"
  by (simp add: first_final_def find_append split: option.split)

lemma upto_final_held: "first_final xs = None \<Longrightarrow> upto_final (xs @ ys) = xs @ upto_final ys"
  by (induction xs) (auto simp: first_final_Cons split: if_splits)

lemma first_final_last:
  "upto_final xs = xs \<Longrightarrow> first_final xs = Some st \<Longrightarrow> xs \<noteq> [] \<and> r_Status (last xs) = st"
proof (induction xs)
  case (Cons x xs)
  then show ?case by (cases "r_Status x = StatusHeld") (auto simp: first_final_Cons)
qed (simp add: first_final_def)

lemma first_final_none: "first_final xs = None \<longleftrightarrow> (\<forall>x \<in> set xs. r_Status x = StatusHeld)"
  by (auto simp: first_final_def find_None_iff)

lemma wait_inv_start: "wait_inv conns (wait_start conns)"
  by (auto simp: wait_inv_def wait_start_def first_final_def intro: exI [of _ "[]"])

lemma wait_inv_arrive:
  assumes "wait_inv conns s" "i < length (ws_conns s)" "ws_conns s ! i = r # rs" "ws_result s = None"
  shows "\<exists>a. (\<forall>xs. can_arrive ((ws_conns s)[i := rs]) xs \<longrightarrow> can_arrive conns (a @ xs)) \<and>
    subseq (ws_seen s @ ws_queue s @ [r]) a \<and> subseq (ws_seen s @ ws_queue s) a \<and>
    (receipt_count conns \<le> 16 \<longrightarrow> ws_seen s @ ws_queue s @ [r] = a \<and> length (ws_queue s) < 16)"
proof -
  obtain a where a: "\<forall>xs. can_arrive (ws_conns s) xs \<longrightarrow> can_arrive conns (a @ xs)"
    "subseq (ws_seen s @ ws_queue s) a" "receipt_count conns \<le> 16 \<longrightarrow> ws_seen s @ ws_queue s = a"
    using assms(1) unfolding wait_inv_def by blast
  have "length (ws_queue s) < receipt_count conns"
    using assms(1) receipt_count_first [OF assms(2,3)] by (simp add: wait_inv_def)
  moreover have "can_arrive conns ((a @ [r]) @ xs)" if "can_arrive ((ws_conns s)[i := rs]) xs" for xs
    using a(1) can_arrive_first [OF assms(2,3) that] by (simp del: can_arrive.simps)
  moreover have "subseq ((ws_seen s @ ws_queue s) @ [r]) (a @ [r])" using a(2) by (intro list_emb_append_mono) auto
  moreover have "subseq (ws_seen s @ ws_queue s) (a @ [r])"
    using a(2) subseq_order.trans by fastforce
  ultimately show ?thesis using a(3) by (intro exI [of _ "a @ [r]"]) auto
qed

lemma wait_inv_step:
  assumes "wait_inv conns s" "wait_step s t"
  shows "wait_inv conns t"
  using assms(2)
proof (cases rule: wait_step.cases)
  case (wait_callback i r rs)
  with assms(1) wait_inv_arrive [OF assms(1) wait_callback(3,4,2)] receipt_count_first [OF wait_callback(3,4)]
  show ?thesis by (simp add: wait_inv_def on_receipt_def) blast
next
  case (wait_take r q)
  with assms(1) show ?thesis
    by (auto simp: wait_inv_def verdict_def first_final_snoc receipt_line_reported upto_final_held)
next
  case wait_fire
  with assms(1) show ?thesis by (simp add: wait_inv_def)
next
  case wait_timeout
  with assms(1) show ?thesis by (simp add: wait_inv_def)
qed

interpretation waiting: invariant_system "\<lambda>s. s = wait_start conns" wait_step "wait_inv conns" for conns
  by unfold_locales (use wait_inv_start wait_inv_step in blast)+

lemma can_arrive_mem: "can_arrive conns rs \<Longrightarrow> r \<in> set rs \<Longrightarrow> \<exists>c \<in> set conns. r \<in> set c"
proof (induction conns rs rule: can_arrive.induct)
  case (2 conns x rs)
  then obtain i where i: "i < length conns" "conns ! i \<noteq> []" "hd (conns ! i) = x"
    "can_arrive (conns[i := tl (conns ! i)]) rs" by auto
  show ?case
  proof (cases "r = x")
    case True
    with i show ?thesis by (intro bexI [of _ "conns ! i"]) auto
  next
    case False
    with 2(1) [of i] 2(3) i obtain c where c: "c \<in> set (conns[i := tl (conns ! i)])" "r \<in> set c" by auto
    then have "c \<in> set conns \<or> c = tl (conns ! i)" by (auto dest: set_update_subset_insert [THEN subsetD])
    with c(2) i(1,2) show ?thesis by (auto dest: list.set_sel(2) intro: nth_mem)
  qed
qed simp

lemma wait_seen_written:
  assumes "wait_inv conns s" "r \<in> set (ws_seen s)"
  shows "\<exists>c \<in> set conns. r \<in> set c"
proof -
  obtain a where "can_arrive conns (a @ [])" "subseq (ws_seen s @ ws_queue s) a"
    using assms(1) unfolding wait_inv_def by (metis can_arrive.simps(1))
  with assms(2) can_arrive_mem [of conns a r] show ?thesis by (auto dest: list_emb_set)
qed

text \<open>While nothing can be dropped, the loop sees the receipts in an order in which they can arrive.\<close>

lemma wait_seen_order:
  assumes "wait_inv conns s" "receipt_count conns \<le> 16"
  shows "\<exists>a. can_arrive conns a \<and> prefix (ws_seen s) a"
proof -
  obtain a where "can_arrive conns (a @ [])" "ws_seen s @ ws_queue s = a"
    using assms unfolding wait_inv_def by (metis can_arrive.simps(1))
  then show ?thesis by (metis append_Nil2 prefixI)
qed

lemma wait_inv_result:
  assumes "wait_inv conns s" "ws_result s = Some r"
  shows "exit_code r = (if \<forall>x \<in> set (ws_seen s). r_Status x = StatusHeld then 3
      else if r_Status (last (ws_seen s)) = StatusDenied \<or> r_Status (last (ws_seen s)) = StatusExpired then 2 else 0)"
    and "exit_code r = 3 \<Longrightarrow> ws_fired s"
proof -
  have inv: "case first_final (ws_seen s) of None \<Rightarrow> ws_fired s \<and> r = Some ReceiptTimeout
      | Some st \<Rightarrow> r = (if st = StatusDenied \<or> st = StatusExpired then Some (ReceiptFailed st) else None)"
    and up: "upto_final (ws_seen s) = ws_seen s"
    using assms by (simp_all add: wait_inv_def)
  show "exit_code r = (if \<forall>x \<in> set (ws_seen s). r_Status x = StatusHeld then 3
      else if r_Status (last (ws_seen s)) = StatusDenied \<or> r_Status (last (ws_seen s)) = StatusExpired then 2 else 0)"
  proof (cases "first_final (ws_seen s)")
    case None
    with inv show ?thesis by (simp add: first_final_none [symmetric] exit_code_def)
  next
    case (Some st)
    with inv first_final_last [OF up Some] show ?thesis by (simp add: first_final_none [symmetric] exit_code_def)
  qed
  show "exit_code r = 3 \<Longrightarrow> ws_fired s"
    using inv by (auto simp: exit_code_def split: option.splits if_splits)
qed

section \<open>The receipts of the connections\<close>

text \<open>The receipts among the calls a connection makes.\<close>

fun receipt_calls :: "inbox_call list \<Rightarrow> receipt list" where
  "receipt_calls [] = []"
| "receipt_calls (OnReceipt r # cs) = r # receipt_calls cs"
| "receipt_calls (OnMessage a b # cs) = receipt_calls cs"

lemma receipt_calls_map: "receipt_calls (map OnReceipt rs) = rs"
  by (induction rs) simp_all

definition carries_receipts :: "gostring list \<Rightarrow> receipt list \<Rightarrow> bool" where
  "carries_receipts reads rs \<longleftrightarrow>
     concat reads = concat (map (\<lambda>r. print_json (receipt_json r) @ [CHR 0x0A]) rs) \<and> reads_fit [] reads \<and>
     (\<forall>r \<in> set rs. receipt_utf8 r \<and> length (print_json (receipt_json r)) < maxFrameBytes)"

lemma connections_receipts:
  assumes "list_all2 carries_receipts connections rss" "has_OnReceipt cfg"
  shows "map (\<lambda>reads. receipt_calls (handle cfg reads)) connections = rss"
  using assms(1)
proof (induction rule: list_all2_induct)
  case (Cons reads connections rs rss)
  then have "handle cfg reads = map OnReceipt rs"
    using assms(2) unfolding carries_receipts_def by (intro handle_receipts) auto
  with Cons show ?case by (simp add: receipt_calls_map)
qed simp

section \<open>One connection\<close>

text \<open>
  With one connection and room for all its receipts nothing is lost: what the loop saw, what
  the channel holds and what is still to be handed over are the receipts, in order.
\<close>

definition line_inv :: "receipt list \<Rightarrow> wait_state \<Rightarrow> bool" where
  "line_inv rs s \<longleftrightarrow>
     (\<exists>c. ws_conns s = [c] \<and> ws_seen s @ ws_queue s @ c = rs) \<and> ws_stderr s = map receipt_line (ws_seen s)"

lemma line_inv_step:
  assumes "length rs \<le> 16" "line_inv rs s" "wait_step s t"
  shows "line_inv rs t"
  using assms(3)
proof (cases rule: wait_step.cases)
  case (wait_callback i r c)
  with assms(1,2) have "length (ws_queue s) < 16" by (auto simp: line_inv_def)
  with wait_callback assms(2) show ?thesis by (auto simp: line_inv_def on_receipt_def)
qed (use assms(2) in \<open>auto simp: line_inv_def\<close>)

lemma line_inv_start: "line_inv rs (wait_start [rs])"
  by (simp add: line_inv_def wait_start_def)

interpretation one_line: invariant_system "\<lambda>s. s = wait_start [rs]" wait_step "\<lambda>s. length rs \<le> 16 \<longrightarrow> line_inv rs s"
  for rs
  by unfold_locales (use line_inv_start line_inv_step in blast)+

text \<open>When only the timer can move, everything has been seen or the wait is over.\<close>

lemma wait_only_timer:
  assumes "line_inv rs s" "ws_result s = None" "\<And>t. wait_step s t \<Longrightarrow> ws_fired t" "\<not> ws_fired s"
  shows "ws_seen s = rs"
proof -
  obtain c where c: "ws_conns s = [c]" "ws_seen s @ ws_queue s @ c = rs" using assms(1) by (auto simp: line_inv_def)
  have "c = []"
  proof (rule ccontr)
    assume "c \<noteq> []"
    then obtain r c' where "ws_conns s ! 0 = r # c'" using c(1) by (cases c) simp_all
    from wait_callback [OF assms(2) _ this] c(1) assms(3,4) show False by fastforce
  qed
  moreover have "ws_queue s = []"
  proof (rule ccontr)
    assume "ws_queue s \<noteq> []"
    then obtain r q where "ws_queue s = r # q" by (cases "ws_queue s") simp_all
    from assms(3) [OF wait_take [OF assms(2) this]] assms(4) show False by simp
  qed
  ultimately show ?thesis using c(2) by simp
qed

text \<open>A receipt that ends the wait is the first that can.\<close>

lemma upto_final_ends:
  assumes "first_final xs = Some st"
  shows "first_final (xs @ ys) = Some st" "upto_final (xs @ ys) = upto_final xs"
  using assms
proof (induction xs)
  case (Cons x xs)
  { case 1 with Cons.IH show ?case by (auto simp: first_final_Cons split: if_splits) }
  { case 2 with Cons.IH show ?case by (auto simp: first_final_Cons split: if_splits) }
qed (simp_all add: first_final_def)

section \<open>Properties\<close>

text \<open>
  The schedules that \<open>wait_loop\<close> and \<open>wait_stderr\<close> are run on are exactly the runs of the
  goroutines: a result and what was printed until then belong to some run of the
  connections, the loop and the timer if and only if they are those of a schedule in which
  the receipts of each connection arrive in their order.
\<close>

theorem wait_schedules:
  "(\<exists>t. wait_reach (wait_start conns) t \<and> ws_result t = Some r \<and> ws_stderr t = lines) \<longleftrightarrow>
   (\<exists>es. can_arrive conns (arrivals es) \<and> wait_loop [] es = r \<and> wait_stderr [] es = lines)"
  using run_schedule [of "wait_start conns" _ r] schedule_run [of "wait_start conns"]
  by (fastforce simp: wait_start_def)

text \<open>
  Property C25: from the wire to the exit code, whoever is faster.  A session writes at most
  sixteen receipts over one connection, cut into reads in any way, and one of them is final.
  Then a wait that ends has either reported exactly the receipts up to the first final one,
  each once and in order, and exits with 2 when that one denies the message or reports it
  expired and with 0 otherwise; or the time was up, only held receipts had been reported, and
  it exits with 3: the \<^verbatim>\<open>select\<close> may take the timer although a receipt is ready.  Before the
  timer fires the wait cannot come to rest without the first kind of result: receipts that
  say the message is held never end it, and no receipt is lost.
\<close>

theorem receipt_exit_code:
  assumes "carries_receipts reads rs" "has_OnReceipt cfg" "length rs \<le> 16" "first_final rs = Some st"
    and "wait_reach (wait_start [receipt_calls (handle cfg reads)]) s"
  shows "(ws_result s = Some r \<longrightarrow>
      exit_code r = (if st = StatusDenied \<or> st = StatusExpired then 2 else 0) \<and>
        ws_stderr s = map receipt_line (upto_final rs) \<or>
      exit_code r = 3 \<and> ws_fired s \<and>
        (\<exists>k. ws_stderr s = map receipt_line (take k rs) \<and> (\<forall>x \<in> set (take k rs). r_Status x = StatusHeld))) \<and>
    (\<not> ws_fired s \<and> (\<forall>t. wait_step s t \<longrightarrow> ws_fired t) \<longrightarrow>
      (\<exists>r'. ws_result s = Some r' \<and> exit_code r' = (if st = StatusDenied \<or> st = StatusExpired then 2 else 0) \<and>
        ws_stderr s = map receipt_line (upto_final rs)))"
proof -
  have start: "wait_reach (wait_start [rs]) s"
    using connections_receipts [of "[reads]" "[rs]" cfg] assms(1,2,5) by simp
  have line: "line_inv rs s" and inv: "wait_inv [rs] s"
    using one_line.inv_reachable [OF start] waiting.inv_reachable [OF start] assms(3) by simp_all
  from line obtain ys where rs: "rs = ws_seen s @ ys" and out: "ws_stderr s = map receipt_line (ws_seen s)"
    by (auto simp: line_inv_def)
  have up: "upto_final (ws_seen s) = ws_seen s" using inv by (simp add: wait_inv_def)
  have ended: "exit_code r = (if st = StatusDenied \<or> st = StatusExpired then 2 else 0) \<and>
        ws_stderr s = map receipt_line (upto_final rs) \<or>
      exit_code r = 3 \<and> ws_fired s \<and> first_final (ws_seen s) = None" if "ws_result s = Some r" for r
  proof (cases "first_final (ws_seen s)")
    case None
    with wait_inv_result [OF inv that] show ?thesis by (simp add: first_final_none)
  next
    case (Some st')
    with upto_final_ends [OF Some, of ys] assms(4) rs have "st' = st" by simp
    with Some first_final_last [OF up Some] wait_inv_result(1) [OF inv that] first_final_none [of "ws_seen s"]
      upto_final_ends(2) [OF Some, of ys] up rs out show ?thesis by auto
  qed
  have "ws_result s \<noteq> None \<and> first_final (ws_seen s) \<noteq> None"
    if "\<not> ws_fired s" "\<forall>t. wait_step s t \<longrightarrow> ws_fired t"
  proof (cases "ws_result s")
    case None
    with wait_only_timer [OF line None] that have "ws_seen s = rs" by blast
    with None inv assms(4) show ?thesis by (simp add: wait_inv_def)
  next
    case (Some r)
    with ended [OF Some] that(1) inv show ?thesis by (auto simp: wait_inv_def split: option.splits)
  qed
  then have rest: "\<exists>r'. ws_result s = Some r' \<and> exit_code r' = (if st = StatusDenied \<or> st = StatusExpired then 2 else 0) \<and>
      ws_stderr s = map receipt_line (upto_final rs)"
    if "\<not> ws_fired s" "\<forall>t. wait_step s t \<longrightarrow> ws_fired t"
    using that ended by (cases "ws_result s") auto
  have "\<exists>k. ws_stderr s = map receipt_line (take k rs) \<and> (\<forall>x \<in> set (take k rs). r_Status x = StatusHeld)"
    if "first_final (ws_seen s) = None"
    using that out rs first_final_none [of "ws_seen s"] by (intro exI [of _ "length (ws_seen s)"]) simp
  with ended [of r] rest show ?thesis by blast
qed

text \<open>
  Property C27: the wait for receipts ends and holds nobody up.  From its start at most two
  steps per receipt and two more can be taken, as long as there is no result another step can
  be taken, and until then every connection that has a receipt to hand over can do so at
  once, also when the channel is full.
\<close>

theorem wait_ends:
  assumes "run_steps wait_step (wait_start conns) ss" "s = last (wait_start conns # ss)"
  shows "length ss \<le> 2 * receipt_count conns + 2 \<and>
    (ws_result s = None \<longrightarrow>
       (\<exists>t. wait_step s t) \<and>
       (\<forall>i < length (ws_conns s). ws_conns s ! i \<noteq> [] \<longrightarrow>
          (\<exists>t. wait_step s t \<and> ws_conns t = (ws_conns s)[i := tl (ws_conns s ! i)])))"
proof -
  have "length ss \<le> 2 * receipt_count conns + 2"
    using run_wait_left [OF assms(1)] by (simp add: wait_left_def wait_start_def receipt_count_def)
  with wait_progress wait_callback_free show ?thesis by blast
qed

text \<open>
  Property C26: what the exit code says about the receipts the sessions wrote.  When each
  connection of the temporary inbox carries receipt lines, cut into reads in any way, then
  however the connections, the loop and the timer interleave: the exit code is 3 when all
  receipts seen were held, and then the time was up; otherwise it is 2 when the last receipt
  seen denies the message or reports it expired, and 0 for any other.  What is seen was
  written by a session, is reported on its own line and in order, and with at most 16
  receipts it is the beginning of an order in which they can arrive.
\<close>

theorem wait_truthful:
  assumes "list_all2 carries_receipts connections rss" "has_OnReceipt cfg"
    and "wait_reach (wait_start (map (\<lambda>reads. receipt_calls (handle cfg reads)) connections)) s"
    and "ws_result s = Some r"
  shows "exit_code r = (if \<forall>x \<in> set (ws_seen s). r_Status x = StatusHeld then 3
      else if r_Status (last (ws_seen s)) = StatusDenied \<or> r_Status (last (ws_seen s)) = StatusExpired then 2 else 0) \<and>
    (exit_code r = 3 \<longrightarrow> ws_fired s) \<and>
    (\<forall>x \<in> set (ws_seen s). \<exists>rs \<in> set rss. x \<in> set rs) \<and>
    filter (\<lambda>l. l \<noteq> ''receipt dropped: receiver is behind'') (ws_stderr s) = map receipt_line (ws_seen s) \<and>
    (receipt_count rss \<le> 16 \<longrightarrow> (\<exists>a. can_arrive rss a \<and> prefix (ws_seen s) a))"
proof -
  have inv: "wait_inv rss s"
    using waiting.inv_reachable assms(3) connections_receipts [OF assms(1,2)] by simp
  then have "filter (\<lambda>l. l \<noteq> ''receipt dropped: receiver is behind'') (ws_stderr s) = map receipt_line (ws_seen s)"
    by (simp add: wait_inv_def)
  with wait_inv_result [OF inv assms(4)] wait_seen_written [OF inv] wait_seen_order [OF inv] show ?thesis by blast
qed

end
