(* ===== verification/Delivery.thy ===== *)
theory Delivery
  imports Inbox
begin

text \<open>
  Sessions and senders put together.  \<open>registered\<close> and \<open>key_published\<close> say what a running
  session leaves in the sessions directory: its registry file and its key file.  The
  lemmas follow one message from there: the lookup finds the session, the client its
  token, one connection goes to its socket, and the inbox at that socket hands the message
  to its handler.
\<close>

section \<open>What a session leaves in the directory\<close>

definition registered :: "world \<Rightarrow> int \<Rightarrow> rawmap \<Rightarrow> bool" where
  "registered w pid ms \<longleftrightarrow>
     names_distinct w \<and> valid_pid pid \<and>
     (case SessionsDir w of
        Inl e \<Rightarrow> False
      | Inr dir \<Rightarrow>
          (case readdir w dir of Inl e \<Rightarrow> False | Inr names \<Rightarrow> registry_name pid \<in> set names) \<and>
          openNoFollow w (Join [dir, registry_name pid]) = Inr (registry_file ms)) \<and>
     json_ok (JObj ms) \<and> numbers_ok (JObj ms) \<and> length (print_json (JObj ms)) \<le> maxRegistryFileBytes"

definition key_published :: "world \<Rightarrow> int \<Rightarrow> gostring \<Rightarrow> gostring \<Rightarrow> gostring \<Rightarrow> bool" where
  "key_published w pid sock token start \<longleftrightarrow>
     valid_pid pid \<and> peerTokenRe token \<and> ValidString start \<and>
     length (print_json (key_json token start)) \<le> maxKeyFileBytes \<and>
     (case (SessionsDir w, keyFileSuffix w sock) of
        (Inr dir, Inr suff) \<Rightarrow>
          (case readdir w dir of
             Inl e \<Rightarrow> False
           | Inr names \<Rightarrow> Itoa pid @ suff \<in> set names \<and>
               list_all (\<lambda>n. HasSuffix n suff \<longrightarrow> n = Itoa pid @ suff) names) \<and>
          openNoFollow w (Join [dir, Itoa pid @ suff]) = Inr (key_file token start)
      | _ \<Rightarrow> False)"

lemma registered_found:
  assumes "registered w pid ms"
  obtains path where "FindByPID w pid = Inr (session_of w path pid ms)"
proof -
  obtain dir names where d: "SessionsDir w = Inr dir" "readdir w dir = Inr names"
    "registry_name pid \<in> set names" "openNoFollow w (Join [dir, registry_name pid]) = Inr (registry_file ms)"
    using assms by (auto simp: registered_def split: sum.splits)
  have r: "names_distinct w" "valid_pid pid" "json_ok (JObj ms)" "numbers_ok (JObj ms)"
    "length (print_json (JObj ms)) \<le> maxRegistryFileBytes"
    using assms by (simp_all only: registered_def)
  from readSessionFile_registry_file [OF d(4) r(3-5)] have
    "readSessionFile w (Join [dir, registry_name pid]) pid =
      Inr (session_of w (Join [dir, registry_name pid]) pid ms)" .
  with FindByPID_iff [OF r(1) d(1,2)] r(2) d(3) that show thesis by blast
qed

lemma key_published_found:
  assumes "key_published w pid sock token start"
  shows "LookupToken w sock = Inr token"
proof -
  obtain dir suff names where d: "SessionsDir w = Inr dir" "keyFileSuffix w sock = Inr suff"
    "readdir w dir = Inr names" "Itoa pid @ suff \<in> set names"
    "list_all (\<lambda>n. HasSuffix n suff \<longrightarrow> n = Itoa pid @ suff) names"
    "openNoFollow w (Join [dir, Itoa pid @ suff]) = Inr (key_file token start)"
    using assms by (auto simp: key_published_def split: sum.splits)
  have n: "KeyFileName w pid sock = Inr (Itoa pid @ suff)" using d(2) by (simp add: KeyFileName_def)
  have k: "0 \<le> pid" "pid \<le> max_int" "peerTokenRe token" "ValidString start"
    "length (print_json (key_json token start)) \<le> maxKeyFileBytes"
    using assms by (simp_all only: key_published_def valid_pid_def)
  show ?thesis by (rule published_lookup [OF d(1,3) n k(1,2) d(4,2) d(5) [unfolded list_all_iff] d(6) k(3-5)])
qed

lemma auth_line_short:
  assumes "peerTokenRe token"
  shows "length (print_json (auth_json \<lparr>af_Type = ''auth'', af_Token = token\<rparr>)) \<le> 400"
proof -
  have "list_all (\<lambda>c. code_of c < 0x80) token" "length token = 32"
    using assms by (auto simp: peerTokenRe_def list_all_iff is_lower_hex_code)
  then have "length (json_string token) \<le> 194" using ascii_json_string [of token] by simp
  moreover have "length (json_string ''type'') \<le> 26" "length (json_string ''auth'') \<le> 26"
    "length (json_string ''token'') \<le> 32"
    using ascii_json_string [of "''type''"] ascii_json_string [of "''auth''"] ascii_json_string [of "''token''"]
    by simp_all
  ultimately show ?thesis by (simp add: auth_json_def)
qed

lemma auth_line_fits:
  "peerTokenRe token \<Longrightarrow>
     length (print_json (auth_json \<lparr>af_Type = ''auth'', af_Token = token\<rparr>)) < maxFrameBytes"
  using auth_line_short [of token] by (simp add: maxFrameBytes_def)

section \<open>Properties\<close>

text \<open>
  Property C1: end to end, from what a session publishes to what its handler is called with.
  A session has a registry file that gives its socket and a key file with its token; a
  client that was given no token sends to its PID a message with text, a known priority and
  a well-formed return address or none.  If the network works, the send succeeds on one
  connection to that socket, its first line is the token, and an inbox that reads what was
  written, in whatever pieces, calls its handler exactly once, with the frame's text and the
  sender's address; the frame names the session unless the caller named one.
\<close>

theorem published_session_receives:
  assumes "registered w pid ms" "map_get ms ''messagingSocketPath'' = Some (JStr sock)" "sock \<noteq> []"
    and "key_published w pid sock token start"
    and "\<not> c_NoAuth c" "c_Token c = []" "SelfSocketPath w \<noteq> sock" "net_ok w n"
    and "sid = (if m_SessionID m = [] then str ms ''sessionId'' else m_SessionID m)"
    and "frame w rnd (m\<lparr>m_SessionID := sid\<rparr>) = Inr f" "length (print_json (user_json f)) < maxFrameBytes"
    and "has_OnMessage cfg"
  shows "\<exists>line. SendToPID w n rnd c pid m =
      ([Dialed sock, DeadlineSet (send_deadline c n), Wrote line] @ wait_events w @ [HalfClosed, Drained, Closed],
       Inr (uf_MsgID f)) \<and>
    split_at (CHR 0x0A) line =
      [print_json (auth_json \<lparr>af_Type = ''auth'', af_Token = token\<rparr>), print_json (user_json f), []] \<and>
    uf_SessionID f = sid \<and>
    (\<forall>reads. concat reads = line \<and> reads_fit [] reads \<longrightarrow>
       handle cfg reads = [OnMessage (coerce_utf8 (fp_Content (uf_Message f))) (m_From m)])"
proof -
  let ?line = "wire_line token (print_json (user_json f))"
  obtain path where s: "FindByPID w pid = Inr (session_of w path pid ms)" using assms(1) by (rule registered_found)
  have token: "resolveToken w c sock = Inr token"
    using assms(5-7) key_published_found [OF assms(4)] by (simp add: resolveToken_def)
  have t: "peerTokenRe token" using assms(4) by (simp add: key_published_def)
  then have "token \<noteq> []" by (auto simp: peerTokenRe_def)
  obtain evs where "writeFrame w n c sock (user_json f) = (evs, Inr ())"
    using assms(8,11) token writeFrame_ok [of w n c sock "user_json f"] by blast
  moreover from writeFrame_Inr [OF this] token have
    "evs = [Dialed sock, DeadlineSet (send_deadline c n), Wrote ?line] @ wait_events w @ [HalfClosed, Drained, Closed]"
    by (metis sum.inject(2))
  moreover have "s_SocketPath (session_of w path pid ms) = sock"
    "s_SessionID (session_of w path pid ms) = str ms ''sessionId''"
    using assms(2) by (simp_all add: session_of_def str_def)
  moreover from calculation have "SendToPID w n rnd c pid m = SendToSocket w n rnd c sock (m\<lparr>m_SessionID := sid\<rparr>)"
    using s assms(3,9) by (cases "m_SessionID m = []") (simp_all add: SendToPID_def Send_def)
  ultimately have "SendToPID w n rnd c pid m =
      ([Dialed sock, DeadlineSet (send_deadline c n), Wrote ?line] @ wait_events w @ [HalfClosed, Drained, Closed],
       Inr (uf_MsgID f))"
    using assms(10) by (simp add: SendToSocket_def)
  moreover have "split_at (CHR 0x0A) ?line =
      [print_json (auth_json \<lparr>af_Type = ''auth'', af_Token = token\<rparr>), print_json (user_json f), []]"
    using split_wire_line [OF print_json_no_newline [OF printable_user [OF frame_MsgV [OF assms(10)]]]]
      \<open>token \<noteq> []\<close> by simp
  moreover have "uf_SessionID f = sid" using assms(10) by (auto simp: frame_Inr_iff)
  moreover have "handle cfg reads = [OnMessage (coerce_utf8 (fp_Content (uf_Message f))) (m_From m)]"
    if "concat reads = ?line \<and> reads_fit [] reads" for reads
    using handle_wire_line [OF _ _ assms(10,12,11) auth_line_fits [OF t]] that by simp
  ultimately show ?thesis by blast
qed

text \<open>
  Property C18: a reply goes back to the sender.  When a message that names the sender's own
  socket as its return address is delivered, whatever bytes that path holds, the address its
  handler is called with is one that \<^verbatim>\<open>SendToAddress\<close> resolves to that socket, so that
  replying to it is sending to that socket.
\<close>

theorem reply_returns:
  assumes "SendToSocket w n rnd c p m = (evs, Inr i)" "Wrote (concat reads) \<in> set evs"
    and "reads_fit [] reads" "has_OnMessage cfg" "resolveToken w c p = Inr token"
    and "length (print_json (auth_json \<lparr>af_Type = ''auth'', af_Token = token\<rparr>)) < maxFrameBytes"
    and "m_From m = Address back"
  shows "\<exists>body addr. handle cfg reads = [OnMessage body addr] \<and>
    SendToAddress w' n' rnd' c' addr reply = SendToSocket w' n' rnd' c' back reply"
proof -
  obtain body where "handle cfg reads = [OnMessage body (Address back)]"
    using send_delivered [OF assms(1-6)] assms(7) by auto
  moreover have "ParseAddress (Address back) = Inr back" by (rule addr.dec_enc) simp
  ultimately show ?thesis by (simp add: SendToAddress_def)
qed

end
