(* ===== verification/Secrecy.thy ===== *)
theory Secrecy
  imports CcSend
begin

text \<open>
  Where the inherited token goes.  A session passes its token to the programs it starts in
  the environment.  \<open>retoken\<close> replaces its value; the lemmas carry the change through the
  package, function by function, and show that nothing but the bytes written to the
  session's own socket depends on it.
\<close>

named_theorems retoken_simps

definition retoken :: "gostring \<Rightarrow> world \<Rightarrow> world" where
  "retoken t w = w\<lparr>environ := (environ w)(''CLAUDE_CODE_MESSAGING_TOKEN'' := Some t)\<rparr>"

lemma retoken_fields [retoken_simps]:
  "goos (retoken t w) = goos w" "getwd (retoken t w) = getwd w" "getuid (retoken t w) = getuid w"
  "getpid (retoken t w) = getpid w" "readdir (retoken t w) = readdir w" "entry_at (retoken t w) = entry_at w"
  "open_follow (retoken t w) = open_follow w" "readfile (retoken t w) = readfile w"
  "ps_lstart (retoken t w) = ps_lstart w" "kill0 (retoken t w) = kill0 w"
  "open_process (retoken t w) = open_process w" "print_table (retoken t w) = print_table w"
  "dial_ok (retoken t w) = dial_ok w" "float_overflow (retoken t w) = float_overflow w"
  by (simp_all add: retoken_def)

lemma Getenv_retoken [retoken_simps]:
  "Getenv (retoken t w) k = (if k = ''CLAUDE_CODE_MESSAGING_TOKEN'' then t else Getenv w k)"
  by (simp add: Getenv_def retoken_def)

section \<open>What does not read the token\<close>

lemma paths_retoken [retoken_simps]:
  "SelfSocketPath (retoken t w) = SelfSocketPath w" "SelfToken (retoken t w) = t"
  "UserHomeDir (retoken t w) = UserHomeDir w" "TempDir (retoken t w) = TempDir w"
  by (simp_all add: SelfSocketPath_def SelfToken_def UserHomeDir_def TempDir_def retoken_simps)

lemma dirs_retoken [retoken_simps]:
  "SelfAddress (retoken t w) = SelfAddress w" "SessionsDir (retoken t w) = SessionsDir w"
  "SocketsDir (retoken t w) = SocketsDir w"
  by (simp_all add: SelfAddress_def SessionsDir_def ConfigDir_def SocketsDir_def Let_def retoken_simps)

lemma fallback_retoken [retoken_simps]: "fallback_socket_path (retoken t w) = fallback_socket_path w"
  by (intro ext) (simp add: fallback_socket_path_def Let_def retoken_simps)

lemma DefaultSocketPath_retoken [retoken_simps]: "DefaultSocketPath (retoken t w) = DefaultSocketPath w"
  by (intro ext) (unfold DefaultSocketPath_def Abs_def retoken_simps, rule refl)

lemma canonicalSocketPath_retoken [retoken_simps]: "canonicalSocketPath (retoken t w) = canonicalSocketPath w"
  by (intro ext) (unfold canonicalSocketPath_def Abs_def retoken_simps, rule refl)

lemma processAlive_retoken [retoken_simps]: "processAlive (retoken t w) = processAlive w"
  by (intro ext) (unfold processAlive_def processAlive_unix_def processAlive_windows_def retoken_simps, rule refl)

lemma processStartToken_retoken [retoken_simps]: "processStartToken (retoken t w) = processStartToken w"
  by (intro ext) (unfold processStartToken_def processStartToken_linux_def processStartToken_darwin_def
      processStartToken_other_def processStartToken_windows_def retoken_simps, rule refl)

lemma readSmallFile_retoken [retoken_simps]: "readSmallFile (retoken t w) = readSmallFile w"
  by (intro ext)
    (unfold readSmallFile_def openNoFollow_def openNoFollow_unix_def openNoFollow_windows_def retoken_simps, rule refl)

lemma lookup_step_retoken [retoken_simps]: "lookup_step (retoken t w) = lookup_step w"
  by (intro ext)
    (unfold lookup_step_def key_candidate_def readKeyFile_def rankKeyOwner_def retoken_simps, rule refl)

lemma LookupToken_retoken [retoken_simps]: "LookupToken (retoken t w) = LookupToken w"
  by (intro ext) (unfold LookupToken_def keyFileSuffix_def retoken_simps, rule refl)

lemma session_of_retoken [retoken_simps]: "session_of (retoken t w) = session_of w"
  by (intro ext) (unfold session_of_def intOf_def epochMS_def float_to_int_def retoken_simps, rule refl)

lemma registry_entry_retoken [retoken_simps]: "registry_entry (retoken t w) = registry_entry w"
  by (intro ext) (unfold registry_entry_def readSessionFile_def retoken_simps, rule refl)

lemma ListSessions_retoken [retoken_simps]: "ListSessions (retoken t w) = ListSessions w"
  by (unfold ListSessions_def retoken_simps) (rule refl)

lemma Probe_retoken [retoken_simps]: "Probe (retoken t w) = Probe w"
  by (intro ext) (unfold Probe_def retoken_simps, rule refl)

lemma Reachable_retoken [retoken_simps]: "Reachable (retoken t w) = Reachable w"
  by (intro ext) (unfold Reachable_def retoken_simps, rule refl)

lemma escaped_rune_retoken [retoken_simps]: "escaped_rune (retoken t w) = escaped_rune w"
  by (intro ext) (unfold escaped_rune_def IsPrint_def retoken_simps, rule refl)

lemma quote_retoken [retoken_simps]: "quote (retoken t w) = quote w"
proof
  fix s
  have "quote_body (retoken t w) s = quote_body w s"
  proof (induction w s rule: quote_body.induct)
    case (2 w c s)
    then show ?case by (cases "decode_rune (c # s)") (simp add: escaped_rune_retoken)
  qed simp
  then show "quote (retoken t w) s = quote w s" by (simp add: quote_def)
qed

lemma pickOne_retoken [retoken_simps]: "pickOne (retoken t w) = pickOne w"
  by (intro ext) (unfold pickOne_def retoken_simps, rule refl)

lemma FindByPID_retoken [retoken_simps]: "FindByPID (retoken t w) = FindByPID w"
  by (intro ext) (unfold FindByPID_def retoken_simps, rule refl)

lemma findBySessionID_retoken [retoken_simps]: "findBySessionID (retoken t w) = findBySessionID w"
  by (intro ext) (unfold findBySessionID_def retoken_simps, rule refl)

lemma findByName_retoken [retoken_simps]: "findByName (retoken t w) = findByName w"
  by (intro ext) (unfold findByName_def retoken_simps, rule refl)

lemma frame_retoken [retoken_simps]: "frame (retoken t w) = frame w"
  by (intro ext) (unfold frame_def wrapEnvelope_def attrs_def retoken_simps, rule refl)

lemma Listen_retoken [retoken_simps]: "Listen (retoken t w) = Listen w"
  by (intro ext) (unfold Listen_def ensureSocketDir_def checkSocketDirOwnership_def checkSocketDirOwnership_unix_def
      checkSocketDirOwnership_windows_def withTightUmask_def retoken_simps, rule refl)

section \<open>What does\<close>

fun redact :: "net_event \<Rightarrow> net_event" where
  "redact (Wrote bs) = Wrote []"
| "redact e = e"

text \<open>Two uses of the network that differ at most in the bytes written to one socket.\<close>

definition same_io :: "gostring \<Rightarrow> net_event list \<times> 'a \<Rightarrow> net_event list \<times> 'a \<Rightarrow> bool" where
  "same_io sock r r' \<longleftrightarrow>
     r' = r \<or> snd r' = snd r \<and> map redact (fst r') = map redact (fst r) \<and> Dialed sock \<in> set (fst r)"

lemma same_io_refl [simp, intro]: "same_io sock r r"
  by (simp add: same_io_def)

lemma same_io_of: "(\<And>x. same_io sock (f x) (g x)) \<Longrightarrow> same_io sock (io_of r f) (io_of r g)"
  by (cases r) auto

lemma exchange_retoken: "exchange (retoken t w) = exchange w"
  by (intro ext) (unfold exchange_def retoken_simps, rule refl)

lemma exchange_redact:
  "snd (exchange w n p l) = snd (exchange w n p l') \<and>
   map redact (fst (exchange w n p l)) = map redact (fst (exchange w n p l'))"
  by (auto simp: exchange_def Let_def split: prod.split option.split bool.split)

lemma resolveToken_retoken:
  assumes "SelfToken w \<noteq> []" "t \<noteq> []"
  shows "resolveToken (retoken t w) c p = resolveToken w c p \<or>
    p = SelfSocketPath w \<and> (\<exists>u. resolveToken w c p = Inr u) \<and> resolveToken (retoken t w) c p = Inr t"
  using assms by (auto simp: resolveToken_def retoken_simps)

lemma writeFrame_retoken:
  assumes "SelfToken w \<noteq> []" "t \<noteq> []"
  shows "same_io (SelfSocketPath w) (writeFrame w n c p v) (writeFrame (retoken t w) n c p v)"
proof (cases "resolveToken (retoken t w) c p = resolveToken w c p")
  case True
  have "writeFrame (retoken t w) n c p v = writeFrame w n c p v"
    unfolding writeFrame_def exchange_retoken True ..
  then show ?thesis by simp
next
  case False
  then obtain u where "p = SelfSocketPath w" "resolveToken w c p = Inr u" "resolveToken (retoken t w) c p = Inr t"
    using resolveToken_retoken [OF assms] by blast
  then show ?thesis
    using exchange_redact [of w n p "wire_line u (print_json v)" "wire_line t (print_json v)"]
    by (auto simp: same_io_def writeFrame_def exchange_retoken Let_def split: prod.splits option.splits)
qed

lemma SendToSocket_retoken:
  assumes "SelfToken w \<noteq> []" "t \<noteq> []"
  shows "same_io (SelfSocketPath w) (SendToSocket w n rnd c p m) (SendToSocket (retoken t w) n rnd c p m)"
  unfolding SendToSocket_def retoken_simps
proof (rule same_io_of)
  fix f
  show "same_io (SelfSocketPath w)
      (case writeFrame w n c p (user_json f) of (evs, Inl e) \<Rightarrow> (evs, Inl e) | (evs, Inr u) \<Rightarrow> (evs, Inr (uf_MsgID f)))
      (case writeFrame (retoken t w) n c p (user_json f) of
         (evs, Inl e) \<Rightarrow> (evs, Inl e) | (evs, Inr u) \<Rightarrow> (evs, Inr (uf_MsgID f)))"
    using writeFrame_retoken [OF assms, of n c p "user_json f"]
    by (auto simp: same_io_def split: prod.splits sum.splits)
qed

lemma Send_retoken:
  assumes "SelfToken w \<noteq> []" "t \<noteq> []"
  shows "same_io (SelfSocketPath w) (Send w n rnd c s m) (Send (retoken t w) n rnd c s m)"
  using SendToSocket_retoken [OF assms] by (simp add: Send_def)

lemma rename_retoken:
  assumes "SelfToken w \<noteq> []" "t \<noteq> []"
  shows "same_io (SelfSocketPath w) (rename w n rnd c p sid name) (rename (retoken t w) n rnd c p sid name)"
  using writeFrame_retoken [OF assms] by (simp add: rename_def same_io_of)

lemma target_retoken:
  assumes "SelfToken w \<noteq> []" "t \<noteq> []"
  shows "rel_sum (=) (same_io (SelfSocketPath w)) (send_to_target w n rnd acc m) (send_to_target (retoken t w) n rnd acc m)"
  using Send_retoken [OF assms] SendToSocket_retoken [OF assms]
  by (simp add: send_to_target_def SendToSessionID_def SendToPID_def SendToName_def SendToAddress_def Let_def
      same_io_of retoken_simps)

definition same_run :: "gostring \<Rightarrow> send_run \<Rightarrow> send_run \<Rightarrow> bool" where
  "same_run sock r r' \<longleftrightarrow>
     r' = r \<or> r'\<lparr>o_net := []\<rparr> = r\<lparr>o_net := []\<rparr> \<and> map redact (o_net r') = map redact (o_net r) \<and>
       Dialed sock \<in> set (o_net r)"

lemma same_run_refl [simp, intro]: "same_run sock r r"
  by (simp add: same_run_def)

lemma same_run_inbox: "same_run sock r r' \<Longrightarrow> same_run sock (with_inbox path r) (with_inbox path r')"
  by (cases r; cases r') (auto simp: same_run_def with_inbox_def)

lemma send_and_wait_retoken:
  assumes "SelfToken w \<noteq> []" "t \<noteq> []"
  shows "same_run (SelfSocketPath w) (send_and_wait w n rnd sched acc st m)
    (send_and_wait (retoken t w) n rnd sched acc st m)"
  using target_retoken [OF assms, of n rnd acc m]
proof (cases rule: rel_sum.cases)
  case (2 r r')
  then show ?thesis
    by (cases r; cases r'; cases "snd r")
      (auto simp: send_and_wait_def same_io_def same_run_def send_failed_def)
qed (simp add: send_and_wait_def)

lemma sendCmd_retoken:
  assumes "SelfToken w \<noteq> []" "t \<noteq> []"
  shows "same_run (SelfSocketPath w) (sendCmd w y st n rnd sched args) (sendCmd (retoken t w) y st n rnd sched args)"
proof -
  have "outgoing_message (retoken t w) = outgoing_message w"
    by (intro ext) (unfold outgoing_message_def retoken_simps, rule refl)
  then show ?thesis
    using send_and_wait_retoken [OF assms] same_run_inbox [OF send_and_wait_retoken [OF assms]]
    by (simp add: sendCmd_def retoken_simps split: sum.split prod.split)
qed

lemma same_io_lib: "same_io sock r r' \<Longrightarrow> same_io sock (lib_io r) (lib_io r')"
  by (auto simp: same_io_def lib_io_def)

lemma renameCmd_retoken:
  assumes "SelfToken w \<noteq> []" "t \<noteq> []"
  shows "same_io (SelfSocketPath w) (renameCmd w n rnd args) (renameCmd (retoken t w) n rnd args)"
proof -
  have s: "same_io (SelfSocketPath w) (lib_io (io_of r (\<lambda>s. RenameSession w n rnd c s name)))
      (lib_io (io_of r (\<lambda>s. RenameSession (retoken t w) n rnd c s name)))" for r c name
    by (intro same_io_lib same_io_of) (simp add: RenameSession_def rename_retoken [OF assms])
  have a: "same_io (SelfSocketPath w) (lib_io (io_of r (\<lambda>p. Rename w n rnd c p name)))
      (lib_io (io_of r (\<lambda>p. Rename (retoken t w) n rnd c p name)))" for r c name
    by (intro same_io_lib same_io_of) (simp add: Rename_def rename_retoken [OF assms])
  show ?thesis
    unfolding renameCmd_def Let_def retoken_simps by (simp add: s a split: sum.split prod.split)
qed

section \<open>Properties\<close>

text \<open>What is printed by the commands that may differ; a listing is compared as a whole.\<close>

fun run_stdout :: "outcome \<Rightarrow> gostring list" where
  "run_stdout (Sent r) = o_stdout r"
| "run_stdout (Printed ls) = ls"
| "run_stdout _ = []"

fun run_net :: "outcome \<Rightarrow> net_event list" where
  "run_net (Sent r) = o_net r"
| "run_net (Renamed r) = fst r"
| "run_net _ = []"

text \<open>
  Property C4: the token a session hands down in the environment stays between the two.
  Whatever the command line, a run of the tool with another token in its place is the same
  run in every respect, unless it connects to the session's own socket; and then it prints
  the same, on both streams, ends with the same error and exit code, and makes the same
  calls on the network, the bytes written apart.
\<close>

theorem inherited_token_confined:
  assumes "SelfToken w \<noteq> []" "t \<noteq> []"
    and "r = run w order y st n rnd sched args" "r' = run (retoken t w) order y st n rnd sched args"
  shows "r' = r \<or>
    Dialed (SelfSocketPath w) \<in> set (run_net r) \<and> run_stdout r' = run_stdout r \<and> run_stderr r' = run_stderr r \<and>
    run_error r' = run_error r \<and> main_exit r' = main_exit r \<and>
    map redact (run_net r') = map redact (run_net r)"
proof -
  have l: "listCmd (retoken t w) = listCmd w"
    by (intro ext) (unfold listCmd_def run_probes_def retoken_simps, rule refl)
  have s: "selfCmd (retoken t w) = selfCmd w"
    using assms(1,2) by (simp add: selfCmd_def tokenState_def retoken_simps)
  consider "r' = r"
    | rest where "r = Sent (sendCmd w y st n rnd sched rest)" "r' = Sent (sendCmd (retoken t w) y st n rnd sched rest)"
    | rest where "r = Renamed (renameCmd w n rnd rest)" "r' = Renamed (renameCmd (retoken t w) n rnd rest)"
  proof (cases args)
    case Nil
    then show ?thesis by (intro that(1)) (simp add: assms(3,4) run_def)
  next
    case (Cons cmd rest)
    show ?thesis
    proof (cases "cmd = ''send'' \<or> cmd = ''rename''")
      case True
      then show ?thesis using that(2,3) [of rest] by (auto simp: assms(3,4) run_def Cons)
    next
      case False
      then show ?thesis by (intro that(1)) (simp add: assms(3,4) run_def Cons l s)
    qed
  qed
  then show ?thesis
  proof cases
    case 2
    then show ?thesis
      using sendCmd_retoken [OF assms(1,2), of y st n rnd sched rest]
      by (cases "sendCmd w y st n rnd sched rest"; cases "sendCmd (retoken t w) y st n rnd sched rest")
        (auto simp: same_run_def main_exit_def)
  next
    case 3
    then show ?thesis
      using renameCmd_retoken [OF assms(1,2), of n rnd rest] by (auto simp: same_io_def main_exit_def)
  qed simp
qed

end
