(* ===== verification/Witnesses.thy ===== *)
theory Witnesses
  imports Serve Idle Rebind Waiting Delivery Secrecy
begin

text \<open>
  The properties applied to concrete worlds, messages, files and runs: each theorem here
  uses one property at an input where all its hypotheses hold.
\<close>

section \<open>Messages\<close>

definition w0 :: world where
  "w0 = \<lparr>goos = Linux,
     environ = (\<lambda>k. if k = ''HOME'' then Some ''/h'' else None),
     getwd = Inr ''/h'', getuid = 1000, getpid = 7,
     readdir = (\<lambda>_. Inr []), entry_at = (\<lambda>_. EntryError NotExist),
     open_follow = (\<lambda>_. Inl NotExist), readfile = (\<lambda>_. Inl NotExist),
     ps_lstart = (\<lambda>_. Inl NotExist), kill0 = (\<lambda>_. KillOther), open_process = (\<lambda>_. False),
     print_table = (\<lambda>_. False), dial_ok = (\<lambda>_ _. False), float_overflow = (\<lambda>_ _. 0)\<rparr>"

definition m0 :: message where
  "m0 = \<lparr>m_Text = ''x'', m_Priority = [], m_SessionID = [], m_From = ''uds:/s'', m_FromName = ''a'',
     m_MsgID = ''i'', m_UUID = []\<rparr>"

definition f0 :: userFrame where
  "f0 = \<lparr>uf_MsgV = 1, uf_MsgID = ''i'', uf_Type = ''user'',
     uf_Message = \<lparr>fp_Role = ''user'', fp_Content = wrapEnvelope w0 ''uds:/s'' ''a'' ''x''\<rparr>,
     uf_Priority = ''next'', uf_From = ''uds:/s'', uf_SessionID = [], uf_UUID = []\<rparr>"

lemma valid_s: "validAddress ''uds:/s''"
  by (simp add: validAddress_def addrSafe_def)

lemma frame_m0: "frame w0 rnd m0 = Inr f0"
  by (simp add: frame_def m0_def f0_def valid_s effective_priority_def PriorityNext_def protocolVersion_def)

theorem frame_no_forgery_witness:
  "\<exists>a b. fp_Content (uf_Message f0) = a @ (''</'' @ envelopeTag) @ b \<and> b = ''>''"
proof -
  have e: "fp_Content (uf_Message f0) =
      (''<'' @ envelopeTag @ attrs w0 ''uds:/s'' ''a'' @ [CHR ''>'', CHR 0x0A] @ escapeBody ''x'' @ [CHR 0x0A])
      @ (''</'' @ envelopeTag) @ ''>''"
    by (simp add: f0_def wrapEnvelope_def)
  show ?thesis using e frame_no_forgery[OF frame_m0 _ e] by (auto simp: m0_def)
qed

theorem frame_header_witness:
  "takeWhile (\<lambda>c. c \<noteq> CHR ''>'') (fp_Content (uf_Message f0)) =
    ''<cross-session-message'' @ '' from='' @ quote w0 ''uds:/s''
      @ (if sanitizeName ''a'' \<noteq> [] then '' from-name='' @ quote w0 (sanitizeName ''a'') else [])"
  using frame_header[OF frame_m0] by (simp add: m0_def)

theorem frame_from_attribute_witness:
  "HasPrefix (fp_Content (uf_Message f0)) (''<cross-session-message from='' @ [CHR 0x22] @ ''uds:/s'' @ [CHR 0x22])"
  using frame_from_attribute[OF frame_m0] by (simp add: m0_def f0_def)

theorem frame_msg_id_witness:
  "\<exists>f. frame w0 (Inr (replicate 16 0)) (m0\<lparr>m_MsgID := []\<rparr>) = Inr f \<and> is_uuid4 (uf_MsgID f)"
proof -
  obtain f where f: "frame w0 (Inr (replicate 16 0)) (m0\<lparr>m_MsgID := []\<rparr>) = Inr f"
    by (simp add: frame_def m0_def valid_s effective_priority_def newUUID_def Let_def)
  from frame_msg_id[OF f] f show ?thesis by simp
qed

theorem frame_accepts_witness:
  "(\<exists>f. frame w0 (Inl NotExist) m0 = Inr f) \<and> \<not> (\<exists>f. frame w0 (Inl NotExist) (m0\<lparr>m_Priority := ''soon''\<rparr>) = Inr f)"
  using frame_accepts[of w0 "Inl NotExist" m0] frame_accepts[of w0 "Inl NotExist" "m0\<lparr>m_Priority := ''soon''\<rparr>"]
  by (simp add: m0_def valid_s)

section \<open>Paths and start tokens\<close>

theorem canonical_normal_form_witness:
  "canonicalSocketPath w0 ''/a//b'' = Inr ''/a/b'' \<and> IsAbs ''/a/b'' \<and> ''..'' \<notin> set (segments ''/a/b'') \<and>
   canonicalSocketPath w0 ''/a/b'' = Inr ''/a/b''"
proof -
  have c: "canonicalSocketPath w0 ''/a//b'' = Inr ''/a/b''" by code_simp
  have "cwd_absolute w0" by (simp add: cwd_absolute_def w0_def IsAbs_def)
  from c canonical_normal_form[OF c this] show ?thesis by blast
qed

theorem default_path_fits_witness: "length (DefaultSocketPath w0 7) \<le> maxSocketPathBytes"
  by (rule default_path_fits) (simp_all add: w0_def Getenv_def max_int_def)

definition stat0 :: "gostring list" where
  "stat0 = replicate 19 ''0'' @ [''42'']"

theorem start_token_field_22_witness:
  "ProcessStartToken (w0\<lparr>readfile := (\<lambda>_. Inr (stat_line 7 ''a) (b'' stat0))\<rparr>) 7 = Inr ''42''"
proof -
  have "ProcessStartToken (w0\<lparr>readfile := (\<lambda>_. Inr (stat_line 7 ''a) (b'' stat0))\<rparr>) 7 = Inr (stat0 ! (22 - 3))"
    by (rule start_token_field_22) (simp_all add: w0_def stat0_def stat_field_def list_all_iff)
  then show ?thesis by (simp add: stat0_def nth_append)
qed

section \<open>Key files\<close>

text \<open>One live session, PID 7, that published a token for \<^verbatim>\<open>/s\<close>.\<close>

definition tok :: gostring where "tok = replicate 32 (CHR ''a'')"

definition suff0 :: gostring where
  "suff0 = ''.'' @ EncodeToString (Sum256 ''/s'') @ ''.key''"

definition w2 :: world where
  "w2 = w0\<lparr>readdir := (\<lambda>_. Inr [Itoa 7 @ suff0]), entry_at := (\<lambda>_. Entry (key_file tok ''42'')),
     kill0 := (\<lambda>_. KillOK), readfile := (\<lambda>_. Inr (stat_line 7 ''a'' stat0))\<rparr>"

definition dir0 :: gostring where "dir0 = Join [Join [''/h'', ''.claude''], ''sessions'']"

lemma SessionsDir_w:
  "SessionsDir w0 = Inr dir0" "SessionsDir w2 = Inr dir0"
  by (simp_all add: SessionsDir_def ConfigDir_def UserHomeDir_def Getenv_def w0_def w2_def dir0_def)

lemma canonical_s: "canonicalSocketPath w ''/s'' = Inr ''/s''"
  by (simp add: canonicalSocketPath_def Abs_def IsAbs_def Clean_def segments_def)

lemma suffix_s: "keyFileSuffix w ''/s'' = Inr suff0"
  by (simp add: keyFileSuffix_def canonical_s suff0_def)

lemma name_s: "KeyFileName w 7 ''/s'' = Inr (Itoa 7 @ suff0)"
  by (simp add: KeyFileName_def suffix_s)

lemma readdir_w2: "readdir w2 d = Inr [Itoa 7 @ suff0]"
  by (simp add: w2_def)

lemma tok_wellformed: "peerTokenRe tok"
  by (simp add: peerTokenRe_def tok_def list_all_iff is_lower_hex_code)

lemma valid_42: "ValidString ''42''"
  by (intro ValidString_ascii) simp

lemma key_json_small: "length (print_json (key_json tok ''42'')) \<le> maxKeyFileBytes"
proof -
  have "list_all (\<lambda>c. code_of c < 0x80) tok" by (simp add: tok_def list_all_iff)
  from ascii_json_string[OF this] ascii_json_string[of "''42''"] ascii_json_string[of "''peerToken''"]
    ascii_json_string[of "''procStart''"]
  show ?thesis by (simp add: key_json_def maxKeyFileBytes_def tok_def)
qed

lemma open_w2: "openNoFollow w2 p = Inr (key_file tok ''42'')"
  by (simp add: openNoFollow_entry w2_def w0_def)

lemma token_w2: "processStartToken w2 7 = Inr ''42''"
proof -
  have "list_all stat_field stat0" "stat0 \<noteq> []" "length stat0 = 20" "stat0 ! 19 = ''42''"
    by (simp_all add: stat0_def stat_field_def list_all_iff nth_append)
  from parse_stat_line[OF this(1,2), of 7 7 "''a''"] this(3,4) show ?thesis
    by (simp add: processStartToken_def processStartToken_linux_def w2_def w0_def)
qed

lemma rank_w2: "rankKeyOwner w2 7 ''42'' = 2"
  by (simp add: rankKeyOwner_def token_w2) (simp add: processAlive_def processAlive_unix_def w2_def w0_def)

lemma candidate_w2: "key_candidate w2 d suff0 (Itoa 7 @ suff0) = Some (tok, 2)"
  using KeyFileName_recognised[OF name_s[of w2] suffix_s[of w2]]
    readKeyFile_key_file[OF open_w2 tok_wellformed valid_42 key_json_small] rank_w2
  by (simp add: key_candidate_def max_int_def)

lemma lookup_w2: "LookupToken w2 ''/s'' = Inr tok"
  unfolding LookupToken_listing[OF SessionsDir_w(2) suffix_s readdir_w2]
  by (simp add: choose_step_def candidate_w2)

theorem lookup_token_best_witness:
  "LookupToken w2 ''/s'' = Inr tok"
  using lookup_token_best[OF SessionsDir_w(2) suffix_s readdir_w2, of tok]
    candidate_w2[of dir0] by fastforce

theorem token_provenance_witness:
  "\<exists>path f. entry_at w2 path = Entry f \<and> fstat f = Inr (True, int (length (contents f))) \<and> peerTokenRe tok"
proof -
  have ne: "tok \<noteq> []" by (simp add: tok_def)
  obtain path f where "openNoFollow w2 path = Inr f" "goos w2 \<noteq> Windows \<longrightarrow> entry_at w2 path = Entry f" "peerTokenRe tok"
    using token_provenance [OF lookup_w2 ne] by blast
  moreover from this(1) have "f = key_file tok ''42''" by (simp add: open_w2)
  then have "fstat f = Inr (True, int (length (contents f)))"
    by (simp add: key_file_def Let_def)
  ultimately show ?thesis by (auto simp: w2_def w0_def)
qed

theorem published_token_found_witness: "LookupToken w2 ''/s'' = Inr tok"
  by (rule published_token_found[OF SessionsDir_w(2) readdir_w2 name_s _ _ _ suffix_s _ open_w2 tok_wellformed
        valid_42 key_json_small]) (simp_all add: max_int_def)

theorem corroborated_owner_wins_witness:
  "\<exists>t name ds pid kf. LookupToken w2 ''/s'' = Inr t \<and> name \<in> {Itoa 7 @ suff0} \<and> keyFileRe name = Some ds \<and>
    Atoi_digits ds = Some pid \<and> readKeyFile w2 (Join [dir0, name]) = Inr kf \<and> t = PeerToken kf \<and>
    pid > 1 \<and> processAlive w2 pid \<and> ProcStart kf \<noteq> [] \<and> processStartToken w2 pid = Inr (ProcStart kf)"
  using corroborated_owner_wins[OF SessionsDir_w(2) suffix_s readdir_w2 _ candidate_w2[of dir0]] by simp

theorem lookup_spelling_witness: "LookupToken w2 ''//./s'' = Inr tok"
proof -
  have "LookupToken w2 ''//./s'' = Inr tok \<longleftrightarrow> LookupToken w2 ''/s'' = Inr tok"
    by (rule lookup_spelling[of "''//./s''" "''/s''", THEN conjunct2])
      (simp_all add: IsAbs_def significant_def segments_def)
  with lookup_w2 show ?thesis by simp
qed

section \<open>The registry\<close>

text \<open>One registered session, PID 7, with an id, a name, a socket and a start time.\<close>

definition reg_raw :: rawmap where
  "reg_raw = [(''sessionId'', JStr ''u''), (''name'', JStr ''n''), (''messagingSocketPath'', JStr ''/s''),
     (''startedAt'', JNum (Itoa 1700000000000))]"

definition w3 :: world where
  "w3 = w0\<lparr>readdir := (\<lambda>_. Inr [''7.json'']), entry_at := (\<lambda>_. Entry (registry_file reg_raw))\<rparr>"

lemma SessionsDir_w3: "SessionsDir w3 = Inr dir0"
  by (simp add: SessionsDir_def ConfigDir_def UserHomeDir_def Getenv_def w0_def w3_def dir0_def)

lemma readdir_w3: "readdir w3 d = Inr [''7.json'']"
  by (simp add: w3_def)

lemma distinct_w3: "names_distinct w3"
  by (simp add: names_distinct_def SessionsDir_w3 readdir_w3)

lemma Itoa_start: "Itoa 1700000000000 = ''1700000000000''"
  by (simp add: Itoa_def nat_str.simps digit_char_def) code_simp

lemma reg_small: "length (print_json (JObj reg_raw)) \<le> maxRegistryFileBytes"
  using ascii_json_string[of "''sessionId''"] ascii_json_string[of "''u''"] ascii_json_string[of "''name''"]
    ascii_json_string[of "''n''"] ascii_json_string[of "''messagingSocketPath''"] ascii_json_string[of "''/s''"]
    ascii_json_string[of "''startedAt''"]
  by (simp add: reg_raw_def Itoa_start maxRegistryFileBytes_def)

lemma reg_json_ok: "json_ok (JObj reg_raw)"
  by (simp add: json_ok_def reg_raw_def Itoa_start nat_literal_def is_digit_def maxNestingDepth_def ValidString_ascii
      del: ValidString.simps)

lemma reg_numbers_ok: "numbers_ok (JObj reg_raw)"
  using ParseFloat_exact[of 1700000000000] by (auto simp: reg_raw_def)

lemma open_w3: "openNoFollow w3 p = Inr (registry_file reg_raw)"
  by (simp add: openNoFollow_entry w3_def w0_def)

lemma read_w3: "readSessionFile w3 p 7 = Inr (session_of w3 p 7 reg_raw)"
  by (rule readSessionFile_registry_file [OF open_w3 reg_json_ok reg_numbers_ok reg_small])

definition s3 :: session where "s3 = session_of w3 (Join [dir0, ''7.json'']) 7 reg_raw"

lemma Itoa_7: "Itoa 7 = ''7''"
  by code_simp

lemma list_w3: "ListSessions w3 = Inr [s3]"
proof -
  have "registry_entry w3 dir0 ''7.json'' = Some s3"
    unfolding registry_entry_iff
    by (intro exI[of _ 7]) (simp add: valid_pid_def max_int_def registry_name_def Itoa_7 read_w3 s3_def)
  then show ?thesis by (simp add: ListSessions_def SessionsDir_w3 readdir_w3)
qed

lemma s3_fields: "s_PID s3 = 7" "s_SessionID s3 = ''u''" "s_Name s3 = ''n''" "s_SocketPath s3 = ''/s''"
  by (simp_all add: s3_def session_of_def str_def map_get_def reg_raw_def)

lemma find_w3: "FindByPID w3 7 = Inr s3"
  by (simp add: FindByPID_def list_w3 s3_fields)

theorem listing_sorted_witness:
  "ListSessions w3 = Inr [s3] \<and> sorted (map start_key [s3]) \<and> distinct (map s_PID [s3])"
  using listing_sorted[OF distinct_w3 list_w3] list_w3 by simp

theorem listing_complete_witness:
  "\<exists>ss. ListSessions w3 = Inr ss \<and> s3 \<in> set ss"
proof -
  obtain ss where ss: "ListSessions w3 = Inr ss"
    "\<forall>s. s \<in> set ss \<longleftrightarrow> (\<exists>pid. 0 \<le> pid \<and> pid \<le> max_int \<and> Itoa pid @ ''.json'' \<in> set [''7.json''] \<and>
       readSessionFile w3 (Join [dir0, Itoa pid @ ''.json'']) pid = Inr s)"
    using listing_complete[OF SessionsDir_w3 readdir_w3] by blast
  have "s3 \<in> set ss"
    unfolding ss(2)[rule_format]
    by (intro exI[of _ 7]) (simp add: max_int_def Itoa_7 read_w3 s3_def)
  with ss(1) show ?thesis by blast
qed

theorem sessions_well_typed_witness: "0 \<le> s_PID s3 \<and> ValidString (s_Name s3)"
proof -
  have "s3 \<in> set [s3]" "(''name'', s_Name) \<in> set string_fields" by (simp_all add: string_fields_def)
  with sessions_well_typed [OF list_w3, of s3] show ?thesis by fast
qed

theorem find_by_pid_refines_witness:
  "FindByPID w3 7 = Inr s3 \<and> FindByPID w3 8 = Inl (NotFoundPID 8)"
proof
  show "FindByPID w3 7 = Inr s3"
    unfolding find_by_pid_refines[OF distinct_w3 SessionsDir_w3 readdir_w3]
    by (simp add: max_int_def Itoa_7 read_w3 s3_def)
  have "Itoa 8 = ''8''" by code_simp
  then show "FindByPID w3 8 = Inl (NotFoundPID 8)"
    unfolding find_by_pid_refines[OF distinct_w3 SessionsDir_w3 readdir_w3] by simp
qed

theorem guarded_lookup_safe_witness:
  "FindByPIDForSession w3 7 ''v'' = Inl (NotFoundOtherSession 7)"
  using guarded_lookup_safe[of w3 7 "''v''" "''t''"] s3_fields find_w3 by auto

theorem lookup_outcomes_witness: "findBySessionID w3 ''u'' 0 = Inr s3"
  using lookup_outcomes[OF list_w3, of "''u''" "findBySessionID w3 ''u'' 0" 0 "[s3]" "[]" s3]
  by (simp add: s3_fields Reachable_def Probe_def w3_def w0_def)

theorem registry_roundtrip_witness:
  "\<exists>s. readSessionFile w3 ''/r/7.json'' 7 = Inr s \<and> s_SocketPath s = ''/s'' \<and> s_Status s = [] \<and>
     s_StartedAt s = 1700000000000 \<and> s_UpdatedAt s = zero_time"
proof -
  have d: "distinct (map fst reg_raw)" by (simp add: reg_raw_def)
  from registry_roundtrip [OF open_w3 reg_json_ok reg_numbers_ok reg_small d, of "''/r/7.json''" 7] obtain s where s:
    "readSessionFile w3 ''/r/7.json'' 7 = Inr s"
    "\<forall>(k, get) \<in> set string_fields.
       (\<forall>v. (k, JStr v) \<in> set reg_raw \<longrightarrow> get s = v) \<and> (k \<notin> fst ` set reg_raw \<longrightarrow> get s = [])"
    "\<forall>(k, get) \<in> set time_fields.
       (\<forall>n. (k, JNum (Itoa n)) \<in> set reg_raw \<and> 0 \<le> n \<and> n < 2 ^ 53 \<longrightarrow>
          get s = (if n \<le> maxSaneEpochMS then n else zero_time)) \<and>
       (k \<notin> fst ` set reg_raw \<longrightarrow> get s = zero_time)"
    by blast
  have m: "(''messagingSocketPath'', s_SocketPath) \<in> set string_fields" "(''status'', s_Status) \<in> set string_fields"
    "(''startedAt'', s_StartedAt) \<in> set time_fields" "(''updatedAt'', s_UpdatedAt) \<in> set time_fields"
    by (simp_all add: string_fields_def time_fields_def)
  have "(''messagingSocketPath'', JStr ''/s'') \<in> set reg_raw" "''status'' \<notin> fst ` set reg_raw"
    "(''startedAt'', JNum (Itoa 1700000000000)) \<in> set reg_raw" "''updatedAt'' \<notin> fst ` set reg_raw"
    by (simp_all add: reg_raw_def)
  with bspec [OF s(2) m(1)] bspec [OF s(2) m(2)] bspec [OF s(3) m(3)] bspec [OF s(3) m(4)] s(1)
  show ?thesis by (auto simp: maxSaneEpochMS_def)
qed

theorem small_file_bounded_witness: "length (print_json (JObj reg_raw)) \<le> maxRegistryFileBytes"
proof -
  have "readSmallFile w3 p maxRegistryFileBytes = Inr (print_json (JObj reg_raw))" for p
    using reg_small by (simp add: readSmallFile_def open_w3 registry_file_def Let_def read_limited_def del: print_json.simps)
  from small_file_bounded[OF this] show ?thesis by simp
qed

section \<open>Sending\<close>

text \<open>A network on which every call succeeds, and a client that sends no token.\<close>

definition n0 :: net where
  "n0 = \<lparr>n_now = 0, n_ctx_deadline = None, n_dial = None, n_write = (0, None), n_is_unix = True,
     n_ctx_done = None, n_close_write = None, n_drain = None\<rparr>"

definition c0 :: client where "c0 = New\<lparr>c_NoAuth := True\<rparr>"

definition m3 :: message where "m3 = m0\<lparr>m_FromName := []\<rparr>"

definition f3 :: "gostring \<Rightarrow> userFrame" where
  "f3 sid = \<lparr>uf_MsgV = 1, uf_MsgID = ''i'', uf_Type = ''user'',
     uf_Message = \<lparr>fp_Role = ''user'', fp_Content = ''x''\<rparr>,
     uf_Priority = ''next'', uf_From = ''uds:/s'', uf_SessionID = sid, uf_UUID = []\<rparr>"

lemma frame_m3: "frame w rnd (m3\<lparr>m_SessionID := sid\<rparr>) = Inr (f3 sid)"
  by (simp add: frame_def m3_def m0_def f3_def valid_s effective_priority_def PriorityNext_def protocolVersion_def)

lemma frame_m3': "frame w rnd m3 = Inr (f3 [])"
  using frame_m3[of w rnd "[]"] by (simp add: m3_def m0_def)

lemma Itoa_1: "Itoa 1 = ''1''"
  by code_simp

lemma user_small: "sid = [] \<or> sid = ''u'' \<Longrightarrow> length (print_json (user_json (f3 sid))) \<le> 1000"
  using ascii_json_string[of "''msgV''"] ascii_json_string[of "''msg_id''"] ascii_json_string[of "''i''"]
    ascii_json_string[of "''type''"] ascii_json_string[of "''user''"] ascii_json_string[of "''message''"]
    ascii_json_string[of "''role''"] ascii_json_string[of "''content''"] ascii_json_string[of "''x''"]
    ascii_json_string[of "''priority''"] ascii_json_string[of "''next''"] ascii_json_string[of "''from''"]
    ascii_json_string[of "''uds:/s''"] ascii_json_string[of "''session_id''"] ascii_json_string[of "''u''"]
  by (elim disjE) (simp_all add: user_json_def f3_def omitempty_def Itoa_1)

lemma write_c0:
  assumes "length (print_json v) < maxFrameBytes"
  shows "writeFrame w0 n0 c0 p v =
    ([Dialed p, DeadlineSet (send_deadline c0 n0), Wrote (print_json v @ [CHR 0x0A]), HalfClosed, Drained, Closed], Inr ())"
  using assms by (simp add: writeFrame_def Let_def resolveToken_def c0_def n0_def exchange_def wire_line_def w0_def)

definition sent :: "net_event list" where
  "sent = [Dialed ''/s'', DeadlineSet (send_deadline c0 n0),
     Wrote (print_json (user_json (f3 [])) @ [CHR 0x0A]), HalfClosed, Drained, Closed]"

lemma small_frame: "k \<le> 1000 \<Longrightarrow> k < maxFrameBytes"
  by (simp add: maxFrameBytes_def)

lemma send_m3: "SendToSocket w0 n0 rnd c0 ''/s'' m3 = (sent, Inr ''i'')"
  using write_c0[OF small_frame[OF user_small[of "[]"]], of "''/s''"]
  by (simp add: SendToSocket_def frame_m3' sent_def) (simp add: f3_def)

theorem send_wire_format_witness:
  "\<exists>line. Wrote line \<in> set sent \<and> split_at (CHR 0x0A) line = [print_json (user_json (f3 [])), []]"
proof -
  have t: "resolveToken w0 c0 ''/s'' = Inr []" by (simp add: resolveToken_def c0_def)
  obtain f line where l: "frame w0 (Inr []) m3 = Inr f"
    "sent = [Dialed ''/s'', DeadlineSet (send_deadline c0 n0), Wrote line]
      @ (if goos w0 = Darwin then [Waited (150 * Millisecond)] else []) @ [HalfClosed, Drained, Closed]"
    "split_at (CHR 0x0A) line = [print_json (user_json f), []]"
    using send_wire_format[OF send_m3, of "Inr []"] t by auto
  have "Wrote line \<in> set sent" unfolding l(2) by simp
  with l(1,3) show ?thesis by (intro exI[of _ line]) (simp add: frame_m3')
qed

theorem send_succeeds_iff_witness:
  "(\<exists>evs i. SendToSocket w0 n0 (Inr []) c0 ''/s'' m3 = (evs, Inr i)) \<and>
   \<not> (\<exists>evs i. SendToSocket w0 (n0\<lparr>n_drain := Some (NotExist, False)\<rparr>) (Inr []) c0 ''/s'' m3 = (evs, Inr i))"
proof -
  have "m_Text m3 = ''x''" "m_Priority m3 = []" "m_From m3 = ''uds:/s''" "m_MsgID m3 = ''i''"
    by (simp_all add: m3_def m0_def)
  then show ?thesis
    unfolding send_succeeds_iff using small_frame [OF user_small[of "[]"]]
    by (simp add: frame_m3' valid_s resolveToken_def c0_def net_ok_def n0_def)
qed

theorem no_auth_no_token_witness:
  "prefix (print_json (JStr ''x'') @ [CHR 0x0A]) (print_json (JStr ''x'') @ [CHR 0x0A])"
proof -
  have "length (print_json (JStr ''x'')) < maxFrameBytes"
    using ascii_json_string[of "''x''"] by (intro small_frame) simp
  from write_c0[OF this] have "Wrote (print_json (JStr ''x'') @ [CHR 0x0A]) \<in> set (fst (writeFrame w0 n0 c0 ''/s'' (JStr ''x'')))"
    by simp
  then show ?thesis by (intro no_auth_no_token[of c0 _ w0 n0 "''/s''"]) (simp_all add: c0_def)
qed

theorem connection_closed_witness:
  "last (fst (writeFrame w0 n0 c0 ''/s'' (JStr ''x''))) = Closed"
proof -
  have "length (print_json (JStr ''x'')) < maxFrameBytes"
    using ascii_json_string[of "''x''"] by (intro small_frame) simp
  from write_c0[OF this] connection_closed[of w0 n0 c0 "''/s''" "JStr ''x''"] show ?thesis by auto
qed

lemma write_w3:
  assumes "length (print_json v) < maxFrameBytes"
  shows "writeFrame w3 n0 c0 p v =
    ([Dialed p, DeadlineSet (send_deadline c0 n0), Wrote (print_json v @ [CHR 0x0A]), HalfClosed, Drained, Closed], Inr ())"
  using assms by (simp add: writeFrame_def Let_def resolveToken_def c0_def n0_def exchange_def wire_line_def w0_def w3_def)

theorem send_by_session_id_witness:
  "\<exists>ss s. ListSessions w3 = Inr ss \<and> s \<in> set ss \<and> s_SessionID s = ''u'' \<and>
     Dialed (s_SocketPath s) \<in> set (fst (SendToSessionID w3 n0 (Inr []) c0 ''u'' m3))"
proof -
  have "findBySessionID w3 ''u'' (client_probeTimeout c0) = Inr s3"
    by (simp add: findBySessionID_def list_w3 s3_fields pickOne_def)
  then have "snd (SendToSessionID w3 n0 (Inr []) c0 ''u'' m3) = Inr ''i''"
    using write_w3[OF small_frame[OF user_small[of "''u''"]], of "''/s''"] frame_m3[of w3 "Inr []" "''u''"]
    by (simp add: SendToSessionID_def Send_def s3_fields SendToSocket_def) (simp add: m3_def m0_def f3_def)
  then have "SendToSessionID w3 n0 (Inr []) c0 ''u'' m3 =
      (fst (SendToSessionID w3 n0 (Inr []) c0 ''u'' m3), Inr ''i'')"
    by (metis prod.collapse)
  from send_by_session_id[OF this] show ?thesis by blast
qed

section \<open>Binding and receiving\<close>

definition y0 :: sys where
  "y0 = \<lparr>y_mkdirall = (\<lambda>_ _. None),
     y_lstat = (\<lambda>_. Inr \<lparr>fi_symlink = False, fi_dir = True, fi_perm = octal 7 0 0, fi_uid = Some 1000\<rparr>),
     y_listen = (\<lambda>_. None), y_chmod = (\<lambda>_ _. None)\<rparr>"

definition st0 :: pstate where "st0 = \<lparr>p_events = [], p_umask = octal 0 2 2\<rparr>"

definition path0 :: gostring where "path0 = DefaultSocketPath w0 (getpid w0)"

lemma safe_y0: "safe_dir w0 y0 dir"
proof -
  have "octal 7 0 0 AND octal 0 7 7 = 0" by code_simp
  then show ?thesis by (simp add: safe_dir_def y0_def w0_def)
qed

lemma listen_y0: "Listen w0 y0 st0 =
  (st0\<lparr>p_events := bind_prefix w0 path0 @
     [Bound path0 (octal 1 7 7), UmaskSet (octal 0 2 2), Chmod path0 (octal 6 0 0), ServeStarted]\<rparr>, Inr path0)"
  unfolding Listen_safe[OF safe_y0 path0_def]
  by (simp add: Probe_def) (simp add: w0_def y0_def st0_def)

theorem listen_binds_safely_witness:
  "Bound path0 (octal 1 7 7) \<in> set (p_events (fst (Listen w0 y0 st0))) \<and>
   (\<exists>fi. y_lstat y0 (Dir path0) = Inr fi \<and> fi_perm fi AND octal 0 7 7 = 0) \<and> socket_mode (octal 1 7 7) AND octal 0 7 7 = 0"
proof -
  have b: "Bound path0 (octal 1 7 7) \<in> set (p_events (fst (Listen w0 y0 st0)))" by (simp add: listen_y0)
  have "p_events st0 = []" by (simp add: st0_def)
  from b listen_binds_safely[OF this b] show ?thesis by blast
qed

theorem listen_outcome_witness: "p_umask (fst (Listen w0 y0 st0)) = octal 0 2 2"
proof -
  have "p_events st0 = []" by (simp add: st0_def)
  from listen_outcome[OF this path0_def prod.collapse [symmetric]]
  have "p_umask (fst (Listen w0 y0 st0)) = p_umask st0" by blast
  then show ?thesis by (simp only:) (simp add: st0_def)
qed

definition us :: "nat option \<Rightarrow> perm \<Rightarrow> umask_pc \<Rightarrow> perm list \<Rightarrow> perm \<Rightarrow> ustate" where
  "us mu k pc cs old = \<lparr>u_mu = mu, u_mask = k, u_old = (\<lambda>_. 0)(0 := old), u_pc = (\<lambda>_. UIdle)(0 := pc), u_created = cs\<rparr>"

lemma us_init: "reachable (umask_init 0) umask_step (us None 0 UIdle [] 0)"
  by (rule reachable_init) (simp add: umask_init_def us_def)

definition us_states :: "ustate list" where
  "us_states = [us (Some 0) 0 ULocked [] 0, us (Some 0) (octal 1 7 7) UTight [] 0,
     us (Some 0) (octal 1 7 7) URan [socket_mode (octal 1 7 7)] 0,
     us (Some 0) 0 URestored [socket_mode (octal 1 7 7)] 0, us None 0 UIdle [socket_mode (octal 1 7 7)] 0]"

lemma us_run: "run_steps umask_step (us None 0 UIdle [] 0) us_states"
  using umask_lock[of "us None 0 UIdle [] 0" 0] umask_tighten[of "us (Some 0) 0 ULocked [] 0" 0]
    umask_run[of "us (Some 0) (octal 1 7 7) UTight [] 0" 0]
    umask_restore[of "us (Some 0) (octal 1 7 7) URan [socket_mode (octal 1 7 7)] 0" 0]
    umask_unlock[of "us (Some 0) 0 URestored [socket_mode (octal 1 7 7)] 0" 0]
  by (simp add: us_def us_states_def)

theorem binds_are_atomic_witness:
  "run_steps atomic_bind (0, []) [(0, [octal 6 0 0])] \<and> umask_abs (last us_states) = (0, [octal 6 0 0])"
proof -
  have "socket_mode (octal 1 7 7) = octal 6 0 0" by (rule socket_mode_tight)
  moreover have "(octal 6 0 0 :: perm) # [] \<noteq> []" by simp
  ultimately have "visible (umask_abs (us None 0 UIdle [] 0)) (map umask_abs us_states) = [(0, [octal 6 0 0])]"
    "umask_abs (us None 0 UIdle [] 0) = (0, [])" "umask_abs (last us_states) = (0, [octal 6 0 0])"
    by (simp_all add: us_states_def us_def umask_abs_def tight_def)
  with binds_are_atomic [OF us_init us_run] show ?thesis by simp
qed

theorem scanner_chunking_witness:
  "scan_lines [] [''a'' @ [CHR 0x0A] @ ''b'', ''c''] = [''a'', ''bc'']"
proof -
  have "reads_fit [] [''a'' @ [CHR 0x0A] @ ''b'', ''c'']"
    by (simp add: after_lines_def maxFrameBytes_def)
  from scanner_chunking[OF this] show ?thesis by (simp add: maxFrameBytes_def dropCR_def)
qed

definition cfg0 :: inboxConfig where "cfg0 = \<lparr>has_OnReceipt = True, has_OnMessage = True\<rparr>"

lemma auth_empty_fits: "length (print_json (auth_json \<lparr>af_Type = ''auth'', af_Token = []\<rparr>)) < maxFrameBytes"
  using ascii_json_string[of "''auth''"] ascii_json_string[of "''type''"] ascii_json_string[of "''token''"]
    ascii_json_string[of "[]"]
  by (intro small_frame) (simp add: auth_json_def)

theorem message_delivered_witness:
  "handle cfg0 [print_json (user_json (f3 [])) @ [CHR 0x0A]] = [OnMessage (coerce_utf8 ''x'') ''uds:/s'']"
proof -
  let ?r = "[print_json (user_json (f3 [])) @ [CHR 0x0A]]"
  have len: "length (print_json (user_json (f3 []))) \<le> 1000" by (rule user_small) simp
  have "Wrote (concat ?r) \<in> set sent" by (simp add: sent_def)
  moreover have "reads_fit [] ?r"
    using len by (simp add: after_lines_def maxFrameBytes_def)
  moreover have "has_OnMessage cfg0" "resolveToken w0 c0 ''/s'' = Inr []"
    by (simp_all add: cfg0_def resolveToken_def c0_def)
  ultimately obtain f where "frame w0 (Inr []) m3 = Inr f"
    "handle cfg0 ?r = [OnMessage (coerce_utf8 (fp_Content (uf_Message f))) (m_From m3)]"
    using message_delivered[OF send_m3 _ _ _ _ auth_empty_fits, of ?r cfg0 "Inr []"] by blast
  then show ?thesis by (simp add: frame_m3') (auto simp: f3_def m3_def m0_def)
qed

definition rc0 :: receipt where
  "rc0 = \<lparr>r_Status = StatusHeld, r_OrigMsgID = ''i'', r_From = [], r_Reason = []\<rparr>"

theorem receipts_delivered_witness:
  "handle cfg0 [print_json (receipt_json rc0) @ [CHR 0x0A]] = [OnReceipt rc0]"
proof -
  have "length (print_json (receipt_json rc0)) \<le> 1000"
    using ascii_json_string[of "''type''"] ascii_json_string[of "''control''"] ascii_json_string[of "''action''"]
      ascii_json_string[of "''peer_message_status''"] ascii_json_string[of "''status''"] ascii_json_string[of "''held''"]
      ascii_json_string[of "''orig_msg_id''"] ascii_json_string[of "''i''"] ascii_json_string[of "''from''"]
      ascii_json_string[of "''reason''"] ascii_json_string[of "[]"]
    by (simp add: receipt_json_def rc0_def StatusHeld_def)
  moreover have "receipt_utf8 rc0"
    by (simp add: receipt_utf8_def rc0_def StatusHeld_def ValidString_ascii del: ValidString.simps)
  ultimately have "handle cfg0 [print_json (receipt_json rc0) @ [CHR 0x0A]] = map OnReceipt [rc0]"
    by (intro receipts_delivered) (simp_all add: after_lines_def maxFrameBytes_def cfg0_def)
  then show ?thesis by simp
qed

section \<open>The life of an inbox\<close>

definition ist :: "holder option \<Rightarrow> bool \<Rightarrow> bool \<Rightarrow> nat \<Rightarrow> close_pc \<Rightarrow> inbox_state" where
  "ist mu c l k pc = \<lparr>i_mu = mu, i_closed = c, i_listening = l, i_closes = k, i_removes = 0, i_handled = 0,
     i_delay = 0, i_cpc = (\<lambda>_. CStart)(0 := pc), i_spc = SAccept\<rparr>"

definition ist_states :: "inbox_state list" where
  "ist_states = [ist (Some (Closer 0)) False True 0 CHolding, ist (Some (Closer 0)) True True 0 CMarked,
     ist None True True 0 CClosing, ist None True False 1 CRemoving]"

lemma ist_init: "reachable inbox_init inbox_step (ist None False True 0 CStart)"
  by (rule reachable_init) (simp add: inbox_init_def ist_def)

lemma ist_steps: "run_steps inbox_step (ist None False True 0 CStart) ist_states"
    using close_lock[of "ist None False True 0 CStart" 0] close_mark[of "ist (Some (Closer 0)) False True 0 CHolding" 0]
      close_unlock[of "ist (Some (Closer 0)) True True 0 CMarked" 0] close_listener[of "ist None True True 0 CClosing" 0]
    by (auto simp: ist_def ist_states_def inbox_step_def)

lemma ist_run: "reachable inbox_init inbox_step (ist None True False 1 CRemoving)"
  using run_steps_reachable[OF ist_init ist_steps] by (simp add: ist_states_def)

theorem inbox_refines_contract_witness:
  "run_steps spec_step \<lparr>sp_marked = False, sp_listening = True, sp_handled = 0, sp_ended = False\<rparr>
    [\<lparr>sp_marked = True, sp_listening = True, sp_handled = 0, sp_ended = False\<rparr>,
     \<lparr>sp_marked = True, sp_listening = False, sp_handled = 0, sp_ended = False\<rparr>]"
proof -
  let ?s = "ist None False True 0 CStart"
  have "inbox_abs ?s = \<lparr>sp_marked = False, sp_listening = True, sp_handled = 0, sp_ended = False\<rparr>"
    by (simp add: inbox_abs_def ist_def)
  moreover have "visible (inbox_abs ?s) (map inbox_abs ist_states) =
    [\<lparr>sp_marked = True, sp_listening = True, sp_handled = 0, sp_ended = False\<rparr>,
     \<lparr>sp_marked = True, sp_listening = False, sp_handled = 0, sp_ended = False\<rparr>]"
    by (simp add: inbox_abs_def ist_states_def ist_def)
  moreover have "run_steps spec_step (inbox_abs ?s) (visible (inbox_abs ?s) (map inbox_abs ist_states))"
    using inbox_refines_contract [OF ist_init ist_steps] by blast
  ultimately show ?thesis by (simp only:)
qed

theorem close_happens_once_witness: "i_closes (ist None True False 1 CRemoving) \<le> 1"
  using close_happens_once[OF ist_run] by blast

theorem accept_loop_ends_witness:
  "\<exists>s'. serve_step (ist None True False 1 CRemoving) s' \<and> remaining (i_spc s') < remaining SAccept"
proof -
  have e: "serve_step (ist None True False 1 CRemoving) ((ist None True False 1 CRemoving)\<lparr>i_spc := SFailed\<rparr>)"
    by (rule serve_error) (simp add: ist_def)
  have "\<not> i_listening (ist None True False 1 CRemoving)" by (simp add: ist_def)
  from accept_loop_ends[OF ist_run this] e show ?thesis by (auto simp: ist_def)
qed

theorem backoff_schedule_witness:
  "(next_delay ^^ Suc 9) 0 = Second"
  using backoff_schedule[of 9] by (simp add: Millisecond_def Second_def)

section \<open>The command line\<close>

lemma parse_doc: "parse_flags send_flags [] [''--to'', ''uds:/s''] = Inr ([(''to'', ''uds:/s'')], [])"
  by (simp add: send_flags_def flag_text_def is_terminator_def bad_flag_def split_flag_def HasPrefix_def
      flag_valid_def)

theorem flags_after_text_witness:
  "sendCmd w0 y0 st0 n0 (Inr []) [] [''--to'', ''uds:/s'', ''hello'', ''--wait-receipt'']
   = sendCmd w0 y0 st0 n0 (Inr []) [] [''--to'', ''uds:/s'', ''hello --wait-receipt'']"
  using flags_after_text [OF parse_doc, of "''hello''" w0 y0 st0 n0 "Inr []" "[]" "[''--wait-receipt'']"]
  by (simp add: HasPrefix_def)

theorem cli_return_address_witness:
  "\<exists>m. compose_message [(''from'', ''/s'')] ''x'' = Inr m \<and>
     m_From (outgoing_message w0 None m) = ''uds:/s'' \<and> m_From (outgoing_message w0 (Some path0) m) = Address path0"
proof -
  have a: "Address ''/s'' = ''uds:/s''" by code_simp
  obtain m where m: "compose_message [(''from'', ''/s'')] ''x'' = Inr m" "m_From m = ''uds:/s''"
    using a by (simp add: compose_message_def setting_def ParseAddress_def HasPrefix_def)
  from cli_return_address [OF m(1) refl, of w0 "Some path0" "Inr []"]
  have "ParseAddress (m_From (outgoing_message w0 (Some path0) m)) = Inr path0" by blast
  moreover have "outgoing_message w0 (Some path0) m = outgoing_message w0 (Some path0) m" ..
  ultimately show ?thesis
    using m by (intro exI [of _ m]) (simp add: outgoing_message_From)
qed

definition rcpt :: "ReceiptStatus \<Rightarrow> receipt" where
  "rcpt s = \<lparr>r_Status = s, r_OrigMsgID = ''i'', r_From = [], r_Reason = []\<rparr>"

lemma parse_wait: "parse_flags send_flags [] [''--wait-receipt'', ''1s'', ''x''] = Inr ([(''wait-receipt'', ''1s'')], [''x''])"
proof -
  have "flag_valid FDuration ''1s''"
    by (simp add: flag_valid_def ParseDuration_def duration_sum.simps duration_part_def HasPrefix_def is_digit_code Let_def unit_ns_def dec_val_def digit_val_def max_int_def)
  then show ?thesis
    by (simp add: send_flags_def flag_text_def is_terminator_def bad_flag_def split_flag_def HasPrefix_def)
qed

text \<open>No target was given, so nothing is sent, but an inbox was already open.\<close>

theorem send_outcome_witness:
  "exit_code (o_error (sendCmd w0 y0 st0 n0 (Inr []) [] [''--wait-receipt'', ''1s'', ''x''])) = 1 \<and>
   o_closed (sendCmd w0 y0 st0 n0 (Inr []) [] [''--wait-receipt'', ''1s'', ''x'']) = [path0]"
proof -
  let ?r = "sendCmd w0 y0 st0 n0 (Inr []) [] [''--wait-receipt'', ''1s'', ''x'']"
  have empty: "p_events st0 = []" by (simp add: st0_def)
  have x: "message_text [''x''] = ''x''"
    by (simp add: message_text_def TrimSpace_def trim_left.simps [of "''x''"] trim_right.simps [of "''x''"]
      IsSpace_def decode_last_rune_def decode_rune.simps)
  have d: "wait_setting [(''wait-receipt'', ''1s'')] > 0"
    by (simp add: wait_setting_def duration_setting_def ParseDuration_def duration_sum.simps duration_part_def HasPrefix_def is_digit_code Let_def unit_ns_def dec_val_def digit_val_def max_int_def)
  have z: "ParseInt0 ''0'' = Some 0" by code_simp
  have "?r = with_inbox path0 (send_failed (fst (Listen w0 y0 st0)) NoTarget)"
    by (simp add: sendCmd_def parse_wait x d z listen_y0 compose_message_def setting_def send_and_wait_def
        send_to_target_def int_setting_def Let_def
        del: parse_flags.simps)
  then have "o_stdout ?r = []" "ServeStarted \<in> set (p_events (o_process ?r))"
    by (simp_all add: send_failed_def with_inbox_def listen_y0)
  with send_outcome [OF empty refl, of w0 y0 n0 "Inr []" "[]" "[''--wait-receipt'', ''1s'', ''x'']"]
  show ?thesis by (simp add: path0_def)
qed

lemma token_w3: "resolveToken w3 New ''/s'' = Inr []"
proof -
  have "key_candidate w3 dir0 suff0 ''7.json'' = None"
    by (simp add: key_candidate_def keyFileRe_def)
  then have "LookupToken w3 ''/s'' = Inr []"
    unfolding LookupToken_listing [OF SessionsDir_w3 suffix_s readdir_w3] by (simp add: choose_step_def)
  then show ?thesis
    by (simp add: resolveToken_def New_def SelfSocketPath_def Getenv_def w3_def w0_def)
qed

lemma write_new:
  assumes "length (print_json v) < maxFrameBytes"
  shows "writeFrame w3 n0 New ''/s'' v =
    ([Dialed ''/s'', DeadlineSet (send_deadline New n0), Wrote (print_json v @ [CHR 0x0A]), HalfClosed, Drained, Closed], Inr ())"
  using assms token_w3
  by (simp add: writeFrame_def Let_def n0_def exchange_def wire_line_def w3_def w0_def)

definition rnd0 :: "oserror + byte list" where "rnd0 = Inr (replicate 16 0)"

definition id0 :: gostring where "id0 = ''00000000-0000-4000-8000-000000000000''"

lemma uuid_rnd0: "newUUID rnd0 = Inr id0"
  unfolding rnd0_def id0_def by code_simp

lemma parse_rename: "parse_flags rename_flags [] [''--pid'', ''7'', ''new'', ''name''] = Inr ([(''pid'', ''7'')], [''new'', ''name''])"
proof -
  have "flag_valid FInt ''7''" by code_simp
  then show ?thesis
    by (simp add: rename_flags_def flag_text_def is_terminator_def bad_flag_def split_flag_def HasPrefix_def)
qed

lemma new_name: "message_text [''new'', ''name''] = ''new name''"
  by (simp add: message_text_def TrimSpace_def trim_left.simps [of "''new name''"] trim_right.simps [of "''new name''"]
      IsSpace_def decode_last_rune_def decode_rune.simps)

lemma rename_w3: "\<exists>evs. renameCmd w3 n0 rnd0 [''--pid'', ''7'', ''new'', ''name''] = (evs, None)"
proof -
  have i: "int_setting [(''pid'', ''7'')] ''pid'' = 7" by code_simp
  let ?f = "control_json \<lparr>cf_MsgV = protocolVersion, cf_MsgID = id0, cf_Type = ''control'', cf_Action = ''rename'',
           cf_Name = ''new name'', cf_SessionID = ''u''\<rparr>"
  have "length (print_json ?f) \<le> 1000"
    using ascii_json_string[of "''msgV''"] ascii_json_string[of "''msg_id''"] ascii_json_string[of id0]
      ascii_json_string[of "''type''"] ascii_json_string[of "''control''"] ascii_json_string[of "''action''"]
      ascii_json_string[of "''rename''"] ascii_json_string[of "''name''"] ascii_json_string[of "''new name''"]
      ascii_json_string[of "''session_id''"] ascii_json_string[of "''u''"]
    by (simp add: control_json_def omitempty_def protocolVersion_def Itoa_1 id0_def)
  from write_new [OF small_frame [OF this]] show ?thesis
    by (simp add: renameCmd_def Let_def parse_rename new_name i find_w3 RenameSession_def s3_fields rename_def uuid_rnd0 lib_io_def
        del: parse_flags.simps)
qed

theorem cli_rename_witness:
  "\<exists>evs token i. renameCmd w3 n0 rnd0 [''--pid'', ''7'', ''new'', ''name''] = (evs, None) \<and> Dialed ''/s'' \<in> set evs \<and>
     Wrote (wire_line token (print_json (rename_json i ''new name'' ''u''))) \<in> set evs"
proof -
  obtain evs where e: "renameCmd w3 n0 rnd0 [''--pid'', ''7'', ''new'', ''name''] = (evs, None)" using rename_w3 ..
  have i: "int_setting [(''pid'', ''7'')] ''pid'' = 7" by code_simp
  from cli_rename [OF e parse_rename] show ?thesis
    unfolding new_name i find_w3 using e s3_fields by auto
qed

lemma parse_list:
  "parse_flags list_flags [] [''--all'', ''--json''] = Inr ([(''json'', ''true''), (''all'', ''true'')], [])"
proof -
  have "flag_valid FBool ''true''" by code_simp
  then show ?thesis
    by (simp add: list_flags_def flag_text_def is_terminator_def bad_flag_def split_flag_def HasPrefix_def)
qed

lemma list_settings:
  "bool_setting [(''json'', ''true''), (''all'', ''true'')] ''json''"
  "bool_setting [(''json'', ''true''), (''all'', ''true'')] ''all''"
  by code_simp+

lemma s3_unreachable: "Reachable w3 s3 d = False"
  by (simp add: Reachable_def Probe_def w3_def w0_def s3_fields)

lemma order_w3: "set [0] = {..<length [s3]}"
  by auto

theorem list_shows_live_witness:
  "listCmd w3 [0] [''--all'', ''--json''] = Inr (JSONText (rows_text [row_of s3 False]))"
  using list_shows_live [OF parse_list list_w3 order_w3 refl refl] list_settings s3_unreachable by simp

theorem list_json_reads_back_witness:
  "\<exists>text. listCmd w3 [0] [''--all'', ''--json''] = Inr (JSONText text) \<and>
     parse_json text = Some (JArr [JObj
       [(''pid'', JNum (Itoa 7)), (''sessionId'', JStr ''u''), (''name'', JStr ''n''),
        (''kind'', JStr (s_Kind s3)), (''status'', JStr (s_Status s3)), (''cwd'', JStr (s_CWD s3)),
        (''socket'', JStr ''/s''), (''address'', JStr (session_address s3)), (''live'', JBool False)]])"
  using list_json_reads_back [OF parse_list list_w3 list_settings(1) order_w3 refl refl] list_settings(2)
    s3_unreachable s3_fields by simp

theorem sends_reach_registered_witness:
  "\<exists>ss s token f. ListSessions w3 = Inr ss \<and> s \<in> set ss \<and> s_PID s = 7 \<and> uf_SessionID f = ''u'' \<and>
     Wrote (wire_line token (print_json (user_json f))) \<in> set (fst (SendToPID w3 n0 (Inr []) c0 7 m3))"
proof -
  have "snd (SendToPID w3 n0 (Inr []) c0 7 m3) = Inr ''i''"
    using write_w3[OF small_frame[OF user_small[of "''u''"]], of "''/s''"] frame_m3[of w3 "Inr []" "''u''"]
    by (simp add: SendToPID_def find_w3 Send_def s3_fields SendToSocket_def) (simp add: m3_def m0_def f3_def)
  then have s: "SendToPID w3 n0 (Inr []) c0 7 m3 = (fst (SendToPID w3 n0 (Inr []) c0 7 m3), Inr ''i'')"
    by (metis prod.collapse)
  obtain ss sess f token where r: "ListSessions w3 = Inr ss" "sess \<in> set ss" "s_PID sess = 7"
    "fst (SendToPID w3 n0 (Inr []) c0 7 m3) = [Dialed (s_SocketPath sess), DeadlineSet (send_deadline c0 n0),
      Wrote (wire_line token (print_json (user_json f)))] @ wait_events w3 @ [HalfClosed, Drained, Closed]"
    "uf_SessionID f = (if m_SessionID m3 = [] then s_SessionID sess else m_SessionID m3)"
    using sends_reach_registered [OF _ s, where wanted = "\<lambda>s. s_PID s = 7" and pid = 7 and w = w3 and n = n0
        and rnd = "Inr []" and c = c0 and k = "[]" and m = m3] by auto
  moreover from r(1,2) have "sess = s3" by (auto simp: list_w3)
  moreover have "m_SessionID m3 = []" by (simp add: m3_def m0_def)
  ultimately show ?thesis
    by (intro exI [of _ ss] exI [of _ sess] exI [of _ token] exI [of _ f]) (simp add: s3_fields)
qed

lemma rcpt_denied_small: "length (print_json (receipt_json (rcpt StatusDenied))) \<le> 1000"
  using ascii_json_string[of "''type''"] ascii_json_string[of "''control''"] ascii_json_string[of "''action''"]
    ascii_json_string[of "''peer_message_status''"] ascii_json_string[of "''status''"] ascii_json_string[of "''denied''"]
    ascii_json_string[of "''orig_msg_id''"] ascii_json_string[of "''i''"] ascii_json_string[of "''from''"]
    ascii_json_string[of "''reason''"] ascii_json_string[of "[]"]
  by (simp add: receipt_json_def rcpt_def StatusDenied_def)

text \<open>One connection carries one receipt, and the loop takes it from the channel.\<close>

abbreviation denied_line :: gostring where
  "denied_line \<equiv> print_json (receipt_json (rcpt StatusDenied)) @ [CHR 0x0A]"

lemma carries_denied: "carries_receipts [denied_line] [rcpt StatusDenied]"
  using rcpt_denied_small
  by (simp add: carries_receipts_def receipt_utf8_def rcpt_def StatusDenied_def ValidString_ascii after_lines_def
      maxFrameBytes_def del: ValidString.simps)

lemma denied_call: "handle cfg0 [denied_line] = map OnReceipt [rcpt StatusDenied]"
  using carries_denied unfolding carries_receipts_def by (intro handle_receipts) (simp_all add: cfg0_def)

definition denied_end :: wait_state where
  "denied_end = (wait_start [[rcpt StatusDenied]])\<lparr>ws_conns := [[]], ws_stderr := [receipt_line (rcpt StatusDenied)],
     ws_seen := [rcpt StatusDenied], ws_result := Some (Some (ReceiptFailed StatusDenied))\<rparr>"

lemma denied_reach: "wait_reach (wait_start [[rcpt StatusDenied]]) denied_end"
proof -
  let ?d = "rcpt StatusDenied"
  let ?s0 = "wait_start [[?d]]"
  let ?s1 = "?s0\<lparr>ws_conns := [[]], ws_queue := [?d]\<rparr>"
  have "wait_step ?s0 ?s1" using wait_callback [of ?s0 0 ?d "[]"] by (simp add: wait_start_def on_receipt_def)
  moreover have "wait_step ?s1 denied_end"
    using wait_take [of ?s1 ?d "[]"]
    by (simp add: wait_start_def denied_end_def verdict_def) (simp add: rcpt_def StatusHeld_def StatusDenied_def)
  ultimately show ?thesis by (blast intro: reachable.intros)
qed

theorem receipt_exit_code_witness:
  "exit_code (Some (ReceiptFailed StatusDenied)) = 2 \<and> ws_stderr denied_end = [''receipt: denied (msg i) '']"
proof -
  have "first_final [rcpt StatusDenied] = Some StatusDenied"
    by (simp add: first_final_def rcpt_def StatusHeld_def StatusDenied_def)
  moreover have "map receipt_line (upto_final [rcpt StatusDenied]) = [''receipt: denied (msg i) '']"
    by (simp add: receipt_line_def rcpt_def StatusDenied_def)
  moreover have "wait_reach (wait_start [receipt_calls (handle cfg0 [denied_line])]) denied_end"
    using denied_reach unfolding denied_call receipt_calls_map .
  moreover have "\<not> ws_fired denied_end" "ws_result denied_end = Some (Some (ReceiptFailed StatusDenied))" "has_OnReceipt cfg0"
    by (simp_all add: denied_end_def wait_start_def cfg0_def)
  ultimately show ?thesis
    using receipt_exit_code [OF carries_denied, of cfg0 StatusDenied denied_end "Some (ReceiptFailed StatusDenied)"]
    by simp
qed

theorem wait_ends_witness:
  "\<exists>t. wait_step ((wait_start [[rcpt StatusHeld, rcpt StatusDenied]])
        \<lparr>ws_conns := [[rcpt StatusDenied]], ws_queue := [rcpt StatusHeld]\<rparr>) t \<and> ws_conns t = [[]]"
proof -
  let ?s = "wait_start [[rcpt StatusHeld, rcpt StatusDenied]]"
  let ?t = "?s\<lparr>ws_conns := [[rcpt StatusDenied]], ws_queue := [rcpt StatusHeld]\<rparr>"
  have "wait_step ?s ?t"
    using wait_callback [of ?s 0 "rcpt StatusHeld" "[rcpt StatusDenied]"] by (simp add: wait_start_def on_receipt_def)
  then have "\<forall>i < length (ws_conns ?t). ws_conns ?t ! i \<noteq> [] \<longrightarrow>
      (\<exists>t. wait_step ?t t \<and> ws_conns t = (ws_conns ?t)[i := tl (ws_conns ?t ! i)])"
    using wait_ends [of "[[rcpt StatusHeld, rcpt StatusDenied]]" "[?t]" ?t] by (simp add: wait_start_def)
  from this [rule_format, of 0] show ?thesis by simp
qed

theorem wait_truthful_witness:
  "exit_code (Some (ReceiptFailed StatusDenied)) = 2 \<and>
   (\<exists>a. can_arrive [[rcpt StatusDenied]] a \<and> prefix [rcpt StatusDenied] a)"
proof -
  have c: "list_all2 carries_receipts [[denied_line]] [[rcpt StatusDenied]]" "has_OnReceipt cfg0"
    using carries_denied by (simp_all add: cfg0_def)
  have "wait_reach (wait_start (map (\<lambda>reads. receipt_calls (handle cfg0 reads)) [[denied_line]])) denied_end"
    using denied_reach unfolding connections_receipts [OF c] .
  from wait_truthful [OF c this, of "Some (ReceiptFailed StatusDenied)"] show ?thesis
    by (simp add: denied_end_def receipt_count_def rcpt_def StatusHeld_def StatusDenied_def del: can_arrive.simps)
qed

section \<open>From a published session to its handler\<close>

text \<open>PID 7 with its registry file and its key file.\<close>

definition w4 :: world where
  "w4 = w0\<lparr>readdir := (\<lambda>_. Inr [''7.json'', Itoa 7 @ suff0]),
     entry_at := (\<lambda>p. Entry (if p = Join [dir0, ''7.json''] then registry_file reg_raw else key_file tok ''42''))\<rparr>"

lemma SessionsDir_w4: "SessionsDir w4 = Inr dir0"
  by (simp add: SessionsDir_def ConfigDir_def UserHomeDir_def Getenv_def w0_def w4_def dir0_def)

lemma suff0_shape: "\<exists>h. suff0 = ''.'' @ h @ ''.key'' \<and> length h = 64 \<and> list_all is_lower_hex h"
  using keyFileSuffix_shape [OF suffix_s] by blast

lemma Join_dir0:
  assumes "CHR ''/'' \<notin> set n" "n \<noteq> []" "n \<noteq> ''.''" "n \<noteq> ''..''"
  shows "Join [dir0, n] = ''/h/.claude/sessions/'' @ n"
proof -
  have d: "dir0 = ''/h/.claude/sessions''" by code_simp
  show ?thesis
    unfolding d using assms by (simp add: Join_def Clean_def IsAbs_def segments_def split_at_single HasPrefix_def)
qed

lemma key_name_w4: "CHR ''/'' \<notin> set suff0" "hd suff0 = CHR ''.''" "suff0 \<noteq> ''.json''" "suff0 \<noteq> []"
proof -
  obtain h where h: "suff0 = ''.'' @ h @ ''.key''" "length h = 64" "list_all is_lower_hex h"
    using suff0_shape by blast
  have "\<not> is_lower_hex (CHR ''/'')" by (simp add: is_lower_hex_code)
  with h(3) have "CHR ''/'' \<notin> set h" by (auto simp: list_all_iff)
  then show "CHR ''/'' \<notin> set suff0" unfolding h(1) by simp
  show "hd suff0 = CHR ''.''" "suff0 \<noteq> []" unfolding h(1) by simp_all
  show "suff0 \<noteq> ''.json''" unfolding h(1) using h(2) by (auto dest: arg_cong [where f = length])
qed

lemma opens_w4:
  "openNoFollow w4 (Join [dir0, registry_name 7]) = Inr (registry_file reg_raw)"
  "openNoFollow w4 (Join [dir0, Itoa 7 @ suff0]) = Inr (key_file tok ''42'')"
proof -
  have "Join [dir0, Itoa 7 @ suff0] = ''/h/.claude/sessions/7'' @ suff0" "Join [dir0, ''7.json''] = ''/h/.claude/sessions/7.json''"
    using Join_dir0 [of "Itoa 7 @ suff0"] Join_dir0 [of "''7.json''"] key_name_w4 by (simp_all add: Itoa_7)
  then show "openNoFollow w4 (Join [dir0, registry_name 7]) = Inr (registry_file reg_raw)"
    "openNoFollow w4 (Join [dir0, Itoa 7 @ suff0]) = Inr (key_file tok ''42'')"
    using key_name_w4(3) by (simp_all add: openNoFollow_entry w4_def w0_def registry_name_def Itoa_7)
qed

lemma registered_w4: "registered w4 7 reg_raw"
proof -
  have "readdir w4 d = Inr [''7.json'', Itoa 7 @ suff0]" for d by (simp add: w4_def)
  then show ?thesis
    using reg_json_ok reg_numbers_ok reg_small opens_w4(1) key_name_w4(3)
    by (simp add: registered_def names_distinct_def SessionsDir_w4 valid_pid_def max_int_def registry_name_def Itoa_7
        del: print_json.simps numbers_ok.simps)
qed

lemma key_w4: "key_published w4 7 ''/s'' tok ''42''"
proof -
  obtain h where h: "suff0 = ''.'' @ h @ ''.key''" "length h = 64" using suff0_shape by blast
  have "\<not> HasSuffix ''7.json'' suff0" unfolding h(1) using h(2) by (simp add: HasSuffix_def)
  moreover have "readdir w4 d = Inr [''7.json'', Itoa 7 @ suff0]" for d by (simp add: w4_def)
  ultimately show ?thesis
    using tok_wellformed valid_42 key_json_small opens_w4(2)
    by (simp add: key_published_def SessionsDir_w4 suffix_s valid_pid_def max_int_def
        del: print_json.simps ValidString.simps)
qed

theorem published_session_receives_witness:
  "\<exists>line. Wrote line \<in> set (fst (SendToPID w4 n0 (Inr []) New 7 m3)) \<and>
     hd (split_at (CHR 0x0A) line) = print_json (auth_json \<lparr>af_Type = ''auth'', af_Token = tok\<rparr>) \<and>
     handle cfg0 [line] = [OnMessage (coerce_utf8 ''x'') ''uds:/s'']"
proof -
  have "map_get reg_raw ''messagingSocketPath'' = Some (JStr ''/s'')" "str reg_raw ''sessionId'' = ''u''"
    by (simp_all add: reg_raw_def map_get_def str_def)
  moreover have "SelfSocketPath w4 \<noteq> ''/s''" by (simp add: SelfSocketPath_def Getenv_def w4_def w0_def)
  moreover have "net_ok w4 n0" by (simp add: net_ok_def n0_def w4_def w0_def)
  moreover have "m_SessionID m3 = []" by (simp add: m3_def m0_def)
  ultimately obtain line where l: "SendToPID w4 n0 (Inr []) New 7 m3 =
      ([Dialed ''/s'', DeadlineSet (send_deadline New n0), Wrote line] @ wait_events w4 @ [HalfClosed, Drained, Closed],
       Inr (uf_MsgID (f3 ''u'')))"
    "split_at (CHR 0x0A) line = [print_json (auth_json \<lparr>af_Type = ''auth'', af_Token = tok\<rparr>), print_json (user_json (f3 ''u'')), []]"
    "\<forall>reads. concat reads = line \<and> reads_fit [] reads \<longrightarrow>
       handle cfg0 reads = [OnMessage (coerce_utf8 (fp_Content (uf_Message (f3 ''u'')))) (m_From m3)]"
    using published_session_receives [OF registered_w4 _ _ key_w4 _ _ _ _ _ frame_m3 small_frame [OF user_small [of "''u''"]],
        of New n0 cfg0] by (auto simp: New_def cfg0_def)
  have "length line \<le> 1500"
    using join_split_at [of "CHR 0x0A" line] auth_line_short [OF tok_wellformed] user_small [of "''u''"]
    unfolding l(2) by (auto simp del: print_json.simps)
  then have "reads_fit [] [line]" by (simp add: after_lines_def maxFrameBytes_def)
  with l show ?thesis by (intro exI [of _ line]) (simp add: f3_def m3_def m0_def)
qed

text \<open>\<^verbatim>\<open>m3\<close> names the socket \<^verbatim>\<open>/s\<close> as its return address.\<close>

theorem reply_returns_witness:
  "\<exists>text addr. handle cfg0 [print_json (user_json (f3 [])) @ [CHR 0x0A]] = [OnMessage text addr] \<and>
     SendToAddress w3 n0 rnd0 c0 addr m3 = SendToSocket w3 n0 rnd0 c0 ''/s'' m3"
proof -
  let ?r = "[print_json (user_json (f3 [])) @ [CHR 0x0A]]"
  have "Wrote (concat ?r) \<in> set sent" by (simp add: sent_def)
  moreover have "reads_fit [] ?r"
    using user_small[of "[]"] by (simp add: after_lines_def maxFrameBytes_def)
  moreover have "has_OnMessage cfg0" "resolveToken w0 c0 ''/s'' = Inr []"
    by (simp_all add: cfg0_def resolveToken_def c0_def)
  moreover have "m_From m3 = Address ''/s''" by code_simp
  ultimately show ?thesis by (rule reply_returns [OF send_m3 _ _ _ _ auth_empty_fits])
qed

text \<open>Inside a session, with a token that is then replaced; the message goes to the session itself.\<close>

definition w5 :: world where
  "w5 = w0\<lparr>environ := (\<lambda>k. if k = ''CLAUDE_CODE_MESSAGING_SOCKET'' then Some ''/s''
     else if k = ''CLAUDE_CODE_MESSAGING_TOKEN'' then Some ''k'' else None)\<rparr>"

theorem inherited_token_confined_witness:
  "main_exit (run (retoken ''l'' w5) [] y0 st0 n0 rnd0 [] [''rename'', ''--to'', ''/s'', ''x'']) =
     main_exit (run w5 [] y0 st0 n0 rnd0 [] [''rename'', ''--to'', ''/s'', ''x''])"
proof -
  have t: "SelfToken w5 \<noteq> []" "''l'' \<noteq> []" by (simp_all add: SelfToken_def Getenv_def w5_def)
  from inherited_token_confined [OF t refl refl, of "[]" y0 st0 n0 rnd0 "[]" "[''rename'', ''--to'', ''/s'', ''x'']"]
  show ?thesis by (elim disjE conjE) simp_all
qed

section \<open>Time and the socket file\<close>

text \<open>The receipt comes a second late and its callback takes a minute.\<close>

theorem handler_deadline_witness:
  "map snd (fst (handle_timed cfg0 (\<lambda>_ _. nat (60 * Second)) 0 [(Second, Bytes denied_line), (2 * Second, End)]))
     = [OnReceipt (rcpt StatusDenied)]"
proof -
  let ?busy = "\<lambda>_ _. nat (60 * Second)"
  obtain ls fin where "timed_scan ?busy 0 (0 + inboxIdleTimeout) [] [(Second, Bytes denied_line), (2 * Second, End)] = (ls, fin)"
    by fastforce
  from handler_deadline [OF this, of cfg0 "[]" 0 "[]" 0]
  have "map snd (fst (handle_timed cfg0 ?busy 0 [(Second, Bytes denied_line), (2 * Second, End)])) = handle cfg0 [denied_line]"
    by (simp add: inboxIdleTimeout_def Second_def)
  with denied_call show ?thesis by simp
qed

theorem open_inbox_reachable_witness: "answers (ps (SocketOf 0) Open Unused False)"
proof -
  from run_steps_reachable [OF ps_init ps_first_open]
  have "reachable path_init serial_step (ps (SocketOf 0) Open Unused False)" by simp
  from open_inbox_reachable [OF this, of 0] show ?thesis by (simp add: ps_lives del: ps_answers)
qed

end
