(* ===== verification/Spec2Isabelle.thy ===== *)
theory Spec2Isabelle
  imports Serve Idle Rebind Waiting Delivery Secrecy Witnesses
begin

text \<open>
  A verification library for \<^verbatim>\<open>ccsock\<close>, the Go package that lets programs send messages to
  running Claude Code sessions over Unix sockets, and for its command-line tool
  \<^verbatim>\<open>cc-send\<close>.  All paths below are under \<^verbatim>\<open>src/\<close>.

  \<^bold>\<open>The program.\<close>  A session registers itself in a directory of JSON files, one per
  process (\<^verbatim>\<open>session.go\<close>); it listens on a socket whose path it publishes there and may
  publish a token in a key file (\<^verbatim>\<open>auth.go\<close>).  A sender looks the session up, builds a frame
  (\<^verbatim>\<open>message.go\<close>), resolves the token, and writes one or two JSON lines to the socket
  (\<^verbatim>\<open>client.go\<close>).  To learn what became of a message it binds an inbox socket of its own
  (\<^verbatim>\<open>inbox.go\<close>, \<^verbatim>\<open>paths.go\<close>), whose address (\<^verbatim>\<open>addr.go\<close>) it puts in the frame, and reads
  receipts there.  \<^verbatim>\<open>cc-send\<close> (\<^verbatim>\<open>cmd/cc-send/main.go\<close>) composes all of this.

  \<^bold>\<open>The theories.\<close>
  \<^item> \<open>Prelude\<close>: Go strings (lists of bytes), the error values, sequencing of fallible calls
    (\<open>and_then\<close>, \<open>ensure\<close>), the string, hex and decimal functions the sources call, and two
    interfaces, \<open>codec\<close> and \<open>checked_codec\<close>, for pairs of an encoder and a decoder.
    \<open>Utf8\<close>: runes, invalid bytes included.  \<open>World\<close>: what the package observes of its
    surroundings, as one record of results of system calls.  \<open>Steps\<close>: reachability, and the
    interfaces \<open>invariant_system\<close> and \<open>safe_system\<close> of a transition system with an inductive
    invariant, and \<open>refinement_map\<close> of one that implements another.
  \<^item> \<open>Addr\<close> (\<^verbatim>\<open>addr.go\<close>, and \<^verbatim>\<open>validAddress\<close> of \<^verbatim>\<open>message.go\<close>): percent escaping;
    interprets \<open>checked_codec\<close>.
  \<^item> \<open>Message\<close> (\<^verbatim>\<open>message.go\<close>): frames, the envelope that attributes a message to its
    sender, the name sanitizer, message ids.
  \<^item> \<open>Json\<close>: the subset of \<^verbatim>\<open>encoding/json\<close> in use, printing (compact or indented) and
    parsing; interprets \<open>codec\<close>.  \<open>Float64\<close>: correctly rounded doubles for the numbers of registry files.
    \<open>Sha256\<close>: the hash in key file names.  \<open>Flags\<close>: the \<^verbatim>\<open>flag\<close> package.
  \<^item> \<open>Paths\<close> (\<^verbatim>\<open>paths.go\<close>) and \<open>Procstart\<close> (\<^verbatim>\<open>procstart*.go\<close>, \<^verbatim>\<open>platform_*.go\<close>): where
    things are, which processes are alive, and their start tokens.
  \<^item> \<open>Auth\<close> (\<^verbatim>\<open>auth.go\<close>): key files and \<^verbatim>\<open>LookupToken\<close>, whose fold over the directory is
    the interface \<open>ranking\<close>; the opening of files, with and without following symlinks.
  \<^item> \<open>Session\<close> (\<^verbatim>\<open>session.go\<close>): registry files, listing, lookups, through the interface
    \<open>keyed_registry\<close>; the sort order is an instance of \<open>linorder\<close>.
  \<^item> \<open>Client\<close> (\<^verbatim>\<open>client.go\<close>): sends and renames as traces of network events with a result;
    its use of the registry is the interface \<open>resolver\<close>.
  \<^item> \<open>Bind\<close> (\<^verbatim>\<open>Listen\<close>, \<^verbatim>\<open>ensureSocketDir\<close>, \<^verbatim>\<open>withTightUmask\<close>): one bind as a trace, and
    concurrent binds as a step relation; interprets \<open>safe_system\<close>, and \<open>refinement_map\<close> to
    binds that are one step each.
  \<^item> \<open>Inbox\<close> (\<^verbatim>\<open>Inbox.handle\<close>): the line scanner over arbitrary reads, frame decoding,
    callbacks.  \<open>Idle\<close>: the same with the times of the peer's bytes, the time the callbacks
    take and the read deadline.
    \<open>Serve\<close> (\<^verbatim>\<open>Inbox.serve\<close>, \<^verbatim>\<open>Inbox.Close\<close>): the accept loop and concurrent closes as a
    step relation, with the contract \<open>inbox_spec\<close> it implements by \<open>refinement_map\<close>.
    \<open>Rebind\<close> (\<^verbatim>\<open>Listen\<close>, \<^verbatim>\<open>Inbox.Close\<close>): the one socket file that all inboxes of a process
    share.  The last two interpret \<open>safe_system\<close>.
  \<^item> \<open>CcSend\<close> (\<^verbatim>\<open>cmd/cc-send/main.go\<close>): the commands, from arguments to what is printed on
    both streams and the exit code.  \<open>Waiting\<close> (the receipts channel and the loop of
    \<^verbatim>\<open>sendCmd\<close>): the wait for receipts as goroutines around a channel of 16, a step relation
    that interprets \<open>invariant_system\<close>.
  \<^item> \<open>Delivery\<close>: registry, keys, client and inbox together, for one message from the files
    a session publishes to the callback in that session.  \<open>Secrecy\<close>: the tool run twice, with
    two values of the token it inherits (\<open>retoken\<close>), as one run up to the bytes written.
  \<^item> \<open>Witnesses\<close>: every property with hypotheses, applied to concrete inputs.

  \<^bold>\<open>How state and effects are modelled.\<close>  Reading operations take the \<open>world\<close> and return a
  sum, the error on the left; one operation sees one state of the system, except that a file
  may change between \<^verbatim>\<open>fstat\<close> and the reads.  Writing operations return the list of calls
  they made: \<open>net_event\<close> for a connection, \<open>bind_event\<close> and the umask for a bind.  What the
  system answers is an argument (\<open>net\<close>, \<open>sys\<close> with an answer for each path, the random bytes), so a property holds for
  every way the calls can fail.  Goroutines appear as step relations over an explicit state
  (\<open>ustate\<close>, \<open>inbox_state\<close>, \<open>path_state\<close>, \<open>wait_state\<close>) or as a schedule (the reads of a connection, the finishing order
  of probes, the arrivals and polls of a wait).  Integers follow Go: file modes and message
  id bytes are machine words, the hash works on 32-bit words, PIDs and timestamps are
  integers with the 64-bit range written out where it decides a branch.

  \<^bold>\<open>What is shown.\<close>  End to end: a session that has published its files gets the message a
  client sends to its PID, once, however the stream is cut; the address it sees leads back to
  the sender; receipts come through in order.
  For a sender: exactly when a send succeeds, the bytes and the order of the calls, that every
  dialed connection is closed, that no token is written when authentication is off and the
  inherited one reaches no other socket and no output, which socket a lookup leads to and
  what the frame carries.  For keys: the published token is found, the best-ranked key wins,
  its owner is corroborated when one can be, and no token comes from anywhere but such a
  file.  For the registry: listings are complete, sorted and unique per PID, and well typed
  whatever the files hold; files read back as they were written; lookups return, refuse or
  report ambiguity exactly as documented.
  For messages: the envelope cannot be closed from inside, and its header holds exactly the
  two attributes.  For binding: no socket is created where others could reach it, and the
  umask is restored; concurrent binds are as good as atomic ones.  For the inbox: its
  goroutines implement its contract, it is closed once, and its loop ends; a handler
  never waits for its peer past the deadline, however long its callbacks take; the socket file
  of an open inbox stays in place while calls do not overlap and no probe fails on a live
  inbox.  For the tool: which words are text, that the return address is well
  formed, what an exit code means, which receipts are reported, that the wait for them ends, holds up
  no connection and reports the first final receipt unless the timer fires (the schedules that
  \<open>wait_loop\<close> runs on in \<open>sendCmd\<close> have exactly the outcomes of the goroutines,
  \<open>wait_schedules\<close>), that a JSON listing reads back as the sessions listed, that a temporary
  inbox does not leak.

  \<^bold>\<open>Termination and fuel.\<close>  Every definition is total.  The JSON parser recurses on fuel of
  twice the length of the text plus one, and \<open>pval_fuel\<close> in \<open>Json\<close> shows that more never
  changes a result; nesting is cut at the 10000 levels of the library.  The scanner
  recurses on the reads left and the buffer, the duration parser on the text, the trimming
  functions on the string.  The accept loop and the wait for receipts are not functions but relations: each step
  of the loop after a close lowers a bound, and so does each step of the wait (\<open>wait_left\<close>, two
  for a receipt on its connection and one for a receipt in the channel).

  \<^bold>\<open>Not modelled.\<close>  The layout of tables by \<^verbatim>\<open>text/tabwriter\<close> (the cells are), and the
  messages of the \<^verbatim>\<open>flag\<close> package;
  \<^verbatim>\<open>doc.go\<close>, which has no code; the rules of \<^verbatim>\<open>path/filepath\<close> on Windows, where the other
  Windows files are modelled; the wording of errors, which are values with the data they
  mention.  Time passes in \<open>Idle\<close> only; elsewhere it is present as deadlines and durations,
  and a timeout is one of the ways a call can fail or a read can end.

  \<^bold>\<open>What the model brought to light.\<close>  \<^verbatim>\<open>validAddress\<close> accepts a backslash, which \<^verbatim>\<open>%q\<close>
  doubles in the envelope, so the \<^verbatim>\<open>from\<close> attribute no longer repeats the address.  The
  example in the comment that opens \<^verbatim>\<open>main.go\<close> passes \<^verbatim>\<open>--wait-receipt\<close> after the text, where
  it is sent as text.
  The handler's read deadline is set per line, not per read as its comment says, so a slow
  line is cut although the peer is never idle for that long; \<^verbatim>\<open>Listen\<close> takes a probe that
  fails for any reason for a dead socket and removes the file of an inbox that is alive; and \<^verbatim>\<open>Close\<close> removes the socket
  path a second time after its listener has unlinked it, when the path may already belong to
  the next inbox of the process.
\<close>

end
